(* ===== verification/Prelude.thy ===== *)
theory Prelude
  imports Complex_Main "HOL-Library.Word" "HOL-Library.List_Lexorder" "HOL-Library.Char_ord"
    "HOL-Library.AList"
begin

text \<open>
  Shared vocabulary of the development: the types that name Python and PostgreSQL values
  (bytes, timestamps, names), the string and list primitives of the Python standard library
  that the services use (\<open>split\<close>, \<open>join\<close>, \<open>lower\<close>, slices, rounding), the SQL aggregates,
  and the generic lemmas on them that the component theories apply.
\<close>

unbundle bit_operations_syntax

section \<open>Collections of facts\<close>

named_theorems table_simps \<open>look-ups in a table after a statement\<close>
named_theorems codec_simps \<open>decoders applied to what the encoders produce\<close>

section \<open>Types\<close>

text \<open>
  Python \<open>bytes\<close> are lists of 8-bit words. A \<open>datetime\<close> and a PostgreSQL \<open>timestamptz\<close>
  both count microseconds, so both are integers here (microseconds since the epoch, UTC).
\<close>

type_synonym bytes = "8 word list"
type_synonym timestamp = int

definition secs :: "int \<Rightarrow> int" where
  "secs n = n * 1000000"

definition days :: "int \<Rightarrow> int" where
  "days n = secs (n * 86400)"

lemma secs_mono: "secs a \<le> secs b \<longleftrightarrow> a \<le> b"
  by (simp add: secs_def)

lemma secs_strict_mono: "secs a < secs b \<longleftrightarrow> a < b"
  by (simp add: secs_def)

lemma secs_nonneg: "0 \<le> secs a \<longleftrightarrow> 0 \<le> a"
  by (simp add: secs_def)

lemma secs_pos: "0 < secs a \<longleftrightarrow> 0 < a"
  by (simp add: secs_def)

section \<open>Lists and slices\<close>

text \<open>Python's \<open>buf[i:j]\<close> for \<open>0 \<le> i\<close>: a slice never fails, it is cut at the end.\<close>

definition slice :: "nat \<Rightarrow> nat \<Rightarrow> 'a list \<Rightarrow> 'a list" where
  "slice i j xs = take (j - i) (drop i xs)"

lemma length_slice: "length (slice i j xs) = min (j - i) (length xs - i)"
  by (simp add: slice_def)

text \<open>Python's \<open>str.split(sep)\<close> and \<open>bytes.split(sep)\<close> for a one-character separator.\<close>

fun split_on :: "'a \<Rightarrow> 'a list \<Rightarrow> 'a list list" where
  "split_on c [] = [[]]"
| "split_on c (x # xs) =
     (if x = c then [] # split_on c xs
      else (case split_on c xs of [] \<Rightarrow> [[x]] | w # ws \<Rightarrow> (x # w) # ws))"

text \<open>Python's \<open>sep.join(parts)\<close>.\<close>

fun join :: "'a list \<Rightarrow> 'a list list \<Rightarrow> 'a list" where
  "join s [] = []"
| "join s [w] = w"
| "join s (w # v # ws) = w @ s @ join s (v # ws)"

lemma split_on_nonempty [simp]: "split_on c xs \<noteq> []"
  by (induction xs) (auto split: list.splits)

lemma split_on_id: "c \<notin> set xs \<Longrightarrow> split_on c xs = [xs]"
  by (induction xs) auto

lemma split_on_append_sep:
  "c \<notin> set xs \<Longrightarrow> split_on c (xs @ c # ys) = xs # split_on c ys"
  by (induction xs) auto

lemma join_split_on: "join [c] (split_on c xs) = xs"
proof (induction xs)
  case Nil
  then show ?case by simp
next
  case (Cons x xs)
  obtain w ws where s: "split_on c xs = w # ws"
    by (cases "split_on c xs") auto
  with Cons.IH have j: "join [c] (w # ws) = xs" by simp
  show ?case
  proof (cases "x = c")
    case True
    then show ?thesis using s j by simp
  next
    case False
    then show ?thesis using s j by (cases ws) auto
  qed
qed

text \<open>Splitting what was joined gives the parts back, when no part holds the separator.\<close>

lemma split_on_join:
  "ws \<noteq> [] \<Longrightarrow> \<forall>w \<in> set ws. c \<notin> set w \<Longrightarrow> split_on c (join [c] ws) = ws"
  by (induction "[c]" ws rule: join.induct) (auto simp: split_on_id split_on_append_sep)

text \<open>A single part can be found in the joined text only inside one of the parts.\<close>

lemma split_on_append_cons:
  "split_on c (xs @ c # ys) = split_on c xs @ split_on c ys"
  by (induction xs) (auto split: list.splits)

lemma set_split_on_join:
  "ws \<noteq> [] \<Longrightarrow> set (split_on c (join [c] ws)) = (\<Union>w \<in> set ws. set (split_on c w))"
proof (induction "[c]" ws rule: join.induct)
  case (3 w v ws)
  then show ?case by (simp add: split_on_append_cons)
qed simp_all

lemma set_split_on_no_sep: "w \<in> set (split_on c xs) \<Longrightarrow> c \<notin> set w"
  by (induction xs arbitrary: w) (auto split: if_splits list.splits)

text \<open>\<open>ORDER BY f LIMIT n\<close> takes the smallest: nothing left out is smaller than what is taken.\<close>

lemma take_sort_key_le:
  assumes "x \<in> set (take n (sort_key f xs))" and "y \<in> set xs" and "y \<notin> set (take n (sort_key f xs))"
  shows "f x \<le> f y"
proof -
  let ?s = "sort_key f xs"
  have "y \<in> set (drop n ?s)"
    using assms(2,3) by (metis UnE append_take_drop_id set_append set_sort)
  moreover have "sorted (map f (take n ?s) @ map f (drop n ?s))"
    by (metis append_take_drop_id map_append sorted_sort_key)
  ultimately show ?thesis using assms(1) by (simp add: sorted_append)
qed

lemma insort_key_cong:
  "\<forall>y \<in> set xs \<union> {x}. f y = g y \<Longrightarrow> insort_key f x xs = insort_key g x xs"
  by (induction xs) auto

lemma sort_key_cong:
  "(\<And>x. x \<in> set xs \<Longrightarrow> f x = g x) \<Longrightarrow> sort_key f xs = sort_key g xs"
  by (induction xs) (auto simp: sort_key_def set_sort [unfolded sort_key_def] intro!: insort_key_cong)

section \<open>Strings\<close>

text \<open>\<open>str.lower()\<close> and \<open>str.upper()\<close> on the ASCII letters; other characters stay.\<close>

definition lower_char :: "char \<Rightarrow> char" where
  "lower_char c =
     (let n = of_char c :: nat in if 65 \<le> n \<and> n \<le> 90 then char_of (n + 32) else c)"

definition upper_char :: "char \<Rightarrow> char" where
  "upper_char c =
     (let n = of_char c :: nat in if 97 \<le> n \<and> n \<le> 122 then char_of (n - 32) else c)"

definition lower :: "string \<Rightarrow> string" where
  "lower = map lower_char"

definition upper :: "string \<Rightarrow> string" where
  "upper = map upper_char"

lemma of_char_lower_char:
  "(of_char (lower_char c) :: nat) =
     (let n = of_char c in if 65 \<le> n \<and> n \<le> 90 then n + 32 else n)"
  by (simp add: lower_char_def Let_def of_char_of take_bit_eq_mod)

lemma lower_char_idem [simp]: "lower_char (lower_char c) = lower_char c"
proof -
  have "\<not> (65 \<le> (of_char (lower_char c) :: nat) \<and> (of_char (lower_char c) :: nat) \<le> 90)"
    by (simp add: of_char_lower_char Let_def)
  then show ?thesis by (auto simp: lower_char_def [of "lower_char c"] Let_def)
qed

lemma lower_idem [simp]: "lower (lower s) = lower s"
  by (simp add: lower_def)

lemma lower_Nil_iff [simp]: "lower s = [] \<longleftrightarrow> s = []"
  by (simp add: lower_def)

lemma lower_char_dot_iff: "lower_char c = CHR ''.'' \<longleftrightarrow> c = CHR ''.''"
proof
  assume dot: "lower_char c = CHR ''.''"
  then have "(of_char (lower_char c) :: nat) = 46" by simp
  then have "\<not> (65 \<le> (of_char c :: nat) \<and> (of_char c :: nat) \<le> 90)"
    by (simp add: of_char_lower_char Let_def split: if_splits)
  then have "lower_char c = c" by (auto simp: lower_char_def Let_def)
  with dot show "c = CHR ''.''" by simp
qed (simp add: lower_char_def)

text \<open>PostgreSQL's \<open>rtrim(s, c)\<close>.\<close>

fun rtrim :: "char \<Rightarrow> string \<Rightarrow> string" where
  "rtrim c s = rev (dropWhile (\<lambda>x. x = c) (rev s))"

text \<open>A bytes literal \<open>b"..."\<close> of ASCII characters.\<close>

definition bytes_of :: "string \<Rightarrow> bytes" where
  "bytes_of s = map (\<lambda>c. word_of_nat (of_char c)) s"

section \<open>Rounding\<close>

text \<open>
  Python's \<open>round(x)\<close> rounds to the nearest integer, ties to the even one. Double precision
  arithmetic is modelled by exact arithmetic on rationals throughout.
\<close>

definition py_round :: "rat \<Rightarrow> int" where
  "py_round x =
     (let r = floor x; d = x - of_int r
      in if d < 1/2 then r else if 1/2 < d then r + 1 else if even r then r else r + 1)"

lemma py_round_near: "\<bar>of_int (py_round x) - x\<bar> \<le> 1/2"
proof -
  have "of_int (floor x) \<le> x" "x < of_int (floor x) + 1"
    by linarith+
  then show ?thesis
    by (auto simp: py_round_def Let_def abs_le_iff)
qed

lemma py_round_of_int [simp]: "py_round (of_int n) = n"
  by (simp add: py_round_def)

lemma py_round_mono:
  assumes "x \<le> y"
  shows "py_round x \<le> py_round y"
proof -
  have f: "floor x \<le> floor y" using assms by (rule floor_mono)
  have x1: "of_int (floor x) \<le> x" "x < of_int (floor x) + 1" by linarith+
  have y1: "of_int (floor y) \<le> y" "y < of_int (floor y) + 1" by linarith+
  show ?thesis
  proof (cases "floor x = floor y")
    case True
    then show ?thesis using assms by (auto simp: py_round_def Let_def)
  next
    case False
    with f have "floor x + 1 \<le> floor y" by linarith
    then show ?thesis by (auto simp: py_round_def Let_def)
  qed
qed

section \<open>SQL aggregates\<close>

text \<open>\<open>max(x)\<close> and \<open>min(x)\<close> over a group: NULL over no row.\<close>

definition sql_max :: "'a::linorder list \<Rightarrow> 'a option" where
  "sql_max xs = (if xs = [] then None else Some (Max (set xs)))"

definition sql_min :: "'a::linorder list \<Rightarrow> 'a option" where
  "sql_min xs = (if xs = [] then None else Some (Min (set xs)))"

lemma sql_max_None [simp]: "sql_max xs = None \<longleftrightarrow> xs = []"
  by (simp add: sql_max_def)

lemma sql_min_None [simp]: "sql_min xs = None \<longleftrightarrow> xs = []"
  by (simp add: sql_min_def)

lemma sql_max_Some: "sql_max xs = Some m \<longleftrightarrow> m \<in> set xs \<and> (\<forall>x \<in> set xs. x \<le> m)"
  by (cases "xs = []") (auto simp: sql_max_def Max_eq_iff)

lemma sql_min_Some: "sql_min xs = Some m \<longleftrightarrow> m \<in> set xs \<and> (\<forall>x \<in> set xs. m \<le> x)"
  by (cases "xs = []") (auto simp: sql_min_def Min_eq_iff)

lemma sql_min_less:
  "(case sql_min xs of None \<Rightarrow> False | Some t \<Rightarrow> t < limit) \<longleftrightarrow> (\<exists>t \<in> set xs. t < limit)"
  by (auto simp: sql_min_def Min_less_iff)

text \<open>\<open>greatest(a, b)\<close> ignores NULL arguments.\<close>

fun greatest :: "'a::linorder option \<Rightarrow> 'a option \<Rightarrow> 'a option" where
  "greatest None y = y"
| "greatest x None = x"
| "greatest (Some a) (Some b) = Some (max a b)"

end
