(* ===== verification/Codec.thy ===== *)
theory Codec
  imports Prelude
begin

text \<open>
  Binary encodings shared by the two wire formats of the collector (Frame Streams and
  protobuf): fixed-width integers as \<open>struct.Struct(">I")\<close> and \<open>int.from_bytes\<close> read them,
  and the contract \<open>field_codec\<close> of a self-delimiting encoding, under which a loop that
  decodes until its input is empty inverts the concatenation of any number of encodings.
\<close>

section \<open>Fixed-width integers\<close>

text \<open>Big endian, \<open>k\<close> bytes. \<open>struct.pack\<close> refuses a value that does not fit.\<close>

primrec be_bytes :: "nat \<Rightarrow> nat \<Rightarrow> bytes" where
  "be_bytes 0 n = []"
| "be_bytes (Suc k) n = be_bytes k (n div 256) @ [word_of_nat n]"

definition be_value :: "bytes \<Rightarrow> nat" where
  "be_value bs = foldl (\<lambda>a b. a * 256 + unat b) 0 bs"

text \<open>\<open>int.from_bytes(bs, "little")\<close>.\<close>

fun le_value :: "bytes \<Rightarrow> nat" where
  "le_value [] = 0"
| "le_value (b # bs) = unat b + 256 * le_value bs"

definition u32_pack :: "nat \<Rightarrow> bytes option" where
  "u32_pack n = (if n < 2 ^ 32 then Some (be_bytes 4 n) else None)"

definition u32_at :: "bytes \<Rightarrow> nat \<Rightarrow> nat" where
  "u32_at buf pos = be_value (slice pos (pos + 4) buf)"

lemma length_be_bytes [simp]: "length (be_bytes k n) = k"
  by (induction k arbitrary: n) auto

lemma be_bytes_4_0: "be_bytes 4 0 = [0, 0, 0, 0]"
  by code_simp

lemma be_value_Nil [simp]: "be_value [] = 0"
  by (simp add: be_value_def)

lemma be_value_snoc [simp]: "be_value (bs @ [b]) = be_value bs * 256 + unat b"
  by (simp add: be_value_def)

lemma be_value_be_bytes_mod: "be_value (be_bytes k n) = n mod 256 ^ k"
proof (induction k arbitrary: n)
  case 0
  then show ?case by simp
next
  case (Suc k)
  have "be_value (be_bytes (Suc k) n) = (n div 256) mod 256 ^ k * 256 + n mod 256"
    by (simp add: Suc unat_of_nat)
  also have "\<dots> = n mod (256 * 256 ^ k)"
    by (simp only: mod_mult2_eq mult.commute)
  finally show ?case by simp
qed

lemma be_value_be_bytes [codec_simps]: "n < 256 ^ k \<Longrightarrow> be_value (be_bytes k n) = n"
  by (simp add: be_value_be_bytes_mod)

lemma be_value_bound: "be_value bs < 256 ^ length bs"
proof (induction bs rule: rev_induct)
  case Nil
  then show ?case by simp
next
  case (snoc b bs)
  have "unat b < 256" using unsigned_less [of b] by simp
  with snoc show ?case by simp
qed

lemma be_bytes_be_value: "be_bytes (length bs) (be_value bs) = bs"
proof (induction bs rule: rev_induct)
  case Nil
  then show ?case by simp
next
  case (snoc b bs)
  have "unat b < 256" using unsigned_less [of b] by simp
  then have "(be_value bs * 256 + unat b) div 256 = be_value bs" by simp
  moreover have "(word_of_nat (be_value bs * 256 + unat b) :: 8 word) = b"
  proof -
    have z: "(256 :: 8 word) = 0" by transfer simp
    have "(word_of_nat (be_value bs * 256 + unat b) :: 8 word) = word_of_nat (be_value bs) * 256 + b"
      by simp
    then show ?thesis by (simp only: z mult_zero_right add_0)
  qed
  ultimately show ?case using snoc by simp
qed

lemma u32_pack_Some: "u32_pack n = Some bs \<longleftrightarrow> n < 2 ^ 32 \<and> bs = be_bytes 4 n"
  by (auto simp: u32_pack_def)

lemma u32_at_prefix [codec_simps]:
  "n < 2 ^ 32 \<Longrightarrow> u32_at (be_bytes 4 n @ rest) 0 = n"
  by (simp add: u32_at_def slice_def be_value_be_bytes)

lemma u32_at_drop: "u32_at buf (i + j) = u32_at (drop i buf) j"
  by (simp add: u32_at_def slice_def add.commute)

section \<open>Self-delimiting encodings\<close>

text \<open>
  \<open>dec\<close> reads one item from the front of its input; \<open>loop\<close> is a decoder that reads items
  until its input is empty. \<open>ok\<close> says which items the encoding can carry.
\<close>

locale field_codec =
  fixes enc :: "'a \<Rightarrow> 'b list"
    and dec :: "'b list \<Rightarrow> 'e + ('a \<times> 'b list)"
    and loop :: "'b list \<Rightarrow> 'e + 'a list"
    and ok :: "'a \<Rightarrow> bool"
  assumes dec_enc: "ok x \<Longrightarrow> dec (enc x @ rest) = Inr (x, rest)"
    and enc_nonempty: "ok x \<Longrightarrow> enc x \<noteq> []"
    and loop_Nil: "loop [] = Inr []"
    and loop_step: "s \<noteq> [] \<Longrightarrow> loop s =
      (case dec s of Inl e \<Rightarrow> Inl e
       | Inr (x, rest) \<Rightarrow> (case loop rest of Inl e \<Rightarrow> Inl e | Inr xs \<Rightarrow> Inr (x # xs)))"
begin

lemma loop_append:
  assumes "\<forall>x \<in> set xs. ok x"
  shows "loop (concat (map enc xs) @ s) =
           (case loop s of Inl e \<Rightarrow> Inl e | Inr ys \<Rightarrow> Inr (xs @ ys))"
  using assms
proof (induction xs)
  case Nil
  then show ?case by (simp split: sum.split)
next
  case (Cons x xs)
  then have "dec (enc x @ (concat (map enc xs) @ s)) = Inr (x, concat (map enc xs) @ s)"
    and "enc x @ (concat (map enc xs) @ s) \<noteq> []"
    by (simp_all add: dec_enc enc_nonempty)
  then have "loop (enc x @ (concat (map enc xs) @ s)) =
      (case loop (concat (map enc xs) @ s) of Inl e \<Rightarrow> Inl e | Inr ys \<Rightarrow> Inr (x # ys))"
    using loop_step [of "enc x @ (concat (map enc xs) @ s)"] by simp
  also have "\<dots> = (case loop s of Inl e \<Rightarrow> Inl e | Inr ys \<Rightarrow> Inr ((x # xs) @ ys))"
    using Cons by (auto split: sum.split)
  finally show ?case by simp
qed

lemma loop_concat: "\<forall>x \<in> set xs. ok x \<Longrightarrow> loop (concat (map enc xs)) = Inr xs"
  using loop_append [of xs "[]"] by (simp add: loop_Nil)

lemma enc_unique:
  assumes "\<forall>x \<in> set xs. ok x" and "\<forall>y \<in> set ys. ok y"
    and "concat (map enc xs) = concat (map enc ys)"
  shows "xs = ys"
  by (metis assms loop_concat sum.inject(2))

end

end
