(* ===== verification/Framestreams.thy ===== *)
theory Framestreams
  imports Codec
begin

text \<open>
  The Frame Streams reader of the collector (\<open>collector/framestreams.py\<close>): control frames,
  the frame reader and the session loop, as functions of the bytes the writer sends until it
  disconnects. A read past the end of those bytes is \<open>asyncio.IncompleteReadError\<close>.

  The control-field loop is translated with its position counter and proved equal to a
  decoder of the remaining input, for which the contract \<open>field_codec\<close> gives the round trip.
  The session loop is proved equal to a protocol machine run over the parsed frames
  (\<open>parse_frames\<close>, \<open>run_protocol\<close>), on which the ordering properties are inductions.
\<close>

section \<open>Control frames\<close>

definition CONTROL_ACCEPT :: nat where "CONTROL_ACCEPT = 1"
definition CONTROL_START :: nat where "CONTROL_START = 2"
definition CONTROL_STOP :: nat where "CONTROL_STOP = 3"
definition CONTROL_READY :: nat where "CONTROL_READY = 4"
definition CONTROL_FINISH :: nat where "CONTROL_FINISH = 5"
definition FIELD_CONTENT_TYPE :: nat where "FIELD_CONTENT_TYPE = 1"
definition CONTROL_FRAME_MAX :: nat where "CONTROL_FRAME_MAX = 512"
definition DATA_FRAME_MAX :: nat where "DATA_FRAME_MAX = 2 ^ 20"

definition DNSTAP_CONTENT_TYPE :: bytes where
  "DNSTAP_CONTENT_TYPE = bytes_of ''protobuf:dnstap.Dnstap''"

lemmas control_defs = CONTROL_ACCEPT_def CONTROL_START_def CONTROL_STOP_def CONTROL_READY_def
  CONTROL_FINISH_def FIELD_CONTENT_TYPE_def

text \<open>The raises of \<open>FrameStreamsError\<close>, one constructor per place.\<close>

datatype FrameStreamsError =
    ControlTooShort
  | TruncatedField
  | TruncatedValue
  | DataExceedsLimit nat
  | ControlExceedsLimit nat
  | DataBeforeStart
  | ContentTypeNotOffered
  | UnexpectedContentType bytes
  | UnexpectedControl nat

text \<open>\<open>None\<close> is \<open>struct.error\<close>: a value that does not fit 32 bits.\<close>

definition encode_content_type :: "bytes \<Rightarrow> bytes option" where
  "encode_content_type ct =
     Option.bind (u32_pack FIELD_CONTENT_TYPE) (\<lambda>f.
     Option.bind (u32_pack (length ct)) (\<lambda>n. Some (f @ n @ ct)))"

definition encode_control :: "nat \<Rightarrow> bytes list \<Rightarrow> bytes option" where
  "encode_control control_type content_types =
     Option.bind (u32_pack control_type) (\<lambda>t.
     Option.bind (those (map encode_content_type content_types)) (\<lambda>fields.
       let payload = t @ concat fields
       in Option.bind (u32_pack 0) (\<lambda>z.
          Option.bind (u32_pack (length payload)) (\<lambda>n. Some (z @ n @ payload)))))"

text \<open>The \<open>while pos < len(payload)\<close> loop.\<close>

function decode_fields :: "bytes \<Rightarrow> nat \<Rightarrow> bytes list \<Rightarrow> FrameStreamsError + bytes list" where
  "decode_fields payload pos content_types =
     (if pos < length payload then
        if pos + 8 > length payload then Inl TruncatedField
        else
          let field_type = u32_at payload pos; len = u32_at payload (pos + 4); pos' = pos + 8
          in if pos' + len > length payload then Inl TruncatedValue
             else decode_fields payload (pos' + len)
               (if field_type = FIELD_CONTENT_TYPE
                then content_types @ [slice pos' (pos' + len) payload] else content_types)
      else Inr content_types)"
  by pat_completeness auto
termination
  by (relation "measure (\<lambda>(payload, pos, cts). length payload - pos)") auto

declare decode_fields.simps [simp del]

definition decode_control :: "bytes \<Rightarrow> FrameStreamsError + (nat \<times> bytes list)" where
  "decode_control payload =
     (if length payload < 4 then Inl ControlTooShort
      else case decode_fields payload 4 [] of
             Inl e \<Rightarrow> Inl e
           | Inr content_types \<Rightarrow> Inr (u32_at payload 0, content_types))"

subsection \<open>The field loop as a decoder of the remaining input\<close>

definition enc_field :: "nat \<times> bytes \<Rightarrow> bytes" where
  "enc_field f = be_bytes 4 (fst f) @ be_bytes 4 (length (snd f)) @ snd f"

definition dec_field :: "bytes \<Rightarrow> FrameStreamsError + ((nat \<times> bytes) \<times> bytes)" where
  "dec_field s =
     (if length s < 8 then Inl TruncatedField
      else let n = u32_at s 4
           in if length s < 8 + n then Inl TruncatedValue
              else Inr ((u32_at s 0, slice 8 (8 + n) s), drop (8 + n) s))"

definition field_ok :: "nat \<times> bytes \<Rightarrow> bool" where
  "field_ok f \<longleftrightarrow> fst f < 2 ^ 32 \<and> length (snd f) < 2 ^ 32"

lemma dec_field_shorter: "dec_field s = Inr (f, rest) \<Longrightarrow> length rest < length s"
  by (auto simp: dec_field_def Let_def split: if_splits)

function control_fields :: "bytes \<Rightarrow> FrameStreamsError + (nat \<times> bytes) list" where
  "control_fields s =
     (if s = [] then Inr []
      else case dec_field s of
             Inl e \<Rightarrow> Inl e
           | Inr (f, rest) \<Rightarrow>
               (case control_fields rest of Inl e \<Rightarrow> Inl e | Inr fs \<Rightarrow> Inr (f # fs)))"
  by pat_completeness auto
termination
  by (relation "measure length") (auto dest: dec_field_shorter)

declare control_fields.simps [simp del]

lemma dec_field_enc: "field_ok f \<Longrightarrow> dec_field (enc_field f @ rest) = Inr (f, rest)"
proof -
  assume ok: "field_ok f"
  let ?s = "enc_field f @ rest"
  have "u32_at ?s 0 = fst f"
    using ok by (simp add: enc_field_def field_ok_def codec_simps)
  moreover have "u32_at ?s 4 = length (snd f)"
    using ok u32_at_drop [of ?s 4 0] by (simp add: enc_field_def field_ok_def codec_simps)
  ultimately show ?thesis
    by (simp add: dec_field_def Let_def enc_field_def slice_def)
qed

interpretation control_codec: field_codec enc_field dec_field control_fields field_ok
proof
  show "dec_field (enc_field x @ rest) = Inr (x, rest)" if "field_ok x" for x rest
    using that by (rule dec_field_enc)
  show "enc_field x \<noteq> []" for x
    by (simp add: enc_field_def flip: length_0_conv)
  show "control_fields [] = Inr []"
    by (simp add: control_fields.simps)
  show "control_fields s = (case dec_field s of Inl e \<Rightarrow> Inl e
       | Inr (x, rest) \<Rightarrow> (case control_fields rest of Inl e \<Rightarrow> Inl e | Inr xs \<Rightarrow> Inr (x # xs)))"
    if "s \<noteq> []" for s
    using that by (simp add: control_fields.simps [of s])
qed

definition content_types_of :: "(nat \<times> bytes) list \<Rightarrow> bytes list" where
  "content_types_of fs = map snd (filter (\<lambda>f. fst f = FIELD_CONTENT_TYPE) fs)"

lemma dec_field_drop:
  assumes "pos < length payload"
  shows "dec_field (drop pos payload) =
     (if pos + 8 > length payload then Inl TruncatedField
      else let n = u32_at payload (pos + 4)
           in if pos + 8 + n > length payload then Inl TruncatedValue
              else Inr ((u32_at payload pos, slice (pos + 8) (pos + 8 + n) payload),
                        drop (pos + 8 + n) payload))"
  using assms u32_at_drop [of payload pos 0] u32_at_drop [of payload pos 4]
  by (auto simp: dec_field_def Let_def slice_def ac_simps)

lemma decode_fields_eq:
  "pos \<le> length payload \<Longrightarrow>
   decode_fields payload pos cts =
     (case control_fields (drop pos payload) of
        Inl e \<Rightarrow> Inl e | Inr fs \<Rightarrow> Inr (cts @ content_types_of fs))"
proof (induction payload pos cts rule: decode_fields.induct)
  case (1 payload pos cts)
  show ?case
  proof (cases "pos < length payload")
    case False
    with "1.prems" show ?thesis
      by (simp add: decode_fields.simps [of payload] control_fields.simps content_types_of_def)
  next
    case True
    then have ne: "drop pos payload \<noteq> []" by simp
    show ?thesis
      unfolding decode_fields.simps [of payload pos] control_fields.simps [of "drop pos payload"]
      using True ne "1.IH"
      by (auto simp: dec_field_drop Let_def content_types_of_def split: sum.split)
  qed
qed


subsection \<open>What \<open>encode_control\<close> produces\<close>

definition control_payload :: "nat \<Rightarrow> bytes list \<Rightarrow> bytes" where
  "control_payload t cts = be_bytes 4 t @ concat (map (\<lambda>ct. enc_field (FIELD_CONTENT_TYPE, ct)) cts)"

lemma length_enc_field [simp]: "length (enc_field f) = 8 + length (snd f)"
  by (simp add: enc_field_def)

lemma length_control_payload:
  "length (control_payload t cts) = 4 + (\<Sum>ct\<leftarrow>cts. 8 + length ct)"
  by (simp add: control_payload_def length_concat comp_def)

lemma length_content_type_le:
  "ct \<in> set cts \<Longrightarrow> length ct \<le> length (control_payload t cts)"
  by (induction cts) (auto simp: length_control_payload)

lemma encode_content_type_eq:
  "encode_content_type ct =
     (if length ct < 2 ^ 32 then Some (enc_field (FIELD_CONTENT_TYPE, ct)) else None)"
  by (simp add: encode_content_type_def enc_field_def u32_pack_def FIELD_CONTENT_TYPE_def)

lemma those_encode_eq:
  "those (map encode_content_type cts) =
     (if \<forall>ct \<in> set cts. length ct < 2 ^ 32
      then Some (map (\<lambda>ct. enc_field (FIELD_CONTENT_TYPE, ct)) cts) else None)"
  by (induction cts) (auto simp: encode_content_type_eq)

lemma encode_control_eq:
  "encode_control t cts =
     (if t < 2 ^ 32 \<and> length (control_payload t cts) < 2 ^ 32
      then Some (be_bytes 4 0 @ be_bytes 4 (length (control_payload t cts)) @ control_payload t cts)
      else None)"
proof (cases "\<forall>ct \<in> set cts. length ct < 2 ^ 32")
  case True
  then show ?thesis
    by (simp add: encode_control_def Let_def those_encode_eq u32_pack_def control_payload_def)
next
  case False
  then have "\<not> length (control_payload t cts) < 2 ^ 32"
    using length_content_type_le [of _ cts t] by (meson le_less_trans)
  then show ?thesis using False
    by (auto simp: encode_control_def those_encode_eq u32_pack_def)
qed

lemma encode_control_SomeD:
  assumes "encode_control t cts = Some bs"
  shows "t < 2 ^ 32" and "\<forall>ct \<in> set cts. length ct < 2 ^ 32"
    and "length (control_payload t cts) < 2 ^ 32"
    and "bs = be_bytes 4 0 @ be_bytes 4 (length (control_payload t cts)) @ control_payload t cts"
  using assms length_content_type_le [of _ cts t]
  by (auto simp: encode_control_eq split: if_splits intro: le_less_trans)

lemma length_DNSTAP_CONTENT_TYPE [simp]: "length DNSTAP_CONTENT_TYPE = 22"
  by (simp add: DNSTAP_CONTENT_TYPE_def bytes_of_def)

lemma decode_control_payload:
  assumes "t < 2 ^ 32" and "\<forall>ct \<in> set cts. length ct < 2 ^ 32"
  shows "decode_control (control_payload t cts) = Inr (t, cts)"
proof -
  let ?fs = "map (\<lambda>ct. (FIELD_CONTENT_TYPE, ct)) cts"
  have "\<forall>f \<in> set ?fs. field_ok f"
    using assms(2) by (auto simp: field_ok_def FIELD_CONTENT_TYPE_def)
  then have "control_fields (concat (map enc_field ?fs)) = Inr ?fs"
    by (rule control_codec.loop_concat)
  moreover have "drop 4 (control_payload t cts) = concat (map enc_field ?fs)"
    by (simp add: control_payload_def comp_def)
  ultimately have "decode_fields (control_payload t cts) 4 [] = Inr (content_types_of ?fs)"
    by (subst decode_fields_eq) (simp_all add: control_payload_def)
  moreover have "content_types_of ?fs = cts"
    by (simp add: content_types_of_def comp_def filter_map)
  ultimately show ?thesis
    using assms(1) by (simp add: decode_control_def control_payload_def codec_simps)
qed




section \<open>Reading frames\<close>

text \<open>
  A frame is a pair of a control type and the joined content types, or \<open>None\<close> and data:
  \<open>Control\<close> and \<open>Data\<close>. A read ends in a frame, in \<open>IncompleteReadError\<close> or in a
  \<open>FrameStreamsError\<close>.
\<close>

datatype frame = Data bytes | Control nat bytes

datatype read_error = IncompleteReadError | Violation FrameStreamsError

abbreviation newline :: "8 word" where
  "newline \<equiv> 10"

definition readexactly :: "nat \<Rightarrow> bytes \<Rightarrow> read_error + (bytes \<times> bytes)" where
  "readexactly n s =
     (if length s < n then Inl IncompleteReadError else Inr (take n s, drop n s))"

definition read_frame :: "bytes \<Rightarrow> read_error + (frame \<times> bytes)" where
  "read_frame s =
     (case readexactly 4 s of Inl e \<Rightarrow> Inl e | Inr (head, s1) \<Rightarrow>
        let len = be_value head in
        if len > 0 then
          (if len > DATA_FRAME_MAX then Inl (Violation (DataExceedsLimit len))
           else case readexactly len s1 of Inl e \<Rightarrow> Inl e | Inr (data, s2) \<Rightarrow> Inr (Data data, s2))
        else
          (case readexactly 4 s1 of Inl e \<Rightarrow> Inl e | Inr (head2, s2) \<Rightarrow>
             let len2 = be_value head2 in
             if len2 > CONTROL_FRAME_MAX then Inl (Violation (ControlExceedsLimit len2))
             else case readexactly len2 s2 of Inl e \<Rightarrow> Inl e | Inr (payload, s3) \<Rightarrow>
               (case decode_control payload of
                  Inl e \<Rightarrow> Inl (Violation e)
                | Inr (control_type, content_types) \<Rightarrow>
                    Inr (Control control_type (join [newline] content_types), s3))))"

lemma readexactly_shorter: "readexactly n s = Inr (h, rest) \<Longrightarrow> length rest = length s - n \<and> n \<le> length s"
  by (auto simp: readexactly_def split: if_splits)

lemma read_frame_shorter: "read_frame s = Inr (f, rest) \<Longrightarrow> length rest < length s"
  by (auto simp: read_frame_def Let_def split: sum.splits if_splits prod.splits
      dest!: readexactly_shorter)

section \<open>The session loop\<close>

text \<open>
  What the loop carries: the frame count, whether START was seen, the state behind
  \<open>on_frame\<close>, and what was written to the peer. It ends by returning the count, by a
  \<open>FrameStreamsError\<close>, by an exception of \<open>on_frame\<close>, or by \<open>struct.error\<close> from encoding
  a reply.
\<close>

record 's session =
  frames :: nat
  started :: bool
  sink :: 's
  written :: bytes

datatype 'e outcome = Returned nat | Raised FrameStreamsError | OnFrameRaised 'e | StructError

text \<open>The test of START: \<open>data and data != content_type\<close>.\<close>

definition wrong_content_type :: "bytes \<Rightarrow> bytes \<Rightarrow> bool" where
  "wrong_content_type content_type data \<longleftrightarrow> data \<noteq> [] \<and> data \<noteq> content_type"

function serve_loop ::
  "bytes \<Rightarrow> (bytes \<Rightarrow> 's \<Rightarrow> 'e + 's) \<Rightarrow> bytes \<Rightarrow> 's session \<Rightarrow> 'e outcome \<times> 's session" where
  "serve_loop content_type on_frame reader st =
     (case read_frame reader of
        Inl IncompleteReadError \<Rightarrow> (Returned (frames st), st)
      | Inl (Violation e) \<Rightarrow> (Raised e, st)
      | Inr (Data data, rest) \<Rightarrow>
          if \<not> started st then (Raised DataBeforeStart, st)
          else (case on_frame data (sink st) of
                  Inl e \<Rightarrow> (OnFrameRaised e, st)
                | Inr s \<Rightarrow> serve_loop content_type on_frame rest
                             (st\<lparr>sink := s, frames := frames st + 1\<rparr>))
      | Inr (Control control data, rest) \<Rightarrow>
          if control = CONTROL_READY then
            (if content_type \<notin> set (split_on newline data) then (Raised ContentTypeNotOffered, st)
             else case encode_control CONTROL_ACCEPT [content_type] of
                    None \<Rightarrow> (StructError, st)
                  | Some reply \<Rightarrow> serve_loop content_type on_frame rest
                                    (st\<lparr>written := written st @ reply\<rparr>))
          else if control = CONTROL_START then
            (if wrong_content_type content_type data then (Raised (UnexpectedContentType data), st)
             else serve_loop content_type on_frame rest (st\<lparr>started := True\<rparr>))
          else if control = CONTROL_STOP then
            (case encode_control CONTROL_FINISH [] of
               None \<Rightarrow> (StructError, st)
             | Some reply \<Rightarrow> (Returned (frames st), st\<lparr>written := written st @ reply\<rparr>))
          else (Raised (UnexpectedControl control), st))"
  by pat_completeness auto
termination
  by (relation "measure (\<lambda>(ct, f, reader, st). length reader)") (auto dest: read_frame_shorter)

declare serve_loop.simps [simp del]

definition serve_connection ::
  "bytes \<Rightarrow> (bytes \<Rightarrow> 's \<Rightarrow> 'e + 's) \<Rightarrow> bytes \<Rightarrow> 's \<Rightarrow> 'e outcome \<times> 's session" where
  "serve_connection content_type on_frame reader s =
     serve_loop content_type on_frame reader
       \<lparr>frames = 0, started = False, sink = s, written = []\<rparr>"

subsection \<open>The protocol machine over parsed frames\<close>

function parse_frames :: "bytes \<Rightarrow> frame list \<times> read_error" where
  "parse_frames s =
     (case read_frame s of
        Inl e \<Rightarrow> ([], e)
      | Inr (f, rest) \<Rightarrow> (case parse_frames rest of (fs, e) \<Rightarrow> (f # fs, e)))"
  by pat_completeness auto
termination
  by (relation "measure length") (auto dest: read_frame_shorter)

declare parse_frames.simps [simp del]

fun run_protocol ::
  "bytes \<Rightarrow> (bytes \<Rightarrow> 's \<Rightarrow> 'e + 's) \<Rightarrow> frame list \<Rightarrow> read_error \<Rightarrow> 's session
    \<Rightarrow> 'e outcome \<times> 's session" where
  "run_protocol ct on_frame [] IncompleteReadError st = (Returned (frames st), st)"
| "run_protocol ct on_frame [] (Violation e) st = (Raised e, st)"
| "run_protocol ct on_frame (Data d # fs) e st =
     (if \<not> started st then (Raised DataBeforeStart, st)
      else (case on_frame d (sink st) of
              Inl x \<Rightarrow> (OnFrameRaised x, st)
            | Inr s \<Rightarrow> run_protocol ct on_frame fs e (st\<lparr>sink := s, frames := frames st + 1\<rparr>)))"
| "run_protocol ct on_frame (Control c d # fs) e st =
     (if c = CONTROL_READY then
        (if ct \<notin> set (split_on newline d) then (Raised ContentTypeNotOffered, st)
         else case encode_control CONTROL_ACCEPT [ct] of
                None \<Rightarrow> (StructError, st)
              | Some reply \<Rightarrow> run_protocol ct on_frame fs e (st\<lparr>written := written st @ reply\<rparr>))
      else if c = CONTROL_START then
        (if wrong_content_type ct d then (Raised (UnexpectedContentType d), st)
         else run_protocol ct on_frame fs e (st\<lparr>started := True\<rparr>))
      else if c = CONTROL_STOP then
        (case encode_control CONTROL_FINISH [] of
           None \<Rightarrow> (StructError, st)
         | Some reply \<Rightarrow> (Returned (frames st), st\<lparr>written := written st @ reply\<rparr>))
      else (Raised (UnexpectedControl c), st))"

lemma serve_loop_run_protocol:
  "serve_loop ct on_frame reader st =
     run_protocol ct on_frame (fst (parse_frames reader)) (snd (parse_frames reader)) st"
proof (induction reader arbitrary: st rule: measure_induct_rule [where f = length])
  case (less reader)
  show ?case
  proof (cases "read_frame reader")
    case (Inl e)
    then show ?thesis
      by (cases e) (simp_all add: serve_loop.simps [of ct] parse_frames.simps [of reader])
  next
    case (Inr p)
    obtain f rest where p: "p = (f, rest)" by (cases p)
    have IH: "serve_loop ct on_frame rest st' =
        run_protocol ct on_frame (fst (parse_frames rest)) (snd (parse_frames rest)) st'" for st'
      using Inr p by (intro less read_frame_shorter) auto
    have parse: "parse_frames reader = (f # fst (parse_frames rest), snd (parse_frames rest))"
      using Inr p by (simp add: parse_frames.simps [of reader] split: prod.split)
    show ?thesis
      using Inr p parse
      by (cases f) (simp_all add: serve_loop.simps [of ct on_frame reader] IH split: sum.split option.split)
  qed
qed


subsection \<open>Parsing what a writer sends\<close>

definition data_frame :: "bytes \<Rightarrow> bytes" where
  "data_frame payload = be_bytes 4 (length payload) @ payload"

definition sendable :: "bytes \<Rightarrow> bool" where
  "sendable payload \<longleftrightarrow> 0 < length payload \<and> length payload \<le> DATA_FRAME_MAX"

lemma read_frame_data: "sendable p \<Longrightarrow> read_frame (data_frame p @ rest) = Inr (Data p, rest)"
  by (simp add: sendable_def data_frame_def read_frame_def readexactly_def DATA_FRAME_MAX_def
      be_value_be_bytes)

lemma read_frame_control:
  assumes "encode_control t cts = Some bs" and "length bs \<le> 8 + CONTROL_FRAME_MAX"
  shows "read_frame (bs @ rest) = Inr (Control t (join [newline] cts), rest)"
proof -
  let ?p = "control_payload t cts"
  note ok = encode_control_SomeD(1,2) [OF assms(1)] and bs = encode_control_SomeD(4) [OF assms(1)]
  have n: "length ?p \<le> CONTROL_FRAME_MAX" using assms(2) by (simp add: bs)
  then have "be_value (be_bytes 4 (length ?p)) = length ?p"
    by (intro be_value_be_bytes) (simp add: CONTROL_FRAME_MAX_def)
  moreover have "decode_control ?p = Inr (t, cts)"
    using ok by (rule decode_control_payload)
  ultimately show ?thesis
    using n by (simp add: bs read_frame_def readexactly_def be_value_be_bytes)
qed

lemma parse_frames_step:
  "read_frame s = Inr (f, rest) \<Longrightarrow>
   parse_frames s = (f # fst (parse_frames rest), snd (parse_frames rest))"
  by (simp add: parse_frames.simps [of s] split: prod.split)

lemma parse_frames_data:
  "\<forall>p \<in> set ps. sendable p \<Longrightarrow>
   parse_frames (concat (map data_frame ps) @ s) =
     (map Data ps @ fst (parse_frames s), snd (parse_frames s))"
proof (induction ps)
  case (Cons p ps)
  then have "read_frame (data_frame p @ concat (map data_frame ps) @ s) =
      Inr (Data p, concat (map data_frame ps) @ s)"
    by (intro read_frame_data) simp
  then show ?case using Cons by (simp add: parse_frames_step)
qed simp

text \<open>A run over data frames feeds them to the callback in order and counts them.\<close>

lemma run_protocol_data:
  "started st \<Longrightarrow>
   run_protocol ct (\<lambda>d s. Inr (g d s)) (map Data ps @ fs) e st =
     run_protocol ct (\<lambda>d s. Inr (g d s)) fs e
       (st\<lparr>sink := fold g ps (sink st), frames := frames st + length ps\<rparr>)"
  by (induction ps arbitrary: st) (simp_all add: ac_simps)

lemma DNSTAP_no_newline: "newline \<notin> set DNSTAP_CONTENT_TYPE"
  by (simp add: DNSTAP_CONTENT_TYPE_def bytes_of_def)

lemma offered:
  assumes "ct \<in> set offers" and "newline \<notin> set ct"
  shows "ct \<in> set (split_on newline (join [newline] offers))"
  using assms by (subst set_split_on_join) (auto simp: split_on_id intro: bexI [of _ ct])

text \<open>
  C12: A whole bi-directional session. When the writer sends READY with an offer that
  includes the dnstap content type, START with that content type, any number of data frames
  of legal size and STOP, the reader passes every payload to \<open>on_frame\<close> exactly once and in
  order, returns their number, and replies with exactly ACCEPT of that content type followed
  by FINISH, whatever comes after the STOP.
\<close>

theorem bidirectional_session:
  assumes "encode_control CONTROL_READY offers = Some ready"
    and "length ready \<le> 8 + CONTROL_FRAME_MAX" and "DNSTAP_CONTENT_TYPE \<in> set offers"
    and "encode_control CONTROL_START [DNSTAP_CONTENT_TYPE] = Some start"
    and "encode_control CONTROL_STOP [] = Some stop"
    and "\<forall>p \<in> set payloads. sendable p"
  shows "\<exists>accept finish.
    encode_control CONTROL_ACCEPT [DNSTAP_CONTENT_TYPE] = Some accept \<and>
    encode_control CONTROL_FINISH [] = Some finish \<and>
    serve_connection DNSTAP_CONTENT_TYPE (\<lambda>d s. Inr (g d s) :: 'e + 's)
      (ready @ start @ concat (map data_frame payloads) @ stop @ rest) s =
    (Returned (length payloads),
     \<lparr>frames = length payloads, started = True, sink = fold g payloads s,
      written = accept @ finish\<rparr>)"
proof -
  let ?ct = DNSTAP_CONTENT_TYPE
  have short: "length start \<le> 8 + CONTROL_FRAME_MAX" "length stop \<le> 8 + CONTROL_FRAME_MAX"
    using assms(4,5)
    by (auto simp: encode_control_eq length_control_payload CONTROL_FRAME_MAX_def split: if_splits)
  obtain accept where accept: "encode_control CONTROL_ACCEPT [?ct] = Some accept"
    by (simp add: encode_control_eq length_control_payload control_defs)
  obtain finish where finish: "encode_control CONTROL_FINISH [] = Some finish"
    by (simp add: encode_control_eq length_control_payload control_defs)
  let ?data = "concat (map data_frame payloads)"
  have "fst (parse_frames (ready @ start @ ?data @ stop @ rest)) =
      Control CONTROL_READY (join [newline] offers) # Control CONTROL_START ?ct #
      map Data payloads @ Control CONTROL_STOP [] # fst (parse_frames rest)"
    using read_frame_control [OF assms(1,2)] read_frame_control [OF assms(4) short(1)]
      read_frame_control [OF assms(5) short(2)] parse_frames_data [OF assms(6)]
    by (simp add: parse_frames_step)
  moreover have "?ct \<in> set (split_on newline (join [newline] offers))"
    using assms(3) DNSTAP_no_newline by (rule offered)
  ultimately show ?thesis
    using accept finish
    by (simp add: serve_connection_def serve_loop_run_protocol run_protocol_data
        wrong_content_type_def) (simp add: control_defs)
qed

theorem bidirectional_session_witness:
  "fst (serve_connection DNSTAP_CONTENT_TYPE (\<lambda>d s. Inr (s @ [d]) :: unit + bytes list)
      (the (encode_control CONTROL_READY [[1], DNSTAP_CONTENT_TYPE]) @
       the (encode_control CONTROL_START [DNSTAP_CONTENT_TYPE]) @
       data_frame [7] @ data_frame [8, 9] @ the (encode_control CONTROL_STOP [])) []) = Returned 2"
proof -
  have r: "encode_control CONTROL_READY [[1], DNSTAP_CONTENT_TYPE] =
      Some (the (encode_control CONTROL_READY [[1], DNSTAP_CONTENT_TYPE]))"
    and len: "length (the (encode_control CONTROL_READY [[1], DNSTAP_CONTENT_TYPE])) \<le> 8 + CONTROL_FRAME_MAX"
    and s: "encode_control CONTROL_START [DNSTAP_CONTENT_TYPE] =
      Some (the (encode_control CONTROL_START [DNSTAP_CONTENT_TYPE]))"
    and e: "encode_control CONTROL_STOP [] = Some (the (encode_control CONTROL_STOP []))"
    by (simp_all add: encode_control_eq length_control_payload control_defs CONTROL_FRAME_MAX_def)
  have "\<forall>p \<in> set [[7], [8, 9]]. sendable p"
    by (simp add: sendable_def DATA_FRAME_MAX_def)
  from bidirectional_session [OF r len _ s e this, where 'e = unit,
      of "\<lambda>d s. s @ [d]" "[]" "[]"]
  show ?thesis by auto
qed


section \<open>Ordering and replies, for every stream\<close>

text \<open>The payloads of the data frames of a parsed stream.\<close>

fun data_of :: "frame list \<Rightarrow> bytes list" where
  "data_of [] = []"
| "data_of (Data d # fs) = d # data_of fs"
| "data_of (Control c d # fs) = data_of fs"

text \<open>The callback that records what it is given.\<close>

abbreviation collect :: "bytes \<Rightarrow> bytes list \<Rightarrow> 'e + bytes list" where
  "collect \<equiv> (\<lambda>d ds. Inr (ds @ [d]))"

text \<open>The payloads a session delivers, from the parsed frames alone.\<close>

fun delivered :: "bytes \<Rightarrow> bool \<Rightarrow> frame list \<Rightarrow> bytes list" where
  "delivered ct b [] = []"
| "delivered ct b (Data d # fs) = (if b then d # delivered ct b fs else [])"
| "delivered ct b (Control c x # fs) =
     (if c = CONTROL_READY then (if ct \<in> set (split_on newline x) then delivered ct b fs else [])
      else if c = CONTROL_START then (if wrong_content_type ct x then [] else delivered ct True fs)
      else [])"

lemma run_protocol_delivered:
  fixes n :: nat
  assumes "encode_control CONTROL_ACCEPT [ct] = Some accept"
  shows "sink (snd (run_protocol ct collect fs e st :: 'e outcome \<times> _)) =
      sink st @ delivered ct (started st) fs"
    and "frames (snd (run_protocol ct collect fs e st :: 'e outcome \<times> _)) =
      frames st + length (delivered ct (started st) fs)"
    and "fst (run_protocol ct collect fs e st :: 'e outcome \<times> _) = Returned n \<Longrightarrow>
      n = frames (snd (run_protocol ct collect fs e st :: 'e outcome \<times> _))"
proof (induction fs arbitrary: st)
  case Nil
  case 1 show ?case by (cases e) auto
  case 2 show ?case by (cases e) auto
  case 3 then show ?case by (cases e) auto
next
  case (Cons f fs)
  case 1 show ?case using assms
    by (cases f) (simp_all add: Cons.IH(1) split: option.split)
  case 2 show ?case using assms
    by (cases f) (simp_all add: Cons.IH(2) split: option.split)
  case 3 then show ?case using assms
    by (cases f) (auto dest: Cons.IH(3) split: if_splits option.splits)
qed

lemma run_protocol_deliveredD:
  fixes r :: "'e outcome"
  assumes "encode_control CONTROL_ACCEPT [ct] = Some accept"
    and "run_protocol ct collect fs e st = (r, st')"
  shows "sink st' = sink st @ delivered ct (started st) fs \<and>
    frames st' = frames st + length (delivered ct (started st) fs) \<and>
    (\<forall>n. r = Returned n \<longrightarrow> n = frames st')"
  using run_protocol_delivered [OF assms(1), where 'e = 'e, of fs e st] unfolding assms(2) by simp

lemma delivered_prefix: "\<exists>rest. data_of fs = delivered ct True fs @ rest"
  by (induction fs rule: data_of.induct) auto

lemma delivered_after_start:
  "delivered ct False fs \<noteq> [] \<Longrightarrow>
   \<exists>pre x post. fs = pre @ Control CONTROL_START x # post \<and> data_of pre = [] \<and>
     (x = [] \<or> x = ct) \<and> delivered ct False fs = delivered ct True post"
proof (induction fs rule: data_of.induct)
  case (3 c x fs)
  show ?case
  proof (cases "c = CONTROL_READY")
    case True
    with 3 obtain pre y post where "fs = pre @ Control CONTROL_START y # post" "data_of pre = []"
      "y = [] \<or> y = ct" "delivered ct False fs = delivered ct True post"
      by (auto split: if_splits)
    with True "3.prems" show ?thesis
      by (intro exI [of _ "Control c x # pre"] exI [of _ y] exI [of _ post]) (auto split: if_splits)
  next
    case False
    with "3.prems" show ?thesis
      by (intro exI [of _ "[]"] exI [of _ x] exI [of _ fs])
         (auto simp: wrong_content_type_def split: if_splits)
  qed
qed simp_all

text \<open>
  C19: Nothing reaches \<open>on_frame\<close> before START. For every stream of bytes, what the reader
  delivers is an initial segment, in order and without gaps, of the data frames that follow
  the first START, no data frame precedes that START, and its content type is absent or the
  expected one; the number it counts, and the number it returns, is the number delivered.
\<close>

theorem delivers_only_after_start:
  assumes "serve_connection DNSTAP_CONTENT_TYPE collect stream [] = (result, st)"
  shows "(sink st \<noteq> [] \<longrightarrow> (\<exists>pre x post rest.
      fst (parse_frames stream) = pre @ Control CONTROL_START x # post \<and> data_of pre = [] \<and>
      (x = [] \<or> x = DNSTAP_CONTENT_TYPE) \<and> data_of post = sink st @ rest)) \<and>
    frames st = length (sink st) \<and> (\<forall>n. result = Returned n \<longrightarrow> n = length (sink st))"
proof (intro conjI impI allI)
  let ?fs = "fst (parse_frames stream)"
  obtain accept where accept: "encode_control CONTROL_ACCEPT [DNSTAP_CONTENT_TYPE] = Some accept"
    by (simp add: encode_control_eq length_control_payload control_defs)
  let ?st0 = "\<lparr>frames = 0, started = False, sink = [], written = []\<rparr> :: bytes list session"
  have run: "run_protocol DNSTAP_CONTENT_TYPE collect ?fs (snd (parse_frames stream)) ?st0 = (result, st)"
    using assms by (simp add: serve_connection_def serve_loop_run_protocol)
  then have all: "sink st = delivered DNSTAP_CONTENT_TYPE False ?fs \<and>
      frames st = length (sink st) \<and> (\<forall>n. result = Returned n \<longrightarrow> n = frames st)"
    using run_protocol_deliveredD [OF accept run] by auto
  then show "frames st = length (sink st)" by blast
  show "n = length (sink st)" if "result = Returned n" for n
    using all that by simp
  assume "sink st \<noteq> []"
  with all delivered_after_start [of DNSTAP_CONTENT_TYPE ?fs]
  show "\<exists>pre x post rest. ?fs = pre @ Control CONTROL_START x # post \<and> data_of pre = [] \<and>
      (x = [] \<or> x = DNSTAP_CONTENT_TYPE) \<and> data_of post = sink st @ rest"
    using delivered_prefix [where ct = DNSTAP_CONTENT_TYPE] by metis
qed


theorem delivers_only_after_start_witness:
  "\<exists>pre x post rest.
     fst (parse_frames (the (encode_control CONTROL_START []) @ data_frame [7])) =
       pre @ Control CONTROL_START x # post \<and> data_of pre = [] \<and>
     (x = [] \<or> x = DNSTAP_CONTENT_TYPE) \<and> data_of post = [[7]] @ rest"
proof -
  let ?s = "the (encode_control CONTROL_START []) @ data_frame [7]"
  have e: "encode_control CONTROL_START [] = Some (the (encode_control CONTROL_START []))"
    and len: "length (the (encode_control CONTROL_START [])) \<le> 8 + CONTROL_FRAME_MAX"
    by (simp_all add: encode_control_eq length_control_payload control_defs CONTROL_FRAME_MAX_def)
  have "parse_frames (data_frame [7]) = ([Data [7]], IncompleteReadError)"
    using parse_frames_data [of "[[7]]" "[]"]
    by (simp add: sendable_def DATA_FRAME_MAX_def parse_frames.simps [of "[]"] read_frame_def readexactly_def)
  then have "parse_frames ?s = ([Control CONTROL_START [], Data [7]], IncompleteReadError)"
    using read_frame_control [OF e len] by (simp add: parse_frames_step)
  then have run: "serve_connection DNSTAP_CONTENT_TYPE collect ?s [] =
      (Returned 1 :: unit outcome, \<lparr>frames = 1, started = True, sink = [[7]], written = []\<rparr>)"
    by (simp add: serve_connection_def serve_loop_run_protocol wrong_content_type_def control_defs)
  show ?thesis
    using delivers_only_after_start [OF run] by simp
qed

lemma run_protocol_replies:
  assumes "encode_control CONTROL_ACCEPT [ct] = Some accept"
    and "encode_control CONTROL_FINISH [] = Some finish"
    and "run_protocol ct on_frame fs e st = (r, st')"
  shows "r \<noteq> StructError \<and>
    (\<exists>n. written st' = written st @ concat (replicate n accept) \<or>
         (\<exists>k. r = Returned k) \<and> written st' = written st @ concat (replicate n accept) @ finish)"
  using assms(3)
proof (induction fs arbitrary: st)
  case Nil
  then show ?case by (cases e) (auto intro: exI [of _ 0])
next
  case (Cons f fs)
  show ?case
  proof (cases "\<exists>st1. run_protocol ct on_frame fs e st1 = (r, st') \<and>
      (written st1 = written st \<or> written st1 = written st @ accept)")
    case True
    then obtain st1 where IH: "run_protocol ct on_frame fs e st1 = (r, st')"
      and w: "written st1 = written st \<or> written st1 = written st @ accept" by blast
    from Cons.IH [OF IH] obtain n where n: "r \<noteq> StructError"
      "written st' = written st1 @ concat (replicate n accept) \<or>
       (\<exists>k. r = Returned k) \<and> written st' = written st1 @ concat (replicate n accept) @ finish"
      by blast
    from w show ?thesis
    proof
      assume "written st1 = written st"
      with n show ?thesis by auto
    next
      assume "written st1 = written st @ accept"
      with n have "written st' = written st @ concat (replicate (Suc n) accept) \<or>
          (\<exists>k. r = Returned k) \<and> written st' = written st @ concat (replicate (Suc n) accept) @ finish"
        by simp
      with n(1) show ?thesis by blast
    qed
  next
    case False
    with Cons.prems assms(1,2) show ?thesis
      by (cases f) (auto split: if_splits sum.splits intro: exI [of _ 0])
  qed
qed

text \<open>
  What the reader may say. On every stream, with any callback, the reader never fails to
  encode a reply; it writes some number of ACCEPT frames for the dnstap content type and at
  most one FINISH, which is the last thing it writes and only when the session returns
  normally. A session that ends in a protocol violation never sends FINISH.
\<close>

theorem replies_are_accepts_then_finish:
  "\<exists>accept finish n.
     encode_control CONTROL_ACCEPT [DNSTAP_CONTENT_TYPE] = Some accept \<and>
     encode_control CONTROL_FINISH [] = Some finish \<and>
     (case serve_connection DNSTAP_CONTENT_TYPE on_frame stream s of (result, st) \<Rightarrow>
        case result of
          Returned k \<Rightarrow> written st \<in> {concat (replicate n accept), concat (replicate n accept) @ finish}
        | StructError \<Rightarrow> False
        | _ \<Rightarrow> written st = concat (replicate n accept))"
proof -
  obtain accept where accept: "encode_control CONTROL_ACCEPT [DNSTAP_CONTENT_TYPE] = Some accept"
    by (simp add: encode_control_eq length_control_payload control_defs)
  obtain finish where finish: "encode_control CONTROL_FINISH [] = Some finish"
    by (simp add: encode_control_eq length_control_payload control_defs)
  obtain result st where run: "serve_connection DNSTAP_CONTENT_TYPE on_frame stream s = (result, st)"
    by (cases "serve_connection DNSTAP_CONTENT_TYPE on_frame stream s")
  obtain n where "result \<noteq> StructError" and "written st = concat (replicate n accept) \<or>
      (\<exists>k. result = Returned k) \<and> written st = concat (replicate n accept) @ finish"
    using run_protocol_replies [OF accept finish, of on_frame] run
    by (fastforce simp: serve_connection_def serve_loop_run_protocol)
  then show ?thesis
    using accept finish run by (auto intro!: exI [of _ n] split: outcome.split)
qed

end
