(* ===== verification/Dnstap.thy ===== *)
theory Dnstap
  imports Codec
begin

text \<open>
  The dnstap decoder and classifier of the collector (\<open>collector/dnstap.py\<close>): the protobuf
  reader, with its position counters, the extraction of a CLIENT_RESPONSE, and the
  classification of a response into hit, miss or nothing. \<open>dns.message.from_wire\<close> is a
  parameter: it maps wire bytes to what the classifier reads of a message, or \<open>None\<close> for a
  \<open>DNSException\<close>.
\<close>

section \<open>Varints\<close>

datatype ProtobufError = BadVarint | UnsupportedWireType nat | TruncatedPbField

function varint_loop :: "bytes \<Rightarrow> nat \<Rightarrow> nat \<Rightarrow> nat \<Rightarrow> ProtobufError + (nat \<times> nat)" where
  "varint_loop buf pos value shift =
     (if pos \<ge> length buf \<or> shift > 63 then Inl BadVarint
      else let byte = unat (buf ! pos);
               value' = value OR push_bit shift (byte AND 127)
           in if byte < 128 then Inr (value', pos + 1)
              else varint_loop buf (pos + 1) value' (shift + 7))"
  by pat_completeness auto
termination
  by (relation "measure (\<lambda>(buf, pos, value, shift). length buf - pos)") auto

declare varint_loop.simps [simp del]

definition varint :: "bytes \<Rightarrow> nat \<Rightarrow> ProtobufError + (nat \<times> nat)" where
  "varint buf pos = varint_loop buf pos 0 0"

text \<open>The encoder the tests use, the usual base-128 encoding.\<close>

fun enc_varint :: "nat \<Rightarrow> bytes" where
  "enc_varint n =
     (if n < 128 then [word_of_nat n] else word_of_nat (n mod 128 + 128) # enc_varint (n div 128))"

declare enc_varint.simps [simp del]

subsection \<open>Bounds\<close>

lemma or_push_bit_add:
  fixes v b :: nat
  assumes "v < 2 ^ s"
  shows "v OR push_bit s b = v + b * 2 ^ s"
proof -
  have "v AND push_bit s b = 0"
  proof (rule bit_eqI)
    fix n
    have "bit v n \<Longrightarrow> n < s"
      using assms by (metis bit_take_bit_iff take_bit_nat_eq_self)
    then show "bit (v AND push_bit s b) n = bit (0 :: nat) n"
      by (auto simp: bit_and_iff bit_push_bit_iff)
  qed
  then have "v + push_bit s b = v OR push_bit s b"
    by (rule disjunctive_add_eq_or)
  then show ?thesis by (simp add: push_bit_eq_mult)
qed

lemma and_127: "(n :: nat) AND 127 = n mod 128"
  using take_bit_eq_mask [of 7 n] by (simp add: take_bit_eq_mod mask_eq_exp_minus_1)

lemma next_group_bound:
  fixes v b :: nat
  assumes "v < 2 ^ s"
  shows "v + b mod 128 * 2 ^ s < 2 ^ (s + 7)"
proof -
  have "b mod 128 * 2 ^ s \<le> 127 * 2 ^ s"
    by (rule mult_right_mono) (simp_all add: Suc_leI less_Suc_eq_le [symmetric])
  with assms have "v + b mod 128 * 2 ^ s < 2 ^ s + 127 * 2 ^ s" by linarith
  also have "\<dots> = 2 ^ (s + 7)" by (simp add: power_add)
  finally show ?thesis .
qed

lemma varint_loop_bounds:
  "varint_loop buf pos val shift = Inr (v, p) \<Longrightarrow> val < 2 ^ shift \<Longrightarrow> 7 dvd shift \<Longrightarrow>
   pos < p \<and> p \<le> length buf \<and> 7 * (p - pos) + shift \<le> 70 \<and> v < 2 ^ (7 * (p - pos) + shift)"
proof (induction buf pos val shift rule: varint_loop.induct)
  case (1 buf pos val shift)
  let ?byte = "unat (buf ! pos)" and ?val = "val OR push_bit shift (unat (buf ! pos) AND 127)"
  have ok: "pos < length buf" "shift \<le> 63"
    using "1.prems"(1) by (auto simp: varint_loop.simps [of buf pos] split: if_splits)
  have step: "?val = val + ?byte mod 128 * 2 ^ shift"
    using "1.prems"(2) by (simp add: or_push_bit_add and_127)
  have lt: "?val < 2 ^ (shift + 7)"
    unfolding step using "1.prems"(2) by (rule next_group_bound)
  show ?case
  proof (cases "?byte < 128")
    case True
    then show ?thesis using "1.prems"(1) ok lt
      by (auto simp: varint_loop.simps [of buf pos] Let_def add.commute)
  next
    case False
    then have "varint_loop buf (pos + 1) ?val (shift + 7) = Inr (v, p)"
      using "1.prems"(1) ok by (simp add: varint_loop.simps [of buf pos])
    moreover have "\<not> (length buf \<le> pos \<or> 63 < shift)" using ok by simp
    ultimately have "pos + 1 < p \<and> p \<le> length buf \<and> 7 * (p - (pos + 1)) + (shift + 7) \<le> 70 \<and>
        v < 2 ^ (7 * (p - (pos + 1)) + (shift + 7))"
      using "1.IH" False lt "1.prems"(3) by simp
    moreover from this have "7 * (p - (pos + 1)) + (shift + 7) = 7 * (p - pos) + shift" by arith
    ultimately show ?thesis by (simp only:) simp
  qed
qed

lemma varint_bounds:
  assumes "varint buf pos = Inr (v, p)"
  shows "pos < p" and "p \<le> length buf" and "p \<le> pos + 10" and "v < 2 ^ (7 * (p - pos))"
    and "v < 2 ^ 70"
proof -
  have *: "pos < p \<and> p \<le> length buf \<and> 7 * (p - pos) \<le> 70 \<and> v < 2 ^ (7 * (p - pos))"
    using varint_loop_bounds [of buf pos 0 0 v p] assms by (simp add: varint_def)
  then show "pos < p" "p \<le> length buf" "p \<le> pos + 10" "v < 2 ^ (7 * (p - pos))" by auto
  from * have "(2 :: nat) ^ (7 * (p - pos)) \<le> 2 ^ 70"
    by (intro power_increasing) auto
  with * show "v < 2 ^ 70" by simp
qed

subsection \<open>Round trip\<close>

lemma varint_loop_enc:
  "val < 2 ^ shift \<Longrightarrow> 7 dvd shift \<Longrightarrow> shift \<le> 63 \<Longrightarrow> n < 2 ^ (70 - shift) \<Longrightarrow>
   varint_loop (pre @ enc_varint n @ rest) (length pre) val shift =
     Inr (val + n * 2 ^ shift, length pre + length (enc_varint n))"
proof (induction n arbitrary: pre val shift rule: enc_varint.induct)
  case (1 n)
  show ?case
  proof (cases "n < 128")
    case True
    then have "unat (word_of_nat n :: 8 word) = n" by (simp add: unat_of_nat)
    then show ?thesis using True "1.prems"
      by (simp add: varint_loop.simps enc_varint.simps [of n] or_push_bit_add and_127)
  next
    case False
    define b where "b = (word_of_nat (n mod 128 + 128) :: 8 word)"
    have "n mod 128 + 128 < 256" by simp
    then have b: "unat b = n mod 128 + 128" unfolding b_def by (simp only: unat_of_nat) simp
    have enc: "pre @ enc_varint n @ rest = (pre @ [b]) @ enc_varint (n div 128) @ rest"
      using False by (simp add: enc_varint.simps [of n] b_def)
    have s: "shift + 7 \<le> 63"
    proof (rule ccontr)
      assume "\<not> shift + 7 \<le> 63"
      with "1.prems"(2,3) have "shift = 63" by presburger
      with "1.prems"(4) False show False by simp
    qed
    let ?v = "val + n mod 128 * 2 ^ shift"
    have v: "?v < 2 ^ (shift + 7)" using "1.prems"(1) by (rule next_group_bound)
    have eq: "70 - shift = (70 - (shift + 7)) + 7" using s by simp
    have "n < 2 ^ (70 - (shift + 7)) * 2 ^ 7" using "1.prems"(4) unfolding eq power_add .
    then have "n < 2 ^ (70 - (shift + 7)) * 128" by simp
    then have m: "n div 128 < 2 ^ (70 - (shift + 7))" by (simp add: less_mult_imp_div_less)
    have IH: "varint_loop ((pre @ [b]) @ enc_varint (n div 128) @ rest) (length (pre @ [b])) ?v (shift + 7) =
        Inr (?v + n div 128 * 2 ^ (shift + 7), length (pre @ [b]) + length (enc_varint (n div 128)))"
      using False "1.prems"(2) by (intro "1.IH" v s m) auto
    have "varint_loop (pre @ enc_varint n @ rest) (length pre) val shift =
        varint_loop ((pre @ [b]) @ enc_varint (n div 128) @ rest) (length (pre @ [b])) ?v (shift + 7)"
      unfolding enc using "1.prems"
      by (simp add: varint_loop.simps [of _ "length pre" val] b or_push_bit_add and_127)
    moreover have "?v + n div 128 * 2 ^ (shift + 7) = val + n * 2 ^ shift"
    proof -
      have "a * 2 ^ shift + c * 2 ^ (shift + 7) = (a + c * 128) * 2 ^ shift" for a c :: nat
        by (simp add: power_add algebra_simps)
      then show ?thesis by (simp only: mod_div_mult_eq add.assoc)
    qed
    moreover have "length (pre @ [b]) + length (enc_varint (n div 128)) = length pre + length (enc_varint n)"
      using False by (simp add: enc_varint.simps [of n])
    ultimately show ?thesis using IH by simp
  qed
qed

lemma varint_enc:
  "n < 2 ^ 70 \<Longrightarrow> varint (pre @ enc_varint n @ rest) (length pre) =
     Inr (n, length pre + length (enc_varint n))"
  using varint_loop_enc [of 0 0 n pre rest] by (simp add: varint_def)


text \<open>
  C27: Varints. Decoding the base-128 encoding of any number below \<open>2 ^ 70\<close>, wherever it
  stands in the buffer and whatever follows, gives the number and the position after it;
  and whatever the buffer holds, a varint that decodes takes between one and ten bytes of
  the buffer and is below \<open>2 ^ 70\<close>.
\<close>

theorem varint_round_trip_and_bounds:
  "(n < 2 ^ 70 \<longrightarrow> varint (pre @ enc_varint n @ rest) (length pre) =
     Inr (n, length pre + length (enc_varint n))) \<and>
   (varint buf pos = Inr (v, p) \<longrightarrow>
     pos < p \<and> p \<le> length buf \<and> p \<le> pos + 10 \<and> v < 2 ^ 70)"
  by (intro conjI impI; (rule varint_enc varint_bounds; assumption)?)

theorem varint_round_trip_and_bounds_witness:
  "varint ([1, 2] @ enc_varint 300 @ [9]) (length [1 :: 8 word, 2]) =
     Inr (300, length [1 :: 8 word, 2] + length (enc_varint 300))"
  using varint_round_trip_and_bounds [of 300 "[1, 2]" "[9]"] by simp

section \<open>Protobuf fields\<close>

text \<open>A field value: an int for varint and fixed-width fields, bytes otherwise.\<close>

datatype pb_value = PInt nat | PBytes bytes

definition read_value :: "bytes \<Rightarrow> nat \<Rightarrow> nat \<Rightarrow> ProtobufError + (pb_value \<times> nat)" where
  "read_value buf wire_type pos =
     (if wire_type = 0 then
        (case varint buf pos of Inl e \<Rightarrow> Inl e | Inr (v, p) \<Rightarrow> Inr (PInt v, p))
      else if wire_type = 1 then Inr (PInt (le_value (slice pos (pos + 8) buf)), pos + 8)
      else if wire_type = 2 then
        (case varint buf pos of Inl e \<Rightarrow> Inl e
         | Inr (n, p) \<Rightarrow> Inr (PBytes (slice p (p + n) buf), p + n))
      else if wire_type = 5 then Inr (PInt (le_value (slice pos (pos + 4) buf)), pos + 4)
      else Inl (UnsupportedWireType wire_type))"

text \<open>One round of the loop of \<open>iter_fields\<close>.\<close>

definition read_field :: "bytes \<Rightarrow> nat \<Rightarrow> ProtobufError + ((nat \<times> pb_value) \<times> nat)" where
  "read_field buf pos =
     (case varint buf pos of Inl e \<Rightarrow> Inl e
      | Inr (key, p) \<Rightarrow>
          (case read_value buf (key AND 7) p of Inl e \<Rightarrow> Inl e
           | Inr (val, q) \<Rightarrow>
               if q > length buf then Inl TruncatedPbField else Inr ((drop_bit 3 key, val), q)))"

lemma read_value_advances: "read_value buf w pos = Inr (v, q) \<Longrightarrow> pos \<le> q"
  by (auto simp: read_value_def dest: varint_bounds split: sum.splits if_splits)

lemma read_field_advances: "read_field buf pos = Inr (f, q) \<Longrightarrow> pos < q \<and> q \<le> length buf"
  by (fastforce simp: read_field_def dest: varint_bounds read_value_advances
      split: sum.splits if_splits)

function iter_from :: "bytes \<Rightarrow> nat \<Rightarrow> ProtobufError + (nat \<times> pb_value) list" where
  "iter_from buf pos =
     (if pos < length buf then
        case read_field buf pos of
          Inl e \<Rightarrow> Inl e
        | Inr (f, q) \<Rightarrow> (case iter_from buf q of Inl e \<Rightarrow> Inl e | Inr fs \<Rightarrow> Inr (f # fs))
      else Inr [])"
  by pat_completeness auto
termination
  by (relation "measure (\<lambda>(buf, pos). length buf - pos)") (auto dest: read_field_advances)

declare iter_from.simps [simp del]

definition iter_fields :: "bytes \<Rightarrow> ProtobufError + (nat \<times> pb_value) list" where
  "iter_fields buf = iter_from buf 0"

subsection \<open>Independence of the position\<close>

lemma varint_loop_drop:
  "i \<le> length buf \<Longrightarrow>
   varint_loop buf (i + pos) val shift =
     map_sum id (map_prod id ((+) i)) (varint_loop (drop i buf) pos val shift)"
proof (induction "drop i buf" pos val shift rule: varint_loop.induct)
  case (1 pos val shift)
  show ?case
    using "1.prems" "1.hyps"
    by (simp add: varint_loop.simps [of buf] varint_loop.simps [of "drop i buf" pos] Let_def
        less_diff_conv2 le_diff_conv add.commute not_le)
qed

lemma varint_drop:
  "i \<le> length buf \<Longrightarrow> varint buf (i + pos) = map_sum id (map_prod id ((+) i)) (varint (drop i buf) pos)"
  by (simp add: varint_def varint_loop_drop)

lemma slice_drop: "slice (i + p) (i + q) buf = slice p q (drop i buf)"
  by (simp add: slice_def add.commute)

lemma read_value_drop:
  "i \<le> length buf \<Longrightarrow>
   read_value buf w (i + pos) = map_sum id (map_prod id ((+) i)) (read_value (drop i buf) w pos)"
  by (auto simp: read_value_def varint_drop add.assoc slice_drop split: sum.split)

lemma read_field_drop:
  "i \<le> length buf \<Longrightarrow>
   read_field buf (i + pos) = map_sum id (map_prod id ((+) i)) (read_field (drop i buf) pos)"
  by (auto simp: read_field_def varint_drop read_value_drop split: sum.split)

lemma iter_from_drop:
  "i \<le> length buf \<Longrightarrow> iter_from buf (i + pos) = iter_from (drop i buf) pos"
proof (induction "drop i buf" pos rule: iter_from.induct)
  case (1 pos)
  show ?case
    using "1.prems" "1.hyps"
    by (auto simp: iter_from.simps [of buf "i + pos"] iter_from.simps [of "drop i buf" pos]
        read_field_drop split: sum.split)
qed


subsection \<open>Round trip of whole messages\<close>

definition enc_pb :: "nat \<times> pb_value \<Rightarrow> bytes" where
  "enc_pb f = (case f of
      (number, PInt v) \<Rightarrow> enc_varint (number * 8) @ enc_varint v
    | (number, PBytes b) \<Rightarrow> enc_varint (number * 8 + 2) @ enc_varint (length b) @ b)"

definition pb_ok :: "nat \<times> pb_value \<Rightarrow> bool" where
  "pb_ok f \<longleftrightarrow> fst f < 2 ^ 67 \<and>
     (case snd f of PInt v \<Rightarrow> v < 2 ^ 70 | PBytes b \<Rightarrow> length b < 2 ^ 70)"

definition dec_pb :: "bytes \<Rightarrow> ProtobufError + ((nat \<times> pb_value) \<times> bytes)" where
  "dec_pb s = (case read_field s 0 of Inl e \<Rightarrow> Inl e | Inr (f, q) \<Rightarrow> Inr (f, drop q s))"

lemma enc_varint_nonempty [simp]: "enc_varint n \<noteq> []"
  by (subst enc_varint.simps) simp

lemma length_enc_varint_le: "length (enc_varint n) \<le> Suc n"
proof (induction n rule: enc_varint.induct)
  case (1 n)
  show ?case
  proof (cases "n < 128")
    case True
    then show ?thesis by (simp add: enc_varint.simps [of n])
  next
    case False
    then have "length (enc_varint (n div 128)) \<le> Suc (n div 128)" by (rule "1.IH")
    with False show ?thesis by (simp add: enc_varint.simps [of n])
  qed
qed

lemma and_7: "(n :: nat) AND 7 = n mod 8"
  using take_bit_eq_mask [of 3 n] by (simp add: take_bit_eq_mod mask_eq_exp_minus_1)

lemma drop_bit_3: "drop_bit 3 (n :: nat) = n div 8"
  by (simp add: drop_bit_eq_div)

lemma varint_enc_front:
  "n < 2 ^ 70 \<Longrightarrow> varint (enc_varint n @ rest) 0 = Inr (n, length (enc_varint n))"
  using varint_enc [of n "[]" rest] by simp

lemma dec_pb_enc: "pb_ok f \<Longrightarrow> dec_pb (enc_pb f @ rest) = Inr (f, rest)"
proof -
  assume ok: "pb_ok f"
  obtain number val where f: "f = (number, val)" by (cases f)
  from ok f have number: "number * 8 + 2 < 2 ^ 70" by (simp add: pb_ok_def)
  show ?thesis
  proof (cases val)
    case (PInt v)
    let ?k = "enc_varint (number * 8)"
    have "varint (?k @ enc_varint v @ rest) (length ?k) = Inr (v, length ?k + length (enc_varint v))"
      using ok f PInt by (intro varint_enc) (simp add: pb_ok_def)
    moreover have "varint (?k @ enc_varint v @ rest) 0 = Inr (number * 8, length ?k)"
      using number by (intro varint_enc_front) simp
    ultimately show ?thesis
      by (simp add: f PInt enc_pb_def dec_pb_def read_field_def read_value_def and_7 drop_bit_3)
  next
    case (PBytes b)
    let ?k = "enc_varint (number * 8 + 2)" and ?n = "enc_varint (length b)"
    have "varint (?k @ ?n @ b @ rest) (length ?k) = Inr (length b, length ?k + length ?n)"
      using ok f PBytes by (intro varint_enc) (simp add: pb_ok_def)
    moreover have "varint (?k @ ?n @ b @ rest) 0 = Inr (number * 8 + 2, length ?k)"
      using number by (intro varint_enc_front)
    moreover have "Suc (Suc (number * 8)) mod 8 = 2" "Suc (Suc (number * 8)) div 8 = number"
      by presburger+
    ultimately show ?thesis
      by (simp add: f PBytes enc_pb_def dec_pb_def read_field_def read_value_def and_7 drop_bit_3
          slice_def)
  qed
qed

interpretation pb_codec: field_codec enc_pb dec_pb iter_fields pb_ok
proof
  show "dec_pb (enc_pb x @ rest) = Inr (x, rest)" if "pb_ok x" for x rest
    using that by (rule dec_pb_enc)
  show "enc_pb x \<noteq> []" for x
    by (simp add: enc_pb_def split: prod.split pb_value.split)
  show "iter_fields [] = Inr []"
    by (simp add: iter_fields_def iter_from.simps)
  show "iter_fields s = (case dec_pb s of Inl e \<Rightarrow> Inl e
       | Inr (x, rest) \<Rightarrow> (case iter_fields rest of Inl e \<Rightarrow> Inl e | Inr xs \<Rightarrow> Inr (x # xs)))"
    if "s \<noteq> []" for s
  proof -
    have "iter_from s q = iter_from (drop q s) 0" if "q \<le> length s" for q
      using iter_from_drop [OF that, of 0] by simp
    with \<open>s \<noteq> []\<close> show ?thesis
      by (auto simp: iter_fields_def iter_from.simps [of s 0] dec_pb_def
          dest: read_field_advances split: sum.split)
  qed
qed

text \<open>
  Protobuf messages. Reading the encoding of any list of fields gives exactly that list,
  so different field lists never share an encoding.
\<close>

theorem iter_fields_round_trip:
  assumes "\<forall>f \<in> set fields. pb_ok f"
  shows "iter_fields (concat (map enc_pb fields)) = Inr fields \<and>
    (\<forall>fields'. (\<forall>f \<in> set fields'. pb_ok f) \<and>
       concat (map enc_pb fields) = concat (map enc_pb fields') \<longrightarrow> fields = fields')"
proof (intro conjI allI impI)
  show "iter_fields (concat (map enc_pb fields)) = Inr fields"
    using assms by (rule pb_codec.loop_concat)
  show "fields = fields'" if "(\<forall>f \<in> set fields'. pb_ok f) \<and>
      concat (map enc_pb fields) = concat (map enc_pb fields')" for fields'
    using assms that by (intro pb_codec.enc_unique) simp_all
qed

theorem iter_fields_round_trip_witness:
  "iter_fields (concat (map enc_pb [(15, PInt 1), (14, PBytes [1, 2, 3]), (12, PInt 1700000000)])) =
     Inr [(15, PInt 1), (14, PBytes [1, 2, 3]), (12, PInt 1700000000)]"
  by (rule iter_fields_round_trip [THEN conjunct1]) (simp add: pb_ok_def)

section \<open>The client response of a frame\<close>

definition DNSTAP_TYPE_MESSAGE :: nat where "DNSTAP_TYPE_MESSAGE = 1"
definition MESSAGE_CLIENT_RESPONSE :: nat where "MESSAGE_CLIENT_RESPONSE = 6"

record ClientResponse =
  response_time :: "rat option"
  wire :: bytes

text \<open>
  What \<open>decode_client_response\<close> may raise: \<open>ProtobufError\<close>, or the \<open>TypeError\<close> of adding a
  float to bytes when \<open>response_time_sec\<close> came as a length-delimited field.
\<close>

datatype decode_error = Protobuf ProtobufError | TypeError

definition dnstap_fields :: "(nat \<times> pb_value) list \<Rightarrow> pb_value option \<times> bytes option" where
  "dnstap_fields fs = fold (\<lambda>(number, val) (dnstap_type, message).
     if number = 15 then (Some val, message)
     else case val of
       PBytes b \<Rightarrow> if number = 14 then (dnstap_type, Some b) else (dnstap_type, message)
     | PInt _ \<Rightarrow> (dnstap_type, message)) fs (None, None)"

record message_fields =
  message_type :: "pb_value option"
  seconds :: "pb_value option"
  nanoseconds :: nat
  wire_field :: "bytes option"

definition message_step :: "nat \<times> pb_value \<Rightarrow> message_fields \<Rightarrow> message_fields" where
  "message_step f m = (case f of (number, val) \<Rightarrow>
     if number = 1 then m\<lparr>message_type := Some val\<rparr>
     else if number = 12 then m\<lparr>seconds := Some val\<rparr>
     else case val of
       PInt v \<Rightarrow> if number = 13 then m\<lparr>nanoseconds := v\<rparr> else m
     | PBytes b \<Rightarrow> if number = 14 then m\<lparr>wire_field := Some b\<rparr> else m)"

definition message_of :: "(nat \<times> pb_value) list \<Rightarrow> message_fields" where
  "message_of fs = fold message_step fs
     \<lparr>message_type = None, seconds = None, nanoseconds = 0, wire_field = None\<rparr>"

definition decode_client_response :: "bytes \<Rightarrow> decode_error + ClientResponse option" where
  "decode_client_response frame =
     (case iter_fields frame of Inl e \<Rightarrow> Inl (Protobuf e)
      | Inr fs \<Rightarrow>
          (case dnstap_fields fs of
             (Some (PInt t), Some message) \<Rightarrow>
               if t \<noteq> DNSTAP_TYPE_MESSAGE then Inr None
               else (case iter_fields message of Inl e \<Rightarrow> Inl (Protobuf e)
                 | Inr ms \<Rightarrow>
                     let m = message_of ms in
                     (case (message_type m, wire_field m) of
                        (Some (PInt t'), Some w) \<Rightarrow>
                          if t' \<noteq> MESSAGE_CLIENT_RESPONSE then Inr None
                          else (case seconds m of
                                  None \<Rightarrow> Inr (Some \<lparr>response_time = None, wire = w\<rparr>)
                                | Some (PInt s) \<Rightarrow>
                                    Inr (Some \<lparr>response_time =
                                        Some (of_nat s + of_nat (nanoseconds m) / 1000000000),
                                      wire = w\<rparr>)
                                | Some (PBytes _) \<Rightarrow> Inl TypeError)
                      | _ \<Rightarrow> Inr None))
           | _ \<Rightarrow> Inr None))"


subsection \<open>The last field of each kind wins\<close>

definition last_some :: "('a \<Rightarrow> 'b option) \<Rightarrow> 'a list \<Rightarrow> 'b option" where
  "last_some g xs = (let ys = List.map_filter g xs in if ys = [] then None else Some (last ys))"

definition any_field :: "nat \<Rightarrow> nat \<times> pb_value \<Rightarrow> pb_value option" where
  "any_field n f = (if fst f = n then Some (snd f) else None)"

definition int_field :: "nat \<Rightarrow> nat \<times> pb_value \<Rightarrow> nat option" where
  "int_field n f = (case snd f of PInt v \<Rightarrow> if fst f = n then Some v else None | PBytes _ \<Rightarrow> None)"

definition bytes_field :: "nat \<Rightarrow> nat \<times> pb_value \<Rightarrow> bytes option" where
  "bytes_field n f = (case snd f of PInt _ \<Rightarrow> None | PBytes b \<Rightarrow> if fst f = n then Some b else None)"

lemma last_some_Nil [simp]: "last_some g [] = None"
  by (simp add: last_some_def map_filter_simps)

lemma last_some_snoc [simp]:
  "last_some g (xs @ [x]) = (case g x of None \<Rightarrow> last_some g xs | Some y \<Rightarrow> Some y)"
proof -
  have "List.map_filter g (xs @ [x]) =
      List.map_filter g xs @ (case g x of None \<Rightarrow> [] | Some y \<Rightarrow> [y])"
    by (simp add: List.map_filter_def split: option.split)
  then show ?thesis
    by (simp add: last_some_def Let_def split: option.split)
qed

lemma dnstap_fields_last:
  "dnstap_fields fs = (last_some (any_field 15) fs, last_some (bytes_field 14) fs)"
proof (induction fs rule: rev_induct)
  case Nil
  then show ?case by (simp add: dnstap_fields_def)
next
  case (snoc f fs)
  obtain number val where "f = (number, val)" by (cases f)
  with snoc show ?case
    by (cases val) (auto simp: dnstap_fields_def any_field_def bytes_field_def)
qed

lemma message_of_last:
  "message_of ms =
     \<lparr>message_type = last_some (any_field 1) ms, seconds = last_some (any_field 12) ms,
      nanoseconds = (case last_some (int_field 13) ms of None \<Rightarrow> 0 | Some n \<Rightarrow> n),
      wire_field = last_some (bytes_field 14) ms\<rparr>"
proof (induction ms rule: rev_induct)
  case Nil
  then show ?case by (simp add: message_of_def)
next
  case (snoc f ms)
  obtain number val where f: "f = (number, val)" by (cases f)
  have "message_of (ms @ [f]) = message_step f (message_of ms)" by (simp add: message_of_def)
  with snoc f show ?case
    by (cases val)
       (auto simp: message_step_def any_field_def int_field_def bytes_field_def split: option.split)
qed

lemma decode_client_response_enc:
  assumes "\<forall>f \<in> set fs. pb_ok f" and "\<forall>m \<in> set ms. pb_ok m"
    and "last_some (any_field 15) fs = Some (PInt DNSTAP_TYPE_MESSAGE)"
    and "last_some (bytes_field 14) fs = Some (concat (map enc_pb ms))"
    and "last_some (any_field 1) ms = Some (PInt MESSAGE_CLIENT_RESPONSE)"
    and "last_some (bytes_field 14) ms = Some w"
  shows "decode_client_response (concat (map enc_pb fs)) =
    (let nanos = (case last_some (int_field 13) ms of None \<Rightarrow> 0 | Some n \<Rightarrow> n)
     in case last_some (any_field 12) ms of
          None \<Rightarrow> Inr (Some \<lparr>response_time = None, wire = w\<rparr>)
        | Some (PInt s) \<Rightarrow>
            Inr (Some \<lparr>response_time = Some (of_nat s + of_nat nanos / 1000000000), wire = w\<rparr>)
        | Some (PBytes _) \<Rightarrow> Inl TypeError)"
  using assms
  by (simp add: decode_client_response_def pb_codec.loop_concat dnstap_fields_last message_of_last
      split: option.split pb_value.split)




section \<open>Ignored names\<close>

definition is_ignored :: "string \<Rightarrow> string set \<Rightarrow> bool" where
  "is_ignored name ignore_suffixes =
     (if CHR ''.'' \<notin> set name then True
      else let labels = split_on (CHR ''.'') name
           in \<exists>i \<in> set [0..<length labels]. join ''.'' (drop i labels) \<in> ignore_suffixes)"

text \<open>Joining the labels from some index on gives the name or what follows one of its dots.\<close>

lemma bex_less_Suc: "(\<exists>i < Suc n. P i) \<longleftrightarrow> P 0 \<or> (\<exists>i < n. P (Suc i))"
  using less_Suc_eq_0_disj by auto

lemma tail_suffixes:
  "(\<exists>i < length (tl (split_on c xs)). ys = join [c] (drop i (tl (split_on c xs)))) \<longleftrightarrow>
     (\<exists>pre. xs = pre @ c # ys)"
proof (induction xs)
  case Nil
  then show ?case by simp
next
  case (Cons x xs)
  obtain w ws where s: "split_on c xs = w # ws" by (cases "split_on c xs") auto
  show ?case
  proof (cases "x = c")
    case True
    have "join [c] (w # ws) = xs" using join_split_on [of c xs] s by simp
    then show ?thesis using Cons.IH True s by (auto simp: bex_less_Suc Cons_eq_append_conv)
  next
    case False
    then show ?thesis using Cons.IH s by (auto simp: Cons_eq_append_conv)
  qed
qed

lemma label_suffixes:
  "(\<exists>i < length (split_on c xs). ys = join [c] (drop i (split_on c xs))) \<longleftrightarrow>
     ys = xs \<or> (\<exists>pre. xs = pre @ c # ys)"
proof -
  obtain w ws where s: "split_on c xs = w # ws" by (cases "split_on c xs") auto
  then have "join [c] (w # ws) = xs" using join_split_on [of c xs] by simp
  with s show ?thesis using tail_suffixes [of c xs ys] by (simp add: bex_less_Suc)
qed

text \<open>
  Which names are never measured. The label loop ignores a name exactly when it has a
  single label, is one of the configured suffixes, or ends in a dot and one of them: a
  suffix only matches at a label boundary, so \<open>foo.mytest\<close> is not under \<open>test\<close>.
\<close>

theorem is_ignored_iff_under_suffix:
  "is_ignored name suffixes \<longleftrightarrow>
     (if CHR ''.'' \<in> set name
      then \<exists>s \<in> suffixes. name = s \<or> (\<exists>pre. name = pre @ CHR ''.'' # s)
      else True)"
proof -
  let ?labels = "split_on (CHR ''.'') name"
  have "(\<exists>i < length ?labels. join ''.'' (drop i ?labels) \<in> suffixes) \<longleftrightarrow>
      (\<exists>s \<in> suffixes. \<exists>i < length ?labels. s = join ''.'' (drop i ?labels))" by blast
  also have "\<dots> \<longleftrightarrow> (\<exists>s \<in> suffixes. name = s \<or> (\<exists>pre. name = pre @ CHR ''.'' # s))"
    by (simp only: label_suffixes) (simp add: eq_commute)
  finally show ?thesis by (simp add: is_ignored_def Let_def atLeast0LessThan Bex_def)
qed

section \<open>Classification\<close>

text \<open>
  What the classifier reads of a parsed message: opcode, flags, rcode and the question,
  whose name is the text without the final dot. The numbers are those of the DNS registry.
\<close>

record dns_question =
  q_text :: string
  q_rdclass :: nat
  q_rdtype :: nat

record dns_message =
  m_opcode :: nat
  m_flags :: nat
  m_rcode :: nat
  m_question :: "dns_question list"

definition OPCODE_QUERY :: nat where "OPCODE_QUERY = 0"
definition CLASS_IN :: nat where "CLASS_IN = 1"
definition TYPE_A :: nat where "TYPE_A = 1"
definition TYPE_AAAA :: nat where "TYPE_AAAA = 28"
definition FLAG_AA :: nat where "FLAG_AA = 1024"
definition NOERROR :: nat where "NOERROR = 0"
definition NXDOMAIN :: nat where "NXDOMAIN = 3"

definition ADDRESS_TYPES :: "nat set" where
  "ADDRESS_TYPES = {TYPE_A, TYPE_AAAA}"

datatype kind = HIT | MISS

record Event =
  ev_kind :: kind
  ev_name :: string
  ev_time :: rat

text \<open>\<open>now\<close> is \<open>time.time()\<close>, used when the response has no time or the time zero.\<close>

definition classify ::
  "(bytes \<Rightarrow> dns_message option) \<Rightarrow> rat \<Rightarrow> ClientResponse \<Rightarrow> string set \<Rightarrow> Event option" where
  "classify from_wire now response ignore_suffixes =
     (case from_wire (wire response) of
        None \<Rightarrow> None
      | Some message \<Rightarrow>
          (case m_question message of
             [q] \<Rightarrow>
               if m_opcode message \<noteq> OPCODE_QUERY \<or> q_rdclass q \<noteq> CLASS_IN
                  \<or> q_rdtype q \<notin> ADDRESS_TYPES then None
               else
                 let name = lower (q_text q) in
                 if is_ignored name ignore_suffixes then None
                 else
                   let when = (case response_time response of
                       None \<Rightarrow> now | Some t \<Rightarrow> if t = 0 then now else t)
                   in if m_flags message AND FLAG_AA \<noteq> 0
                      then Some \<lparr>ev_kind = HIT, ev_name = name, ev_time = when\<rparr>
                      else if m_rcode message \<in> {NOERROR, NXDOMAIN}
                      then Some \<lparr>ev_kind = MISS, ev_name = name, ev_time = when\<rparr>
                      else None
           | _ \<Rightarrow> None))"

lemma classify_SomeD:
  assumes "classify from_wire now response ignore = Some ev"
  shows "\<not> is_ignored (ev_name ev) ignore" and "lower (ev_name ev) = ev_name ev"
    and "CHR ''.'' \<in> set (ev_name ev)"
proof -
  show "\<not> is_ignored (ev_name ev) ignore"
    using assms by (auto simp: classify_def Let_def split: option.splits list.splits if_splits)
  then show "CHR ''.'' \<in> set (ev_name ev)" by (auto simp: is_ignored_def split: if_splits)
  show "lower (ev_name ev) = ev_name ev"
    using assms by (auto simp: classify_def Let_def split: option.splits list.splits if_splits)
qed

end
