(* ===== verification/Tables.thy ===== *)
theory Tables
  imports Prelude
begin

text \<open>
  The semantics of the SQL statements the services issue. A table is the list of its rows, in
  an order that means nothing (a query that needs one sorts); a primary key or UNIQUE
  constraint is a key function on rows under which the table has no duplicate.

  The locale \<open>keyed_rows\<close> is the contract of an \<open>INSERT ... ON CONFLICT (key) DO UPDATE\<close>:
  what is inserted carries the key it was inserted under, and the update keeps the key.
  It gives the laws of \<open>upsert_table\<close>, under which a whole batch of such statements is
  characterised by a look-up per key.
\<close>

section \<open>Statements\<close>

definition find_row :: "('r \<Rightarrow> 'k) \<Rightarrow> 'k \<Rightarrow> 'r list \<Rightarrow> 'r option" where
  "find_row key k t = find (\<lambda>r. key r = k) t"

definition unique_key :: "('r \<Rightarrow> 'k) \<Rightarrow> 'r list \<Rightarrow> bool" where
  "unique_key key t = distinct (map key t)"

text \<open>\<open>UPDATE t SET ... WHERE P\<close> and \<open>DELETE FROM t WHERE P\<close>.\<close>

definition update_where :: "('r \<Rightarrow> bool) \<Rightarrow> ('r \<Rightarrow> 'r) \<Rightarrow> 'r list \<Rightarrow> 'r list" where
  "update_where P f t = map (\<lambda>r. if P r then f r else r) t"

definition delete_where :: "('r \<Rightarrow> bool) \<Rightarrow> 'r list \<Rightarrow> 'r list" where
  "delete_where P t = filter (\<lambda>r. \<not> P r) t"

text \<open>
  \<open>INSERT INTO t VALUES (new) ON CONFLICT (key) DO UPDATE SET ...\<close>: the row that has the
  key of the new one is updated, and without such a row the new one is inserted.
  \<open>DO NOTHING\<close> is the update that keeps the row.
\<close>

definition upsert :: "('r \<Rightarrow> 'k) \<Rightarrow> 'r \<Rightarrow> ('r \<Rightarrow> 'r) \<Rightarrow> 'r list \<Rightarrow> 'r list" where
  "upsert key new f t =
     (if key new \<in> key ` set t then update_where (\<lambda>r. key r = key new) f t else t @ [new])"

section \<open>Laws of the statements\<close>

lemma find_row_Nil [simp]: "find_row key k [] = None"
  by (simp add: find_row_def)

lemma find_row_Cons [simp]:
  "find_row key k (r # t) = (if key r = k then Some r else find_row key k t)"
  by (simp add: find_row_def)

lemma find_row_None: "find_row key k t = None \<longleftrightarrow> k \<notin> key ` set t"
  by (induction t) auto

lemma find_row_SomeD: "find_row key k t = Some r \<Longrightarrow> r \<in> set t \<and> key r = k"
  by (induction t) (auto split: if_splits)

lemma find_row_append:
  "find_row key k (t @ u) = (case find_row key k t of None \<Rightarrow> find_row key k u | Some r \<Rightarrow> Some r)"
  by (induction t) auto

lemma find_row_unique:
  "unique_key key t \<Longrightarrow> find_row key k t = Some r \<longleftrightarrow> r \<in> set t \<and> key r = k"
proof
  assume "unique_key key t" and "r \<in> set t \<and> key r = k"
  then show "find_row key k t = Some r"
    by (induction t) (auto simp: unique_key_def)
qed (rule find_row_SomeD)

lemma unique_key_Nil [simp]: "unique_key key []"
  by (simp add: unique_key_def)

lemma unique_keyD:
  "unique_key key t \<Longrightarrow> r \<in> set t \<Longrightarrow> s \<in> set t \<Longrightarrow> key r = key s \<Longrightarrow> r = s"
  by (auto simp: unique_key_def distinct_map inj_on_def)

lemma find_row_update_where [table_simps]:
  assumes "\<And>r. P r \<Longrightarrow> key (f r) = key r"
  shows "find_row key k (update_where P f t) =
           map_option (\<lambda>r. if P r then f r else r) (find_row key k t)"
  using assms by (induction t) (auto simp: update_where_def)

lemma set_update_where: "set (update_where P f t) = (\<lambda>r. if P r then f r else r) ` set t"
  by (simp add: update_where_def)

lemma map_key_update_where:
  "(\<And>r. P r \<Longrightarrow> key (f r) = key r) \<Longrightarrow> map key (update_where P f t) = map key t"
  by (simp add: update_where_def)

lemma keys_update_where:
  "(\<And>r. P r \<Longrightarrow> key (f r) = key r) \<Longrightarrow> key ` set (update_where P f t) = key ` set t"
  using map_key_update_where [of P key f t] by (metis list.set_map)

lemma unique_key_update_where:
  "(\<And>r. P r \<Longrightarrow> key (f r) = key r) \<Longrightarrow> unique_key key (update_where P f t) = unique_key key t"
  by (simp add: unique_key_def map_key_update_where)

lemma update_where_none: "\<forall>r \<in> set t. \<not> P r \<Longrightarrow> update_where P f t = t"
  by (simp add: update_where_def map_idI)

lemma filter_update_where:
  "(\<And>r. P r \<Longrightarrow> P (f r)) \<Longrightarrow> filter P (update_where P f t) = map f (filter P t)"
  by (induction t) (auto simp: update_where_def)

lemma set_delete_where: "set (delete_where P t) = {r \<in> set t. \<not> P r}"
  by (auto simp: delete_where_def)

lemma delete_where_none: "\<forall>r \<in> set t. \<not> P r \<Longrightarrow> delete_where P t = t"
  by (simp add: delete_where_def)

lemma unique_key_filter: "unique_key key t \<Longrightarrow> unique_key key (filter P t)"
  by (simp add: unique_key_def distinct_map_filter)

lemma unique_key_delete_where: "unique_key key t \<Longrightarrow> unique_key key (delete_where P t)"
  by (simp add: delete_where_def unique_key_filter)

lemma find_row_delete_where [table_simps]:
  assumes "unique_key key t"
  shows "find_row key k (delete_where P t) =
           (case find_row key k t of None \<Rightarrow> None | Some r \<Rightarrow> if P r then None else Some r)"
proof (cases "find_row key k t")
  case None
  then have "find_row key k (delete_where P t) = None"
    by (auto simp: find_row_None set_delete_where)
  with None show ?thesis by simp
next
  case (Some r)
  show ?thesis
  proof (cases "P r")
    case True
    have "s = r" if "s \<in> set t" "key s = k" for s
      using find_row_SomeD [OF Some] that by (intro unique_keyD [OF assms]) simp_all
    then have "k \<notin> key ` set (delete_where P t)"
      using True by (auto simp: set_delete_where)
    then show ?thesis using Some True by (simp add: find_row_None)
  next
    case False
    have "r \<in> set (delete_where P t) \<and> key r = k"
      using False find_row_SomeD [OF Some] by (simp add: set_delete_where)
    then have "find_row key k (delete_where P t) = Some r"
      using assms by (simp add: find_row_unique unique_key_delete_where)
    then show ?thesis using Some False by simp
  qed
qed

lemma find_row_upsert [table_simps]:
  assumes "\<And>r. key (f r) = key r"
  shows "find_row key k (upsert key new f t) =
           (if k = key new
            then Some (case find_row key k t of None \<Rightarrow> new | Some r \<Rightarrow> f r)
            else find_row key k t)"
proof (cases "key new \<in> key ` set t")
  case True
  then have "find_row key (key new) t \<noteq> None" by (simp add: find_row_None)
  with True show ?thesis
    by (cases "find_row key k t")
       (auto simp: upsert_def find_row_update_where assms dest: find_row_SomeD)
next
  case False
  then have "find_row key (key new) t = None" by (simp add: find_row_None)
  with False show ?thesis
    by (auto simp: upsert_def find_row_append split: option.splits)
qed

lemma unique_key_upsert:
  assumes "\<And>r. key (f r) = key r" and "unique_key key t"
  shows "unique_key key (upsert key new f t)"
  using assms by (auto simp: upsert_def unique_key_update_where) (simp add: unique_key_def)

lemma set_upsert_subset:
  "set (upsert key new f t) \<subseteq> insert new (set t \<union> f ` set t)"
  by (auto simp: upsert_def set_update_where)

lemma set_upsert_other:
  "r \<in> set t \<Longrightarrow> key r \<noteq> key new \<Longrightarrow> r \<in> set (upsert key new f t)"
  by (auto simp: upsert_def set_update_where image_iff)

section \<open>Batches of upserts\<close>

locale upsert_table =
  fixes keyof :: "'a \<Rightarrow> 'k"
    and put :: "'a \<Rightarrow> 't \<Rightarrow> 't"
    and look :: "'t \<Rightarrow> 'k \<Rightarrow> 'r option"
    and merge :: "'a \<Rightarrow> 'r option \<Rightarrow> 'r"
    and invar :: "'t \<Rightarrow> bool"
  assumes look_put:
      "invar t \<Longrightarrow> look (put a t) k = (if k = keyof a then Some (merge a (look t k)) else look t k)"
    and invar_put: "invar t \<Longrightarrow> invar (put a t)"
begin

lemma invar_fold_put: "invar t \<Longrightarrow> invar (fold put xs t)"
  by (induction xs arbitrary: t) (auto intro: invar_put)

lemma look_fold_put_other:
  "invar t \<Longrightarrow> k \<notin> keyof ` set xs \<Longrightarrow> look (fold put xs t) k = look t k"
  by (induction xs arbitrary: t) (auto simp: look_put invar_put)

lemma look_fold_put:
  "invar t \<Longrightarrow> distinct (map keyof xs) \<Longrightarrow>
   look (fold put xs t) k =
     (case find (\<lambda>a. keyof a = k) xs of None \<Rightarrow> look t k | Some a \<Rightarrow> Some (merge a (look t k)))"
proof (induction xs arbitrary: t)
  case Nil
  then show ?case by simp
next
  case (Cons x xs)
  show ?case
  proof (cases "keyof x = k")
    case True
    with Cons.prems have "k \<notin> keyof ` set xs" by auto
    then have "look (fold put xs (put x t)) k = look (put x t) k"
      using Cons.prems by (intro look_fold_put_other invar_put)
    then show ?thesis using True Cons.prems by (simp add: look_put)
  next
    case False
    then have "look (put x t) k = look t k" using Cons.prems by (simp add: look_put)
    then show ?thesis using False Cons by (simp add: invar_put split: option.split)
  qed
qed

lemma look_fold_put_mem:
  "invar t \<Longrightarrow> distinct (map keyof xs) \<Longrightarrow> a \<in> set xs \<Longrightarrow>
   look (fold put xs t) (keyof a) = Some (merge a (look t (keyof a)))"
proof (induction xs arbitrary: t)
  case (Cons x xs)
  show ?case
  proof (cases "a = x")
    case True
    with Cons.prems have "keyof a \<notin> keyof ` set xs" by auto
    then have "look (fold put xs (put x t)) (keyof a) = look (put x t) (keyof a)"
      using Cons.prems by (intro look_fold_put_other invar_put)
    then show ?thesis using True Cons.prems by (simp add: look_put)
  next
    case False
    with Cons.prems have "a \<in> set xs" "keyof a \<noteq> keyof x" by (auto simp: image_iff)
    then show ?thesis using Cons by (simp add: look_put invar_put)
  qed
qed simp

end

locale keyed_rows =
  fixes key :: "'r \<Rightarrow> 'k"
    and keyof :: "'a \<Rightarrow> 'k"
    and new_row :: "'a \<Rightarrow> 'r"
    and on_conflict :: "'a \<Rightarrow> 'r \<Rightarrow> 'r"
  assumes key_new_row: "key (new_row a) = keyof a"
    and key_on_conflict: "key (on_conflict a r) = key r"
begin

sublocale upsert_table keyof "\<lambda>a. upsert key (new_row a) (on_conflict a)"
  "\<lambda>t k. find_row key k t"
  "\<lambda>a ro. case ro of None \<Rightarrow> new_row a | Some r \<Rightarrow> on_conflict a r"
  "unique_key key"
  by unfold_locales
     (auto simp: find_row_upsert key_on_conflict key_new_row unique_key_upsert split: option.splits)

lemma rows_fold_put:
  assumes "\<forall>r \<in> set t. P r" and "\<And>a. a \<in> set xs \<Longrightarrow> P (new_row a)"
    and "\<And>a r. a \<in> set xs \<Longrightarrow> P r \<Longrightarrow> P (on_conflict a r)"
  shows "\<forall>r \<in> set (fold (\<lambda>a. upsert key (new_row a) (on_conflict a)) xs t). P r"
  using assms
proof (induction xs arbitrary: t)
  case (Cons x xs)
  have "\<forall>r \<in> set (upsert key (new_row x) (on_conflict x) t). P r"
    using set_upsert_subset [of key "new_row x" "on_conflict x" t] Cons.prems(1)
      Cons.prems(2) [of x] Cons.prems(3) [of x] by fastforce
  then have "\<forall>r \<in> set (fold (\<lambda>a. upsert key (new_row a) (on_conflict a)) xs
      (upsert key (new_row x) (on_conflict x) t)). P r"
    using Cons.prems(2,3) by (intro Cons.IH) auto
  then show ?case by simp
qed simp

lemma mem_fold_put_other:
  "r \<in> set t \<Longrightarrow> key r \<notin> keyof ` set xs \<Longrightarrow>
   r \<in> set (fold (\<lambda>a. upsert key (new_row a) (on_conflict a)) xs t)"
  by (induction xs arbitrary: t) (simp_all add: key_new_row set_upsert_other)

lemma keys_fold_put:
  "key ` set (fold (\<lambda>a. upsert key (new_row a) (on_conflict a)) xs t) = key ` set t \<union> keyof ` set xs"
proof (induction xs arbitrary: t)
  case (Cons x xs)
  have "key ` set (upsert key (new_row x) (on_conflict x) t) = insert (keyof x) (key ` set t)"
    by (auto simp: upsert_def keys_update_where key_new_row key_on_conflict)
  then show ?case by (simp add: Cons.IH)
qed simp

end

end
