(* ===== verification/Database.thy ===== *)
theory Database
  imports Tables
begin

text \<open>
  The schema \<open>cadns\<close> of \<open>db/migrations\<close> as the services see it: one record type per table,
  the database as the record of its tables, and the integrity constraints (CHECK, UNIQUE,
  REFERENCES) as predicates. A statement that would break a constraint is an error value
  of type \<open>db_error\<close>, as psycopg raises it. Sets of column values become enumerations:
  a domain status, a record type, a queue reason and a queue state.

  Text columns under collation C and Python strings are ordered by code point; both are
  \<open>string\<close> under the lexicographic order. An address is the canonical text of an \<open>inet\<close> host
  address, as \<open>host(address)\<close> prints it. The time zone of the session is UTC. The column
  \<open>country\<close> is a \<open>char(2)\<close>: a longer value is refused (the padding of a shorter one is not
  modelled).
\<close>

section \<open>Rows\<close>

datatype status = Pending | Resolved | Nxdomain | Nodata | Failed
datatype rtype = RT_A | RT_AAAA
datatype reason = Miss | Expired
datatype qstate = QPending | QDead

record settings_row =
  answer_k :: nat
  max_answer_ttl :: int
  ns_name :: string
  hostmaster :: string
  min_record_ttl :: int

record domain_row =
  d_id :: nat
  d_name :: string
  d_status :: status
  d_first_seen_at :: timestamp
  d_measured_at :: "timestamp option"
  d_last_queried_at :: "timestamp option"
  d_hit_count :: int
  d_retry_after :: "timestamp option"

record region_row =
  g_code :: string
  g_name :: "string option"
  g_provider :: string

record signal_row =
  s_region_code :: string
  s_point_time :: timestamp
  s_moer :: rat
  s_fetched_at :: timestamp

text \<open>Both the row of \<open>cadns.endpoints\<close> and the dataclass \<open>Endpoint\<close> of the worker.\<close>

record endpoint =
  e_address :: string
  e_lat :: "rat option"
  e_lon :: "rat option"
  e_city :: "string option"
  e_country :: "string option"
  e_asn :: "int option"
  e_is_anycast :: bool
  e_region_code :: "string option"
  e_geo_source :: "string option"
  e_geo_updated_at :: "timestamp option"

record rrset_row =
  r_domain_id :: nat
  r_rtype :: rtype
  r_address :: string
  r_resolver :: string
  r_ttl :: int
  r_resolved_at :: timestamp
  r_expires_at :: timestamp

record queue_row =
  q_domain :: string
  q_reason :: reason
  q_state :: qstate
  q_enqueued_at :: timestamp
  q_attempts :: int
  q_next_attempt_at :: timestamp
  q_locked_by :: "string option"
  q_locked_at :: "timestamp option"
  q_last_error :: "string option"

record location_row =
  l_provider :: string
  l_lat_e2 :: int
  l_lon_e2 :: int
  l_region_code :: "string option"
  l_looked_up_at :: timestamp

text \<open>
  \<open>next_domain_id\<close> is the identity sequence of \<open>domains.id\<close>; \<open>notifications\<close> counts the
  committed notifications on the queue channel.
\<close>

record db =
  settings :: settings_row
  domains :: "domain_row list"
  next_domain_id :: nat
  grid_regions :: "region_row list"
  carbon_signals :: "signal_row list"
  endpoints :: "endpoint list"
  rrset_records :: "rrset_row list"
  measurement_queue :: "queue_row list"
  location_regions :: "location_row list"
  notifications :: nat

datatype db_error =
  CheckViolation | UniqueViolation | ForeignKeyViolation | DataError | OperationalError

definition default_settings :: settings_row where
  "default_settings = \<lparr>answer_k = 1, max_answer_ttl = 300, ns_name = ''ns.cadns.invalid.'',
     hostmaster = ''hostmaster.cadns.invalid.'', min_record_ttl = 0\<rparr>"

text \<open>The database after the migrations.\<close>

definition empty_db :: db where
  "empty_db = \<lparr>settings = default_settings, domains = [], next_domain_id = 1, grid_regions = [],
     carbon_signals = [], endpoints = [], rrset_records = [], measurement_queue = [],
     location_regions = [], notifications = 0\<rparr>"

section \<open>Names and addresses\<close>

definition normalize_name :: "string \<Rightarrow> string" where
  "normalize_name name = lower (rtrim (CHR ''.'') name)"

definition canonical :: "string \<Rightarrow> bool" where
  "canonical name \<longleftrightarrow> name = normalize_name name"

text \<open>\<open>family(address)\<close>: only the text of an IPv6 address has a colon.\<close>

definition family :: "string \<Rightarrow> nat" where
  "family address = (if CHR '':'' \<in> set address then 6 else 4)"

lemma rtrim_append_dot [simp]: "rtrim c (s @ [c]) = rtrim c s"
  by simp

lemma rtrim_no_final: "s = [] \<or> last s \<noteq> c \<Longrightarrow> rtrim c s = s"
  by (cases s rule: rev_cases) auto

lemma last_rtrim: "rtrim c s = [] \<or> last (rtrim c s) \<noteq> c"
  by (induction s rule: rev_induct) auto

lemma last_lower_dot: "s \<noteq> [] \<Longrightarrow> last (lower s) = CHR ''.'' \<longleftrightarrow> last s = CHR ''.''"
  by (simp add: lower_def last_map lower_char_dot_iff)

lemma canonical_iff:
  "canonical name \<longleftrightarrow> lower name = name \<and> (name = [] \<or> last name \<noteq> CHR ''.'')"
proof
  assume c: "canonical name"
  then have "lower name = name" by (metis canonical_def normalize_name_def lower_idem)
  moreover have "name = [] \<or> last name \<noteq> CHR ''.''"
    using c last_rtrim [of "CHR ''.''" name] last_lower_dot [of "rtrim (CHR ''.'') name"]
    by (metis canonical_def normalize_name_def lower_Nil_iff)
  ultimately show "lower name = name \<and> (name = [] \<or> last name \<noteq> CHR ''.'')" by simp
next
  assume "lower name = name \<and> (name = [] \<or> last name \<noteq> CHR ''.'')"
  then show "canonical name" by (metis canonical_def normalize_name_def rtrim_no_final)
qed

lemma canonical_normalize_name: "canonical (normalize_name s)"
  using last_rtrim [of "CHR ''.''" s] last_lower_dot [of "rtrim (CHR ''.'') s"]
  by (auto simp: canonical_iff normalize_name_def simp del: rtrim.simps)

section \<open>Integrity\<close>

definition domain_ok :: "domain_row \<Rightarrow> bool" where
  "domain_ok d \<longleftrightarrow> d_name d \<noteq> [] \<and> canonical (d_name d) \<and> 0 \<le> d_hit_count d"

definition domains_ok :: "db \<Rightarrow> bool" where
  "domains_ok db \<longleftrightarrow> unique_key d_id (domains db) \<and> unique_key d_name (domains db) \<and>
     (\<forall>d \<in> set (domains db). domain_ok d \<and> d_id d < next_domain_id db)"

definition signals_ok :: "db \<Rightarrow> bool" where
  "signals_ok db \<longleftrightarrow>
     unique_key (\<lambda>s. (s_region_code s, s_point_time s)) (carbon_signals db) \<and>
     (\<forall>s \<in> set (carbon_signals db). 0 \<le> s_moer s \<and> s_region_code s \<in> g_code ` set (grid_regions db))"

definition endpoint_ok :: "endpoint \<Rightarrow> bool" where
  "endpoint_ok e \<longleftrightarrow>
     (case e_lat e of None \<Rightarrow> True | Some lat \<Rightarrow> -90 \<le> lat \<and> lat \<le> 90) \<and>
     (case e_lon e of None \<Rightarrow> True | Some lon \<Rightarrow> -180 \<le> lon \<and> lon \<le> 180) \<and>
     (case e_asn e of None \<Rightarrow> True | Some n \<Rightarrow> 0 \<le> n \<and> n \<le> 4294967295) \<and>
     (case e_geo_source e of None \<Rightarrow> True
      | Some src \<Rightarrow> src \<in> {''ipinfo_mmdb'', ''ipinfo_api'', ''manual''}) \<and>
     (e_lat e = None \<longleftrightarrow> e_lon e = None) \<and>
     (case e_country e of None \<Rightarrow> True | Some c \<Rightarrow> length c \<le> 2)"

definition region_known :: "db \<Rightarrow> string option \<Rightarrow> bool" where
  "region_known db c \<longleftrightarrow> (case c of None \<Rightarrow> True | Some code \<Rightarrow> code \<in> g_code ` set (grid_regions db))"

lemma region_known_cong: "grid_regions db' = grid_regions db \<Longrightarrow> region_known db' = region_known db"
  by (auto simp: region_known_def fun_eq_iff split: option.split)

definition endpoints_ok :: "db \<Rightarrow> bool" where
  "endpoints_ok db \<longleftrightarrow> unique_key e_address (endpoints db) \<and>
     (\<forall>e \<in> set (endpoints db). endpoint_ok e \<and> region_known db (e_region_code e))"

definition rrset_key :: "rrset_row \<Rightarrow> nat \<times> rtype \<times> string \<times> string" where
  "rrset_key r = (r_domain_id r, r_rtype r, r_address r, r_resolver r)"

definition family_ok :: "rtype \<Rightarrow> string \<Rightarrow> bool" where
  "family_ok t address \<longleftrightarrow> (case t of RT_A \<Rightarrow> family address = 4 | RT_AAAA \<Rightarrow> family address = 6)"

definition rrset_ok :: "rrset_row \<Rightarrow> bool" where
  "rrset_ok r \<longleftrightarrow> 0 \<le> r_ttl r \<and> r_resolved_at r \<le> r_expires_at r \<and> family_ok (r_rtype r) (r_address r)"

definition records_ok :: "db \<Rightarrow> bool" where
  "records_ok db \<longleftrightarrow> unique_key rrset_key (rrset_records db) \<and>
     (\<forall>r \<in> set (rrset_records db). rrset_ok r \<and>
        r_domain_id r \<in> d_id ` set (domains db) \<and> r_address r \<in> e_address ` set (endpoints db))"

definition job_row_ok :: "queue_row \<Rightarrow> bool" where
  "job_row_ok r \<longleftrightarrow> canonical (q_domain r) \<and> 0 \<le> q_attempts r \<and>
     (q_locked_by r = None \<longleftrightarrow> q_locked_at r = None)"

definition queue_ok :: "db \<Rightarrow> bool" where
  "queue_ok db \<longleftrightarrow> unique_key q_domain (measurement_queue db) \<and>
     (\<forall>r \<in> set (measurement_queue db). job_row_ok r)"

definition location_key_of :: "location_row \<Rightarrow> string \<times> int \<times> int" where
  "location_key_of l = (l_provider l, l_lat_e2 l, l_lon_e2 l)"

definition locations_ok :: "db \<Rightarrow> bool" where
  "locations_ok db \<longleftrightarrow> unique_key location_key_of (location_regions db) \<and>
     (\<forall>l \<in> set (location_regions db).
        -9000 \<le> l_lat_e2 l \<and> l_lat_e2 l \<le> 9000 \<and> -18000 \<le> l_lon_e2 l \<and> l_lon_e2 l \<le> 18000 \<and>
        region_known db (l_region_code l))"

definition settings_ok :: "db \<Rightarrow> bool" where
  "settings_ok db \<longleftrightarrow> 1 \<le> answer_k (settings db) \<and> 1 \<le> max_answer_ttl (settings db) \<and>
     0 \<le> min_record_ttl (settings db) \<and> min_record_ttl (settings db) \<le> 86400 \<and>
     ns_name (settings db) \<noteq> [] \<and> last (ns_name (settings db)) = CHR ''.'' \<and>
     hostmaster (settings db) \<noteq> [] \<and> last (hostmaster (settings db)) = CHR ''.''"

text \<open>All constraints of the schema together.\<close>

definition db_ok :: "db \<Rightarrow> bool" where
  "db_ok db \<longleftrightarrow> settings_ok db \<and> domains_ok db \<and> unique_key g_code (grid_regions db) \<and>
     signals_ok db \<and> endpoints_ok db \<and> records_ok db \<and> queue_ok db \<and> locations_ok db"

lemmas integrity_defs = db_ok_def settings_ok_def domains_ok_def signals_ok_def endpoints_ok_def
  records_ok_def queue_ok_def locations_ok_def

lemma empty_db_ok: "db_ok empty_db"
  by (simp add: integrity_defs empty_db_def default_settings_def)


section \<open>Inserting domains\<close>

text \<open>
  \<open>INSERT INTO cadns.domains ... ON CONFLICT (name) DO UPDATE\<close>: the identity column takes the
  next value for every row proposed for insertion, whether or not it ends in the update.
  The numbers that a rolled-back statement skips are not modelled.
\<close>

definition upsert_domain :: "(nat \<Rightarrow> domain_row) \<Rightarrow> (domain_row \<Rightarrow> domain_row) \<Rightarrow> db \<Rightarrow> db" where
  "upsert_domain new f db =
     db\<lparr>domains := upsert d_name (new (next_domain_id db)) f (domains db),
        next_domain_id := next_domain_id db + 1\<rparr>"

text \<open>What a domain row says, apart from its surrogate key.\<close>

definition about :: "db \<Rightarrow> string \<Rightarrow> domain_row option" where
  "about db name = map_option (\<lambda>d. d\<lparr>d_id := 0\<rparr>) (find_row d_name name (domains db))"

lemma upsert_domain_fields [simp]:
  "settings (upsert_domain new f db) = settings db"
  "grid_regions (upsert_domain new f db) = grid_regions db"
  "carbon_signals (upsert_domain new f db) = carbon_signals db"
  "endpoints (upsert_domain new f db) = endpoints db"
  "rrset_records (upsert_domain new f db) = rrset_records db"
  "measurement_queue (upsert_domain new f db) = measurement_queue db"
  "location_regions (upsert_domain new f db) = location_regions db"
  "notifications (upsert_domain new f db) = notifications db"
  by (simp_all add: upsert_domain_def)

lemma find_upsert_domain:
  assumes "\<And>d. d_name (f d) = d_name d" and "\<And>i. d_name (new i) = name"
  shows "find_row d_name k (domains (upsert_domain new f db)) =
    (if k = name then Some (case find_row d_name name (domains db) of
        None \<Rightarrow> new (next_domain_id db) | Some d \<Rightarrow> f d)
     else find_row d_name k (domains db))"
  using assms by (simp add: upsert_domain_def find_row_upsert)

lemma ids_upsert_domain:
  assumes "\<And>d. d_id (f d) = d_id d"
  shows "d_id ` set (domains db) \<subseteq> d_id ` set (domains (upsert_domain new f db))"
  using assms by (auto simp: upsert_domain_def upsert_def keys_update_where)

lemma domains_ok_upsert_domain:
  assumes "domains_ok db" and "\<And>i. d_id (new i) = i" and "\<And>i. domain_ok (new i)"
    and "\<And>d. d_id (f d) = d_id d \<and> d_name (f d) = d_name d \<and> d_hit_count (f d) = d_hit_count d"
  shows "domains_ok (upsert_domain new f db)"
proof -
  let ?t = "domains db" and ?n = "new (next_domain_id db)"
  have fresh: "next_domain_id db \<notin> d_id ` set ?t"
    using assms(1) by (auto simp: domains_ok_def)
  have keep: "\<And>d. d_id (f d) = d_id d" "\<And>d. d_name (f d) = d_name d"
    and ids: "unique_key d_id ?t" and names: "unique_key d_name ?t"
    using assms(1,4) by (simp_all add: domains_ok_def)
  have "unique_key d_id (upsert d_name ?n f ?t)"
    using ids fresh assms(2) unfolding upsert_def
    by (simp add: unique_key_update_where keep) (simp add: unique_key_def)
  moreover have "unique_key d_name (upsert d_name ?n f ?t)"
    using names by (intro unique_key_upsert keep)
  moreover have "domain_ok d \<and> d_id d < next_domain_id db + 1" if "d \<in> set (upsert d_name ?n f ?t)" for d
  proof -
    have "d \<in> insert ?n (set ?t \<union> f ` set ?t)"
      using that by (rule set_upsert_subset [THEN subsetD])
    then consider "d = ?n" | d' where "d' \<in> set ?t" "d = d' \<or> d = f d'" by blast
    then show ?thesis
    proof cases
      case 1
      then show ?thesis using assms(2,3) by simp
    next
      case 2
      then have "domain_ok d'" "d_id d' < next_domain_id db" using assms(1) by (auto simp: domains_ok_def)
      moreover have "domain_ok d = domain_ok d'" "d_id d = d_id d'"
        using 2(2) assms(4) [of d'] by (auto simp: domain_ok_def)
      ultimately show ?thesis by simp
    qed
  qed
  ultimately show ?thesis by (simp add: domains_ok_def upsert_domain_def)
qed

end
