(* ===== verification/Queue_Pg.thy ===== *)
theory Queue_Pg
  imports Database
begin

text \<open>
  The measurement queue (\<open>queue/pg.py\<close>): its policy and its five operations on
  \<open>cadns.measurement_queue\<close>. Every operation runs at a time \<open>now\<close>, the transaction
  timestamp. \<open>FOR UPDATE SKIP LOCKED\<close> makes \<open>claim\<close> pass over the rows that concurrent
  transactions hold at that moment: their domains are the argument \<open>busy\<close>.

  The locale \<open>leased_queue\<close> is what the services rely on: a claimed job stays with its
  worker until that worker gives it up or the lock times out, whatever anyone else does.
  It is interpreted on the operations below, interleaved in any order.
\<close>

section \<open>Policy and jobs\<close>

record Job =
  j_domain :: string
  j_reason :: reason
  j_attempts :: int

record QueuePolicy =
  lock_timeout_seconds :: int
  max_attempts :: int
  retry_base_seconds :: int
  retry_max_seconds :: int
  dead_cooldown_seconds :: int

definition default_policy :: QueuePolicy where
  "default_policy = \<lparr>lock_timeout_seconds = 300, max_attempts = 5, retry_base_seconds = 30,
     retry_max_seconds = 3600, dead_cooldown_seconds = 86400\<rparr>"

definition retry_delay :: "QueuePolicy \<Rightarrow> int \<Rightarrow> int" where
  "retry_delay policy attempts =
     min (retry_max_seconds policy) (retry_base_seconds policy * 2 ^ nat (max 0 (attempts - 1)))"

section \<open>Operations\<close>

definition new_job :: "timestamp \<Rightarrow> reason \<Rightarrow> string \<Rightarrow> queue_row" where
  "new_job now reason domain =
     \<lparr>q_domain = domain, q_reason = reason, q_state = QPending, q_enqueued_at = now,
      q_attempts = 0, q_next_attempt_at = now, q_locked_by = None, q_locked_at = None,
      q_last_error = None\<rparr>"

text \<open>The WHERE of the conflict update: a dead row whose cooldown has passed.\<close>

definition revivable :: "timestamp \<Rightarrow> queue_row \<Rightarrow> bool" where
  "revivable now r \<longleftrightarrow> q_state r = QDead \<and> q_next_attempt_at r \<le> now"

definition revive :: "timestamp \<Rightarrow> reason \<Rightarrow> queue_row \<Rightarrow> queue_row" where
  "revive now reason r =
     (if revivable now r
      then r\<lparr>q_state := QPending, q_reason := reason, q_attempts := 0, q_enqueued_at := now,
             q_next_attempt_at := now, q_last_error := None, q_locked_by := None,
             q_locked_at := None\<rparr>
      else r)"

definition enqueue ::
  "timestamp \<Rightarrow> string list \<Rightarrow> reason \<Rightarrow> db \<Rightarrow> db_error + (string list \<times> db)" where
  "enqueue now names reason db =
     (let ds = sorted_list_of_set (set names) in
      if ds = [] then Inr ([], db)
      else if \<exists>d \<in> set ds. \<not> canonical d then Inl CheckViolation
      else
        let rows = measurement_queue db;
            queued = filter (\<lambda>d. case find_row q_domain d rows of
                                   None \<Rightarrow> True | Some r \<Rightarrow> revivable now r) ds;
            rows' = fold (\<lambda>d. upsert q_domain (new_job now reason d) (revive now reason)) ds rows;
            db' = db\<lparr>measurement_queue := rows'\<rparr>
        in Inr (queued,
                if queued = [] then db' else db'\<lparr>notifications := notifications db + 1\<rparr>))"

definition ready :: "timestamp \<Rightarrow> QueuePolicy \<Rightarrow> queue_row \<Rightarrow> bool" where
  "ready now policy r \<longleftrightarrow> q_state r = QPending \<and> q_next_attempt_at r \<le> now \<and>
     (case q_locked_at r of None \<Rightarrow> True | Some t \<Rightarrow> t < now - secs (lock_timeout_seconds policy))"

definition pick :: "timestamp \<Rightarrow> int \<Rightarrow> QueuePolicy \<Rightarrow> string set \<Rightarrow> queue_row list \<Rightarrow> queue_row list" where
  "pick now limit policy busy rows =
     take (nat limit)
       (sort_key q_enqueued_at (filter (\<lambda>r. ready now policy r \<and> q_domain r \<notin> busy) rows))"

definition claim_row :: "timestamp \<Rightarrow> string \<Rightarrow> queue_row \<Rightarrow> queue_row" where
  "claim_row now worker r =
     r\<lparr>q_locked_by := Some worker, q_locked_at := Some now, q_attempts := q_attempts r + 1\<rparr>"

definition job_of :: "queue_row \<Rightarrow> Job" where
  "job_of r = \<lparr>j_domain = q_domain r, j_reason = q_reason r, j_attempts = q_attempts r\<rparr>"

definition claim ::
  "timestamp \<Rightarrow> string \<Rightarrow> int \<Rightarrow> QueuePolicy \<Rightarrow> string set \<Rightarrow> db \<Rightarrow> Job list \<times> db" where
  "claim now worker limit policy busy db =
     (if limit \<le> 0 then ([], db)
      else
        let rows = measurement_queue db;
            picked = pick now limit policy busy rows;
            chosen = (\<lambda>r. q_domain r \<in> set (map q_domain picked));
            rows' = update_where chosen (claim_row now worker) rows
        in (sort_key j_domain (map job_of (filter chosen rows')), db\<lparr>measurement_queue := rows'\<rparr>))"

definition owned :: "Job \<Rightarrow> string \<Rightarrow> queue_row \<Rightarrow> bool" where
  "owned job worker r \<longleftrightarrow> q_domain r = j_domain job \<and> q_locked_by r = Some worker"

definition complete :: "Job \<Rightarrow> string \<Rightarrow> db \<Rightarrow> db" where
  "complete job worker db =
     db\<lparr>measurement_queue := delete_where (owned job worker) (measurement_queue db)\<rparr>"

definition fail ::
  "timestamp \<Rightarrow> Job \<Rightarrow> string \<Rightarrow> string \<Rightarrow> QueuePolicy \<Rightarrow> db \<Rightarrow> qstate \<times> db" where
  "fail now job worker err policy db =
     (let dead = j_attempts job \<ge> max_attempts policy;
          delay = (if dead then dead_cooldown_seconds policy else retry_delay policy (j_attempts job));
          state = (if dead then QDead else QPending)
      in (state, db\<lparr>measurement_queue := update_where (owned job worker)
            (\<lambda>r. r\<lparr>q_state := state, q_next_attempt_at := now + secs delay,
                   q_last_error := Some (take 1000 err), q_locked_by := None, q_locked_at := None\<rparr>)
            (measurement_queue db)\<rparr>))"

definition release :: "Job \<Rightarrow> string \<Rightarrow> db \<Rightarrow> db" where
  "release job worker db =
     db\<lparr>measurement_queue := update_where (owned job worker)
          (\<lambda>r. r\<lparr>q_locked_by := None, q_locked_at := None, q_attempts := max 0 (q_attempts r - 1)\<rparr>)
          (measurement_queue db)\<rparr>"

section \<open>Enqueueing\<close>

interpretation enqueue_rows: keyed_rows q_domain "\<lambda>d. d" "new_job now reason"
  "\<lambda>_. revive now reason" for now reason
  by unfold_locales (simp_all add: new_job_def revive_def)

lemma new_job_ok: "canonical d \<Longrightarrow> job_row_ok (new_job now reason d)"
  by (simp add: job_row_ok_def new_job_def)

lemma revive_ok: "job_row_ok r \<Longrightarrow> job_row_ok (revive now reason r)"
  by (simp add: job_row_ok_def revive_def)

lemma enqueue_InrE:
  assumes "enqueue now names reason db = Inr (queued, db')"
  obtains "set names = {}" "queued = []" "db' = db"
  | "set names \<noteq> {}" "\<forall>d \<in> set names. canonical d"
    "queued = filter (\<lambda>d. case find_row q_domain d (measurement_queue db) of
        None \<Rightarrow> True | Some r \<Rightarrow> revivable now r) (sorted_list_of_set (set names))"
    "measurement_queue db' = fold (\<lambda>d. upsert q_domain (new_job now reason d) (revive now reason))
        (sorted_list_of_set (set names)) (measurement_queue db)"
    "db' = db\<lparr>measurement_queue := measurement_queue db',
              notifications := notifications db + (if queued = [] then 0 else 1)\<rparr>"
  using assms by (auto simp: enqueue_def Let_def split: if_splits)

lemma enqueue_total:
  "\<forall>d \<in> set names. canonical d \<Longrightarrow> \<exists>queued db'. enqueue now names reason db = Inr (queued, db')"
  by (cases "names = []") (simp_all add: enqueue_def Let_def)

lemma enqueue_frame:
  assumes "enqueue now names reason db = Inr (queued, db')"
  shows "settings db' = settings db \<and> domains db' = domains db \<and>
    next_domain_id db' = next_domain_id db \<and> grid_regions db' = grid_regions db \<and>
    carbon_signals db' = carbon_signals db \<and> endpoints db' = endpoints db \<and>
    rrset_records db' = rrset_records db \<and> location_regions db' = location_regions db"
  using assms by (auto simp: enqueue_def Let_def split: if_splits)

lemma enqueue_look:
  assumes "enqueue now names reason db = Inr (queued, db')" and "queue_ok db"
  shows "find_row q_domain d (measurement_queue db') =
    (if d \<in> set names
     then Some (case find_row q_domain d (measurement_queue db) of
                  None \<Rightarrow> new_job now reason d | Some r \<Rightarrow> revive now reason r)
     else find_row q_domain d (measurement_queue db))"
  using assms(1)
proof (cases rule: enqueue_InrE)
  case 1
  then show ?thesis by simp
next
  case 2
  have u: "unique_key q_domain (measurement_queue db)" using assms(2) by (simp add: queue_ok_def)
  let ?ds = "sorted_list_of_set (set names)"
  show ?thesis
  proof (cases "d \<in> set names")
    case True
    then show ?thesis
      using 2 enqueue_rows.look_fold_put_mem [OF u, of ?ds d now reason] by simp
  next
    case False
    then show ?thesis
      using 2 enqueue_rows.look_fold_put_other [OF u, of d ?ds now reason] by simp
  qed
qed

lemma enqueue_queue_ok:
  assumes "enqueue now names reason db = Inr (queued, db')" and "queue_ok db"
  shows "queue_ok db'"
  using assms(1)
proof (cases rule: enqueue_InrE)
  case 1
  then show ?thesis using assms(2) by simp
next
  case 2
  have "unique_key q_domain (measurement_queue db')"
    using assms(2) 2 by (simp add: queue_ok_def enqueue_rows.invar_fold_put)
  moreover have "\<forall>r \<in> set (measurement_queue db'). job_row_ok r"
    unfolding "2"(4) using assms(2) "2"(2)
    by (intro enqueue_rows.rows_fold_put) (auto simp: queue_ok_def new_job_ok revive_ok)
  ultimately show ?thesis by (simp add: queue_ok_def)
qed




section \<open>Claiming\<close>

lemma set_pick_subset:
  "set (pick now limit policy busy rows) \<subseteq> {r \<in> set rows. ready now policy r \<and> q_domain r \<notin> busy}"
  by (auto simp: pick_def dest: in_set_takeD)

lemma claim_rows:
  assumes "claim now worker limit policy busy db = (jobs, db')" and "0 < limit"
  shows "measurement_queue db' =
    update_where (\<lambda>r. q_domain r \<in> q_domain ` set (pick now limit policy busy (measurement_queue db)))
      (claim_row now worker) (measurement_queue db)"
  using assms by (auto simp: claim_def Let_def)

lemma claim_frame:
  "claim now worker limit policy busy db = (jobs, db') \<Longrightarrow>
   db' = db\<lparr>measurement_queue := measurement_queue db'\<rparr>"
  by (auto simp: claim_def Let_def split: if_splits)

lemma q_domain_claim_row [simp]: "q_domain (claim_row now worker r) = q_domain r"
  by (simp add: claim_row_def)

lemma picked_iff:
  assumes "unique_key q_domain rows" and "r \<in> set rows"
  shows "q_domain r \<in> q_domain ` set (pick now limit policy busy rows) \<longleftrightarrow>
    r \<in> set (pick now limit policy busy rows)"
  using assms set_pick_subset [of now limit policy busy rows] by (auto dest: unique_keyD)

lemma claim_jobs:
  assumes "claim now worker limit policy busy db = (jobs, db')" and "queue_ok db"
  shows "set jobs = (if 0 < limit
    then (\<lambda>r. job_of (claim_row now worker r)) ` set (pick now limit policy busy (measurement_queue db))
    else {})"
proof (cases "0 < limit")
  case True
  let ?rows = "measurement_queue db" and ?p = "pick now limit policy busy (measurement_queue db)"
  have u: "unique_key q_domain ?rows" using assms(2) by (simp add: queue_ok_def)
  let ?chosen = "\<lambda>r. q_domain r \<in> q_domain ` set ?p"
  have "filter ?chosen (update_where ?chosen (claim_row now worker) ?rows) =
      map (claim_row now worker) (filter ?chosen ?rows)"
    by (rule filter_update_where) simp
  then have "set jobs = (\<lambda>r. job_of (claim_row now worker r)) `
      {r \<in> set ?rows. q_domain r \<in> q_domain ` set ?p}"
    using assms(1) True by (auto simp: claim_def Let_def image_image)
  also have "{r \<in> set ?rows. q_domain r \<in> q_domain ` set ?p} = set ?p"
    using picked_iff [OF u] set_pick_subset [of now limit policy busy ?rows] by blast
  finally show ?thesis using True by simp
next
  case False
  then show ?thesis using assms(1) by (simp add: claim_def)
qed

lemma claim_look:
  assumes "claim now worker limit policy busy db = (jobs, db')" and "queue_ok db"
  shows "find_row q_domain d (measurement_queue db') =
    map_option (\<lambda>r. if d \<in> j_domain ` set jobs then claim_row now worker r else r)
      (find_row q_domain d (measurement_queue db))"
proof (cases "0 < limit")
  case True
  let ?p = "pick now limit policy busy (measurement_queue db)"
  have "j_domain ` set jobs = q_domain ` set ?p"
    using claim_jobs [OF assms] True by (simp add: image_image job_of_def)
  then show ?thesis
    by (cases "find_row q_domain d (measurement_queue db)")
       (auto simp: claim_rows [OF assms(1) True] find_row_update_where dest: find_row_SomeD)
next
  case False
  then show ?thesis using assms(1) by (auto simp: claim_def map_option.identity option.map_ident)
qed


lemma claim_length:
  assumes "claim now worker limit policy busy db = (jobs, db')" and "queue_ok db" and "0 < limit"
  shows "length jobs = length (pick now limit policy busy (measurement_queue db))"
proof -
  let ?rows = "measurement_queue db" and ?p = "pick now limit policy busy (measurement_queue db)"
  let ?chosen = "\<lambda>r. q_domain r \<in> q_domain ` set ?p"
  have u: "unique_key q_domain ?rows" using assms(2) by (simp add: queue_ok_def)
  then have d: "distinct ?rows" by (auto simp: unique_key_def distinct_map)
  have "filter ?chosen (update_where ?chosen (claim_row now worker) ?rows) =
      map (claim_row now worker) (filter ?chosen ?rows)"
    by (rule filter_update_where) simp
  then have "length jobs = length (filter ?chosen ?rows)"
    using assms(1,3) by (auto simp: claim_def Let_def)
  also have "\<dots> = card (set (filter ?chosen ?rows))"
    using d by (metis distinct_card distinct_filter)
  also have "set (filter ?chosen ?rows) = set ?p"
    unfolding set_filter
    using picked_iff [OF u] set_pick_subset [of now limit policy busy ?rows] by blast
  also have "card (set ?p) = length ?p"
    using d by (simp add: pick_def distinct_card)
  finally show ?thesis .
qed




section \<open>Finishing a job\<close>

lemma complete_look:
  "queue_ok db \<Longrightarrow> find_row q_domain d (measurement_queue (complete job worker db)) =
     (case find_row q_domain d (measurement_queue db) of
        None \<Rightarrow> None | Some r \<Rightarrow> if owned job worker r then None else Some r)"
  by (simp add: complete_def find_row_delete_where queue_ok_def)

lemma fail_look:
  "find_row q_domain d (measurement_queue (snd (fail now job worker err policy db))) =
     map_option (\<lambda>r. if owned job worker r
        then r\<lparr>q_state := (if j_attempts job \<ge> max_attempts policy then QDead else QPending),
               q_next_attempt_at := now + secs (if j_attempts job \<ge> max_attempts policy
                 then dead_cooldown_seconds policy else retry_delay policy (j_attempts job)),
               q_last_error := Some (take 1000 err), q_locked_by := None, q_locked_at := None\<rparr>
        else r) (find_row q_domain d (measurement_queue db))"
  by (simp add: fail_def Let_def find_row_update_where)

lemma release_look:
  "find_row q_domain d (measurement_queue (release job worker db)) =
     map_option (\<lambda>r. if owned job worker r
        then r\<lparr>q_locked_by := None, q_locked_at := None, q_attempts := max 0 (q_attempts r - 1)\<rparr>
        else r) (find_row q_domain d (measurement_queue db))"
  by (simp add: release_def find_row_update_where)

lemmas queue_look = enqueue_look claim_look complete_look fail_look release_look

section \<open>Leases under interleaving\<close>

text \<open>
  A client of the queue sees a lease: who holds the job of a domain, since when. The contract
  says that an operation which is not the holder's own \<open>complete\<close>, \<open>fail\<close> or \<open>release\<close> of
  that domain, and not a claim made after the lease ran out, leaves the lease alone; and that
  a claim takes only what is free or has run out, and then holds it.
\<close>

locale leased_queue =
  fixes invar :: "'q \<Rightarrow> bool"
    and holder :: "'q \<Rightarrow> 'k \<Rightarrow> ('w \<times> int) option"
    and act :: "'op \<Rightarrow> 'q \<Rightarrow> 'q"
    and claimed :: "'op \<Rightarrow> 'q \<Rightarrow> 'k set"
    and claims_at :: "'op \<Rightarrow> ('w \<times> int) option"
    and gives_up :: "'op \<Rightarrow> 'w \<Rightarrow> 'k \<Rightarrow> bool"
    and lease :: int
  assumes invar_act: "invar q \<Longrightarrow> invar (act x q)"
    and claimed_some: "k \<in> claimed x q \<Longrightarrow> claims_at x \<noteq> None"
    and holder_claimed: "invar q \<Longrightarrow> k \<in> claimed x q \<Longrightarrow> holder (act x q) k = claims_at x"
    and claimed_free: "invar q \<Longrightarrow> k \<in> claimed x q \<Longrightarrow> claims_at x = Some (w, t) \<Longrightarrow>
      holder q k = Some (v, s) \<Longrightarrow> s + lease < t"
    and holder_kept: "invar q \<Longrightarrow> holder q k = Some (w, t) \<Longrightarrow> \<not> gives_up x w k \<Longrightarrow>
      k \<notin> claimed x q \<Longrightarrow> holder (act x q) k = Some (w, t)"
begin

definition on_time :: "int \<Rightarrow> 'op \<Rightarrow> bool" where
  "on_time latest x \<longleftrightarrow> (\<forall>w t. claims_at x = Some (w, t) \<longrightarrow> t \<le> latest)"

lemma invar_run: "invar q \<Longrightarrow> invar (fold act ops q)"
  by (induction ops arbitrary: q) (auto intro: invar_act)

lemma not_claimed_on_time:
  "invar q \<Longrightarrow> holder q k = Some (w, t) \<Longrightarrow> on_time (t + lease) x \<Longrightarrow> k \<notin> claimed x q"
proof
  assume "invar q" "holder q k = Some (w, t)" "on_time (t + lease) x" "k \<in> claimed x q"
  moreover from this obtain w' t' where "claims_at x = Some (w', t')"
    using claimed_some [of k x q] by (metis option.exhaust surj_pair)
  ultimately show False using claimed_free by (fastforce simp: on_time_def)
qed

lemma lease_run:
  "invar q \<Longrightarrow> holder q k = Some (w, t) \<Longrightarrow>
   \<forall>x \<in> set ops. \<not> gives_up x w k \<and> on_time (t + lease) x \<Longrightarrow>
   holder (fold act ops q) k = Some (w, t)"
proof (induction ops arbitrary: q)
  case (Cons x ops)
  then have "holder (act x q) k = Some (w, t)"
    by (intro holder_kept not_claimed_on_time) auto
  with Cons show ?case by (simp add: invar_act)
qed simp

lemma lease_exclusive:
  assumes "invar q" and "k \<in> claimed x q" and "claims_at x = Some (w, t)"
    and "\<forall>y \<in> set ops. \<not> gives_up y w k \<and> on_time (t + lease) y"
    and "on_time (t + lease) y"
  shows "k \<notin> claimed y (fold act ops (act x q))"
  using assms by (intro not_claimed_on_time [where w = w and t = t] lease_run invar_run)
    (auto simp: invar_act holder_claimed)

end


subsection \<open>The invariant of the queue\<close>

text \<open>
  Beyond the constraints of the schema: a dead row is not locked, and a locked row has at
  least one attempt, the one being made.
\<close>

definition lease_ok :: "queue_row \<Rightarrow> bool" where
  "lease_ok r \<longleftrightarrow> (q_state r = QDead \<longrightarrow> q_locked_by r = None) \<and>
     (q_locked_by r \<noteq> None \<longrightarrow> 1 \<le> q_attempts r)"

definition queue_inv :: "db \<Rightarrow> bool" where
  "queue_inv db \<longleftrightarrow> queue_ok db \<and> (\<forall>r \<in> set (measurement_queue db). lease_ok r)"

lemma queue_inv_update_where:
  assumes "queue_inv db" and "\<And>r. P r \<Longrightarrow> q_domain (f r) = q_domain r"
    and "\<And>r. r \<in> set (measurement_queue db) \<Longrightarrow> P r \<Longrightarrow> job_row_ok r \<Longrightarrow> lease_ok r \<Longrightarrow>
      job_row_ok (f r) \<and> lease_ok (f r)"
  shows "queue_inv (db\<lparr>measurement_queue := update_where P f (measurement_queue db)\<rparr>)"
  using assms by (auto simp: queue_inv_def queue_ok_def unique_key_update_where set_update_where)

lemma queue_inv_delete_where:
  "queue_inv db \<Longrightarrow> queue_inv (db\<lparr>measurement_queue := delete_where P (measurement_queue db)\<rparr>)"
  by (auto simp: queue_inv_def queue_ok_def unique_key_delete_where set_delete_where)

lemma enqueue_queue_inv:
  assumes "enqueue now names reason db = Inr (queued, db')" and "queue_inv db"
  shows "queue_inv db'"
proof -
  have "\<forall>r \<in> set (measurement_queue db'). lease_ok r"
    using assms(1)
  proof (cases rule: enqueue_InrE)
    case 1
    then show ?thesis using assms(2) by (simp add: queue_inv_def)
  next
    case 2
    show ?thesis
      unfolding "2"(4) using assms(2)
      by (intro enqueue_rows.rows_fold_put)
         (auto simp: queue_inv_def lease_ok_def new_job_def revive_def)
  qed
  then show ?thesis
    using assms by (auto simp: queue_inv_def intro: enqueue_queue_ok)
qed

lemma claim_queue_inv:
  assumes "claim now worker limit policy busy db = (jobs, db')" and "queue_inv db"
  shows "queue_inv db'"
proof (cases "0 < limit")
  case True
  let ?p = "pick now limit policy busy (measurement_queue db)"
  have u: "unique_key q_domain (measurement_queue db)"
    using assms(2) by (simp add: queue_inv_def queue_ok_def)
  have "db' = db\<lparr>measurement_queue := update_where (\<lambda>r. q_domain r \<in> q_domain ` set ?p)
      (claim_row now worker) (measurement_queue db)\<rparr>"
    using claim_rows [OF assms(1) True] claim_frame [OF assms(1)] by simp
  moreover have "ready now policy r" if "r \<in> set (measurement_queue db)" "q_domain r \<in> q_domain ` set ?p" for r
    using that picked_iff [OF u] set_pick_subset [of now limit policy busy "measurement_queue db"] by blast
  ultimately show ?thesis
    using assms(2)
    by (auto intro!: queue_inv_update_where simp: claim_row_def job_row_ok_def lease_ok_def ready_def)
next
  case False
  then show ?thesis using assms by (simp add: claim_def)
qed

lemma complete_queue_inv: "queue_inv db \<Longrightarrow> queue_inv (complete job worker db)"
  by (simp add: complete_def queue_inv_delete_where)

lemma fail_queue_inv: "queue_inv db \<Longrightarrow> queue_inv (snd (fail now job worker err policy db))"
  by (auto simp: fail_def Let_def job_row_ok_def lease_ok_def intro!: queue_inv_update_where)

lemma release_queue_inv: "queue_inv db \<Longrightarrow> queue_inv (release job worker db)"
  by (auto simp: release_def job_row_ok_def lease_ok_def intro!: queue_inv_update_where)

lemmas queue_inv_intros = enqueue_queue_inv claim_queue_inv complete_queue_inv fail_queue_inv
  release_queue_inv queue_inv_delete_where

subsection \<open>The operations as steps\<close>

text \<open>
  One step of any client: the five operations of this module, and the garbage collection of
  dead rows by the monitor (some of them, by domain).
\<close>

datatype queue_op =
    Op_enqueue timestamp "string list" reason
  | Op_claim timestamp string int "string set"
  | Op_complete Job string
  | Op_fail timestamp Job string string
  | Op_release Job string
  | Op_collect "string set"

fun act_queue :: "QueuePolicy \<Rightarrow> queue_op \<Rightarrow> db \<Rightarrow> db" where
  "act_queue policy (Op_enqueue now names reason) db =
     (case enqueue now names reason db of Inl _ \<Rightarrow> db | Inr (_, db') \<Rightarrow> db')"
| "act_queue policy (Op_claim now worker limit busy) db = snd (claim now worker limit policy busy db)"
| "act_queue policy (Op_complete job worker) db = complete job worker db"
| "act_queue policy (Op_fail now job worker err) db = snd (fail now job worker err policy db)"
| "act_queue policy (Op_release job worker) db = release job worker db"
| "act_queue policy (Op_collect names) db =
     db\<lparr>measurement_queue := delete_where (\<lambda>r. q_state r = QDead \<and> q_domain r \<in> names) (measurement_queue db)\<rparr>"

definition holder :: "db \<Rightarrow> string \<Rightarrow> (string \<times> timestamp) option" where
  "holder db d = (case find_row q_domain d (measurement_queue db) of
      None \<Rightarrow> None
    | Some r \<Rightarrow> (case (q_locked_by r, q_locked_at r) of (Some w, Some t) \<Rightarrow> Some (w, t) | _ \<Rightarrow> None))"

fun claimed_by :: "QueuePolicy \<Rightarrow> queue_op \<Rightarrow> db \<Rightarrow> string set" where
  "claimed_by policy (Op_claim now worker limit busy) db =
     j_domain ` set (fst (claim now worker limit policy busy db))"
| "claimed_by policy _ db = {}"

fun claims_at :: "queue_op \<Rightarrow> (string \<times> timestamp) option" where
  "claims_at (Op_claim now worker limit busy) = Some (worker, now)"
| "claims_at _ = None"

fun gives_up :: "queue_op \<Rightarrow> string \<Rightarrow> string \<Rightarrow> bool" where
  "gives_up (Op_complete job v) w d \<longleftrightarrow> v = w \<and> j_domain job = d"
| "gives_up (Op_fail now job v err) w d \<longleftrightarrow> v = w \<and> j_domain job = d"
| "gives_up (Op_release job v) w d \<longleftrightarrow> v = w \<and> j_domain job = d"
| "gives_up _ w d \<longleftrightarrow> False"

lemma act_queue_inv: "queue_inv db \<Longrightarrow> queue_inv (act_queue policy op db)"
  by (cases op)
     (auto intro: queue_inv_intros claim_queue_inv [OF prod.collapse [symmetric]]
        split: sum.split prod.split)

lemma holder_Some:
  "holder db d = Some (w, t) \<longleftrightarrow>
   (\<exists>r. find_row q_domain d (measurement_queue db) = Some r \<and> q_locked_by r = Some w \<and>
        q_locked_at r = Some t)"
  by (auto simp: holder_def split: option.splits)

lemma claimed_lease_over:
  assumes "queue_ok db" and "claim now worker limit policy busy db = (jobs, db')"
    and "d \<in> j_domain ` set jobs" and "find_row q_domain d (measurement_queue db) = Some r"
  shows "ready now policy r"
proof -
  let ?p = "pick now limit policy busy (measurement_queue db)"
  have u: "unique_key q_domain (measurement_queue db)" using assms(1) by (simp add: queue_ok_def)
  have "d \<in> q_domain ` set ?p"
    using claim_jobs [OF assms(2,1)] assms(3) by (auto simp: job_of_def claim_row_def split: if_splits)
  moreover have "r \<in> set (measurement_queue db)" "q_domain r = d"
    using assms(4) by (auto dest: find_row_SomeD)
  ultimately show ?thesis
    using picked_iff [OF u] set_pick_subset [of now limit policy busy "measurement_queue db"] by blast
qed

lemma claimed_found:
  assumes "queue_ok db" and "claim now worker limit policy busy db = (jobs, db')"
    and "d \<in> j_domain ` set jobs"
  obtains r where "find_row q_domain d (measurement_queue db) = Some r"
proof -
  have "d \<in> q_domain ` set (measurement_queue db)"
    using claim_jobs [OF assms(2,1)] assms(3) set_pick_subset [of now limit policy busy "measurement_queue db"]
    by (auto simp: job_of_def claim_row_def split: if_splits)
  then show ?thesis using that by (meson find_row_None option.exhaust)
qed


lemma holder_claimed_by:
  assumes "queue_inv db" and "d \<in> claimed_by policy op db"
  shows "holder (act_queue policy op db) d = claims_at op"
proof (cases op)
  case (Op_claim now worker limit busy)
  obtain jobs db' where c: "claim now worker limit policy busy db = (jobs, db')"
    by (cases "claim now worker limit policy busy db")
  have ok: "queue_ok db" using assms(1) by (simp add: queue_inv_def)
  have d: "d \<in> j_domain ` set jobs" using assms(2) Op_claim c by simp
  obtain r where "find_row q_domain d (measurement_queue db) = Some r"
    using claimed_found [OF ok c d] .
  then have "find_row q_domain d (measurement_queue db') = Some (claim_row now worker r)"
    using claim_look [OF c ok, of d] d by simp
  then show ?thesis using Op_claim c by (simp add: holder_def claim_row_def)
qed (use assms(2) in auto)

lemma claimed_by_free:
  assumes "queue_inv db" and "d \<in> claimed_by policy op db" and "claims_at op = Some (w, t)"
    and "holder db d = Some (v, s)"
  shows "s + secs (lock_timeout_seconds policy) < t"
proof (cases op)
  case (Op_claim now worker limit busy)
  obtain jobs db' where c: "claim now worker limit policy busy db = (jobs, db')"
    by (cases "claim now worker limit policy busy db")
  obtain r where r: "find_row q_domain d (measurement_queue db) = Some r" "q_locked_at r = Some s"
    using assms(4) by (auto simp: holder_Some)
  have "ready now policy r"
    using claimed_lease_over [OF _ c _ r(1)] assms(1,2) Op_claim c by (simp add: queue_inv_def)
  then show ?thesis using assms(3) Op_claim r(2) by (simp add: ready_def)
qed (use assms(2) in auto)

lemma holder_act_queue:
  assumes "queue_inv db" and "holder db d = Some (w, t)" and "\<not> gives_up op w d"
    and "d \<notin> claimed_by policy op db"
  shows "holder (act_queue policy op db) d = Some (w, t)"
proof -
  have ok: "queue_ok db" using assms(1) by (simp add: queue_inv_def)
  obtain r where r: "find_row q_domain d (measurement_queue db) = Some r" "q_locked_by r = Some w"
      "q_locked_at r = Some t"
    using assms(2) by (auto simp: holder_Some)
  then have m: "r \<in> set (measurement_queue db)" "q_domain r = d" by (auto dest: find_row_SomeD)
  then have live: "q_state r = QPending"
    using assms(1) r(2) by (cases "q_state r") (auto simp: queue_inv_def lease_ok_def)
  then have unrevived: "revive now reason r = r" for now reason
    by (simp add: revive_def revivable_def)
  show ?thesis
  proof (cases op)
    case (Op_enqueue now names reason)
    then show ?thesis
      using r enqueue_look [OF _ ok, of now names reason _ _ d] unrevived
      by (auto simp: holder_Some split: sum.split)
  next
    case (Op_claim now worker limit busy)
    obtain jobs db' where c: "claim now worker limit policy busy db = (jobs, db')"
      by (cases "claim now worker limit policy busy db")
    then show ?thesis
      using r assms(4) Op_claim claim_look [OF c ok, of d] by (auto simp: holder_Some)
  next
    case (Op_complete job v)
    then show ?thesis
      using r m assms(3) ok by (auto simp: holder_Some complete_look owned_def)
  next
    case (Op_fail now job v err)
    then show ?thesis
      using r m assms(3) by (auto simp: holder_Some fail_look owned_def)
  next
    case (Op_release job v)
    then show ?thesis
      using r m assms(3) by (auto simp: holder_Some release_look owned_def)
  next
    case (Op_collect names)
    then show ?thesis
      using r live ok by (auto simp: holder_Some find_row_delete_where queue_ok_def)
  qed
qed

interpretation lease: leased_queue queue_inv holder "act_queue policy" "claimed_by policy"
  claims_at gives_up "secs (lock_timeout_seconds policy)" for policy
proof
  show "k \<in> claimed_by policy x q \<Longrightarrow> claims_at x \<noteq> None" for k x q
    by (cases x) auto
qed (fact act_queue_inv holder_claimed_by claimed_by_free holder_act_queue)+


section \<open>Properties of the queue under interleaving\<close>

lemma empty_queue_inv: "queue_inv empty_db"
  using empty_db_ok by (simp add: queue_inv_def db_ok_def empty_db_def)

text \<open>
  The queue is consistent after any interleaving of the operations of any number of
  clients, failed statements included: one row per domain, a row is locked exactly when it
  has a lock time, a dead row is never locked, a locked row has at least one attempt.
\<close>

theorem queue_invariant:
  "queue_inv (fold (act_queue policy) ops empty_db)"
  using empty_queue_inv by (rule lease.invar_run)

text \<open>
  C1: Mutual exclusion. A job that \<open>claim\<close> handed to a worker stays locked by that worker
  and is handed to nobody, itself included, as long as that worker does not complete, fail
  or release it and the lock timeout has not passed, whatever operations other clients run in
  the meantime: enqueues, claims, finished jobs of theirs, attempts to finish this very job
  under another worker's id, and garbage collection.
\<close>

theorem claimed_job_exclusive:
  assumes "queue_inv db"
    and "d \<in> j_domain ` set (fst (claim now worker limit policy busy db))"
    and "\<forall>op \<in> set ops. \<not> gives_up op worker d \<and>
      (\<forall>w t. claims_at op = Some (w, t) \<longrightarrow> t \<le> now + secs (lock_timeout_seconds policy))"
    and "now' \<le> now + secs (lock_timeout_seconds policy)"
  shows "holder (fold (act_queue policy) ops (snd (claim now worker limit policy busy db))) d =
      Some (worker, now) \<and>
    d \<notin> j_domain ` set (fst (claim now' worker' limit' policy busy'
      (fold (act_queue policy) ops (snd (claim now worker limit policy busy db)))))"
proof
  let ?op = "Op_claim now worker limit busy" and ?op' = "Op_claim now' worker' limit' busy'"
  have c: "d \<in> claimed_by policy ?op db" using assms(2) by simp
  have ops: "\<forall>op \<in> set ops. \<not> gives_up op worker d \<and>
      lease.on_time (now + secs (lock_timeout_seconds policy)) op"
    using assms(3) unfolding lease.on_time_def by blast
  have "holder (act_queue policy ?op db) d = Some (worker, now)"
    using lease.holder_claimed [OF assms(1) c] by simp
  then show "holder (fold (act_queue policy) ops (snd (claim now worker limit policy busy db))) d =
      Some (worker, now)"
    using lease.lease_run [OF act_queue_inv [OF assms(1)] _ ops, of policy ?op] by simp
  have "lease.on_time (now + secs (lock_timeout_seconds policy)) ?op'"
    using assms(4) unfolding lease.on_time_def by simp
  then show "d \<notin> j_domain ` set (fst (claim now' worker' limit' policy busy'
      (fold (act_queue policy) ops (snd (claim now worker limit policy busy db)))))"
    using lease.lease_exclusive [OF assms(1) c _ ops, of ?op'] by simp
qed

lemma one_job_inv:
  "canonical d \<Longrightarrow> queue_inv (empty_db\<lparr>measurement_queue := [new_job t reason d]\<rparr>)"
  by (simp add: queue_inv_def queue_ok_def unique_key_def new_job_ok lease_ok_def)
     (simp add: new_job_def)

lemma one_job_claim:
  "t \<le> now \<Longrightarrow> claim now w 1 policy {} (empty_db\<lparr>measurement_queue := [new_job t reason d]\<rparr>) =
     ([\<lparr>j_domain = d, j_reason = reason, j_attempts = 1\<rparr>],
      empty_db\<lparr>measurement_queue := [claim_row now w (new_job t reason d)]\<rparr>)"
  by (simp add: claim_def pick_def new_job_def ready_def update_where_def claim_row_def job_of_def)

theorem claimed_job_exclusive_witness:
  "''a.net'' \<notin> j_domain ` set (fst (claim (secs 200) ''w2'' 9 default_policy {}
      (fold (act_queue default_policy)
        [Op_complete \<lparr>j_domain = ''a.net'', j_reason = Miss, j_attempts = 1\<rparr> ''w2'',
         Op_claim (secs 100) ''w3'' 5 {}, Op_enqueue (secs 150) [''a.net''] Miss]
        (snd (claim (secs 10) ''w1'' 1 default_policy {}
          (empty_db\<lparr>measurement_queue := [new_job 0 Miss ''a.net'']\<rparr>))))))"
proof -
  have "canonical ''a.net''" by code_simp
  then show ?thesis
    by (intro claimed_job_exclusive [THEN conjunct2])
       (auto simp: one_job_inv one_job_claim secs_def default_policy_def)
qed

text \<open>
  C29: A crashed worker's job is not lost. Once the lock of a pending row is older than the
  lock timeout, its retry time has come and no transaction holds the row, a claim that asks
  for as many jobs as there are rows hands it out, locked by the new worker and with one more
  attempt counted; from then on the old worker's complete, fail and release do nothing.
\<close>

theorem stale_lock_reclaimed:
  assumes "queue_inv db" and "find_row q_domain d (measurement_queue db) = Some r"
    and "q_locked_at r = Some t" and "t + secs (lock_timeout_seconds policy) < now"
    and "q_next_attempt_at r \<le> now" and "d \<notin> busy"
    and "int (length (measurement_queue db)) \<le> limit"
    and "claim now worker limit policy busy db = (jobs, db')"
    and "old \<noteq> worker" and "j_domain job = d"
  shows "\<lparr>j_domain = d, j_reason = q_reason r, j_attempts = q_attempts r + 1\<rparr> \<in> set jobs \<and>
    holder db' d = Some (worker, now) \<and> complete job old db' = db' \<and>
    snd (fail t' job old err policy db') = db' \<and> release job old db' = db'"
proof (intro conjI)
  let ?rows = "measurement_queue db"
  have ok: "queue_ok db" using assms(1) by (simp add: queue_inv_def)
  have m: "r \<in> set ?rows" "q_domain r = d" using assms(2) by (auto dest: find_row_SomeD)
  have row: "job_row_ok r" "lease_ok r" using assms(1) m by (auto simp: queue_inv_def queue_ok_def)
  have "ready now policy r"
    using row assms(3-5) by (cases "q_state r") (auto simp: ready_def lease_ok_def job_row_ok_def)
  moreover have len: "length (filter (\<lambda>r. ready now policy r \<and> q_domain r \<notin> busy) ?rows) \<le> nat limit"
    using assms(7) by (meson le_nat_iff length_filter_le le_trans nat_int_comparison(3) of_nat_0_le_iff order_trans)
  ultimately have p: "r \<in> set (pick now limit policy busy ?rows)"
    using m assms(6) by (simp add: pick_def)
  have pos: "0 < limit" using assms(7) m(1) by (cases ?rows) auto
  show job: "\<lparr>j_domain = d, j_reason = q_reason r, j_attempts = q_attempts r + 1\<rparr> \<in> set jobs"
    using claim_jobs [OF assms(8) ok] pos p m(2)
    by (auto simp: job_of_def claim_row_def intro!: image_eqI [of _ _ r])
  then have "find_row q_domain d (measurement_queue db') = Some (claim_row now worker r)"
    using claim_look [OF assms(8) ok, of d] assms(2) by (force simp: image_iff)
  moreover have "unique_key q_domain (measurement_queue db')"
    using claim_queue_inv [OF assms(8,1)] by (simp add: queue_inv_def queue_ok_def)
  ultimately have "s = claim_row now worker r" if "s \<in> set (measurement_queue db')" "q_domain s = d" for s
    using that find_row_unique [of q_domain "measurement_queue db'" d s] by simp
  then have none: "\<forall>s \<in> set (measurement_queue db'). \<not> owned job old s"
    using assms(9,10) by (force simp: owned_def claim_row_def)
  show "holder db' d = Some (worker, now)"
    using \<open>find_row q_domain d (measurement_queue db') = _\<close> by (simp add: holder_def claim_row_def)
  show "complete job old db' = db'" "snd (fail t' job old err policy db') = db'"
    "release job old db' = db'"
    using none by (simp_all add: complete_def fail_def release_def Let_def update_where_none
        delete_where_none)
qed

theorem stale_lock_reclaimed_witness:
  "complete \<lparr>j_domain = ''a.net'', j_reason = Miss, j_attempts = 1\<rparr> ''w1''
     (snd (claim (secs 500) ''w2'' 1 default_policy {}
       (snd (claim 1 ''w1'' 1 default_policy {}
         (empty_db\<lparr>measurement_queue := [new_job 0 Miss ''a.net'']\<rparr>))))) =
   snd (claim (secs 500) ''w2'' 1 default_policy {}
       (snd (claim 1 ''w1'' 1 default_policy {}
         (empty_db\<lparr>measurement_queue := [new_job 0 Miss ''a.net'']\<rparr>))))"
proof -
  let ?db = "empty_db\<lparr>measurement_queue := [claim_row 1 ''w1'' (new_job 0 Miss ''a.net'')]\<rparr>"
  have "canonical ''a.net''" by code_simp
  then have inv: "queue_inv ?db"
    using claim_queue_inv [OF one_job_claim one_job_inv, of 0 1 "''a.net''"] by simp
  show ?thesis
    unfolding one_job_claim [of 0 1, simplified] snd_conv
    by (rule stale_lock_reclaimed [where r = "claim_row 1 ''w1'' (new_job 0 Miss ''a.net'')"
          and d = "''a.net''" and t = 1, OF inv _ _ _ _ _ _ prod.collapse [symmetric],
          THEN conjunct2, THEN conjunct2, THEN conjunct1])
       (simp_all add: claim_row_def new_job_def secs_def default_policy_def)
qed


section \<open>Retries, dead letters and releases\<close>

lemma retry_delay_bounds:
  assumes "0 \<le> retry_base_seconds policy"
  shows "retry_delay policy n \<le> retry_max_seconds policy"
    and "n \<le> m \<Longrightarrow> retry_delay policy n \<le> retry_delay policy m"
    and "min (retry_max_seconds policy) (retry_base_seconds policy) \<le> retry_delay policy n"
proof -
  show "retry_delay policy n \<le> retry_max_seconds policy" by (simp add: retry_delay_def)
  have mono: "retry_base_seconds policy * 2 ^ a \<le> retry_base_seconds policy * 2 ^ b" if "a \<le> b" for a b :: nat
    using that assms by (intro mult_left_mono) (auto simp: power_increasing)
  show "retry_delay policy n \<le> retry_delay policy m" if "n \<le> m"
  proof -
    have "nat (max 0 (n - 1)) \<le> nat (max 0 (m - 1))" using that by (intro nat_mono) auto
    then show ?thesis using mono unfolding retry_delay_def by (intro min.mono) auto
  qed
  show "min (retry_max_seconds policy) (retry_base_seconds policy) \<le> retry_delay policy n"
    using mono [of 0 "nat (max 0 (n - 1))"] by (auto simp: retry_delay_def)
qed

text \<open>
  C30: A failed job is retried with backoff and then dead-lettered. When the worker that
  claimed a job fails it, the row is unlocked and keeps its attempts and at most 1000
  characters of the error. Before \<open>max_attempts\<close> it is pending and no claim takes it before
  the backoff delay, which doubles from \<open>retry_base_seconds\<close> and never exceeds
  \<open>retry_max_seconds\<close>, has passed, and from then on it is ready. At \<open>max_attempts\<close> it is
  dead: no claim ever takes it, and a new miss revives it from the end of the cooldown on and
  not before.
\<close>

theorem fail_retries_then_dead_letters:
  assumes "0 \<le> retry_base_seconds policy"
    and "find_row q_domain (j_domain job) (measurement_queue db) = Some r"
    and "q_locked_by r = Some worker"
    and "fail now job worker err policy db = (state, db')"
  shows "(\<exists>r'. find_row q_domain (j_domain job) (measurement_queue db') = Some r' \<and>
      q_state r' = state \<and> q_locked_by r' = None \<and> q_locked_at r' = None \<and>
      q_attempts r' = q_attempts r \<and> q_last_error r' = Some (take 1000 err) \<and>
      (if j_attempts job < max_attempts policy
       then state = QPending \<and>
         (\<forall>t. ready t policy r' \<longleftrightarrow> now + secs (retry_delay policy (j_attempts job)) \<le> t)
       else state = QDead \<and> (\<forall>t. \<not> ready t policy r') \<and>
         (\<forall>t. revivable t r' \<longleftrightarrow> now + secs (dead_cooldown_seconds policy) \<le> t))) \<and>
    retry_delay policy (j_attempts job) \<le> retry_max_seconds policy \<and>
    retry_delay policy (j_attempts job) \<le> retry_delay policy (j_attempts job + 1) \<and>
    (1 \<le> j_attempts job \<longrightarrow> retry_delay policy (j_attempts job + 1) =
      min (retry_max_seconds policy) (2 * (retry_base_seconds policy * 2 ^ nat (j_attempts job - 1))))"
    (is "(\<exists>r'. ?row r') \<and> _")
proof (intro conjI impI)
  let ?dead = "j_attempts job \<ge> max_attempts policy"
  let ?r' = "r\<lparr>q_state := state, q_next_attempt_at := now + secs (if ?dead
      then dead_cooldown_seconds policy else retry_delay policy (j_attempts job)),
      q_last_error := Some (take 1000 err), q_locked_by := None, q_locked_at := None\<rparr>"
  have "owned job worker r" using assms(2,3) by (auto simp: owned_def dest: find_row_SomeD)
  then have "?row ?r'"
    using fail_look [of "j_domain job" now job worker err policy db] assms(2,4)
    by (auto simp: fail_def Let_def ready_def revivable_def find_row_update_where)
  then show "\<exists>r'. ?row r'" by (rule exI [where x = ?r'])
  show "retry_delay policy (j_attempts job) \<le> retry_max_seconds policy"
    "retry_delay policy (j_attempts job) \<le> retry_delay policy (j_attempts job + 1)"
    using retry_delay_bounds [OF assms(1)] by simp_all
  assume "1 \<le> j_attempts job"
  then have "nat (j_attempts job) = Suc (nat (j_attempts job - 1))" by simp
  then show "retry_delay policy (j_attempts job + 1) =
      min (retry_max_seconds policy) (2 * (retry_base_seconds policy * 2 ^ nat (j_attempts job - 1)))"
    by (simp add: retry_delay_def algebra_simps)
qed

theorem fail_retries_then_dead_letters_witness:
  "\<exists>r'. find_row q_domain ''a.net'' (measurement_queue (snd
       (fail 7 \<lparr>j_domain = ''a.net'', j_reason = Miss, j_attempts = 5\<rparr> ''w'' ''no answer'' default_policy
         (empty_db\<lparr>measurement_queue := [claim_row 5 ''w'' (new_job 0 Miss ''a.net'')]\<rparr>)))) = Some r' \<and>
     q_state r' = QDead \<and> (\<forall>t. \<not> ready t default_policy r')"
proof -
  let ?db = "empty_db\<lparr>measurement_queue := [claim_row 5 ''w'' (new_job 0 Miss ''a.net'')]\<rparr>"
  let ?job = "\<lparr>j_domain = ''a.net'', j_reason = Miss, j_attempts = 5\<rparr>"
  have row: "find_row q_domain (j_domain ?job) (measurement_queue ?db) =
      Some (claim_row 5 ''w'' (new_job 0 Miss ''a.net''))"
    by (simp add: new_job_def)
  have lock: "q_locked_by (claim_row 5 ''w'' (new_job 0 Miss ''a.net'')) = Some ''w''"
    by (simp add: claim_row_def)
  obtain st db' where f: "fail 7 ?job ''w'' ''no answer'' default_policy ?db = (st, db')"
    by (cases "fail 7 ?job ''w'' ''no answer'' default_policy ?db")
  show ?thesis
    using fail_retries_then_dead_letters [OF _ row lock f] unfolding f
    by (auto simp: default_policy_def)
qed

lemma fold_release_look:
  "find_row q_domain d (measurement_queue (fold (\<lambda>j. release j worker) jobs db)) =
   map_option (\<lambda>r. if d \<in> j_domain ` set jobs \<and> q_locked_by r = Some worker
      then r\<lparr>q_locked_by := None, q_locked_at := None, q_attempts := max 0 (q_attempts r - 1)\<rparr>
      else r) (find_row q_domain d (measurement_queue db))"
proof (induction jobs arbitrary: db)
  case Nil
  then show ?case by (simp add: option.map_ident)
next
  case (Cons j jobs)
  show ?case
    by (cases "find_row q_domain d (measurement_queue db)")
       (auto simp: Cons.IH release_look owned_def dest: find_row_SomeD)
qed

text \<open>
  Releasing undoes claiming. When a worker releases every job it was just handed, as it
  does on shutdown, every row of the queue is as it was before the claim, attempts included;
  the only trace is that the stale lock of a timed-out worker is gone. The rest of the
  database is untouched.
\<close>

theorem release_undoes_claim:
  assumes "queue_inv db" and "claim now worker limit policy busy db = (jobs, db')"
  shows "find_row q_domain d (measurement_queue (fold (\<lambda>j. release j worker) jobs db')) =
      map_option (\<lambda>r. if d \<in> j_domain ` set jobs then r\<lparr>q_locked_by := None, q_locked_at := None\<rparr> else r)
        (find_row q_domain d (measurement_queue db)) \<and>
    fold (\<lambda>j. release j worker) jobs db' =
      db\<lparr>measurement_queue := measurement_queue (fold (\<lambda>j. release j worker) jobs db')\<rparr>"
proof
  have ok: "queue_ok db" using assms(1) by (simp add: queue_inv_def)
  show "find_row q_domain d (measurement_queue (fold (\<lambda>j. release j worker) jobs db')) =
      map_option (\<lambda>r. if d \<in> j_domain ` set jobs then r\<lparr>q_locked_by := None, q_locked_at := None\<rparr> else r)
        (find_row q_domain d (measurement_queue db))"
  proof (cases "find_row q_domain d (measurement_queue db)")
    case None
    then show ?thesis by (simp add: fold_release_look claim_look [OF assms(2) ok])
  next
    case (Some r)
    then have "0 \<le> q_attempts r"
      using ok by (auto simp: queue_ok_def job_row_ok_def dest!: find_row_SomeD)
    then show ?thesis
      using Some by (auto simp: fold_release_look claim_look [OF assms(2) ok] claim_row_def)
  qed
  have "fold (\<lambda>j. release j worker) js e = e\<lparr>measurement_queue := measurement_queue (fold (\<lambda>j. release j worker) js e)\<rparr>"
    for js e
  proof (induction js arbitrary: e)
    case (Cons j js)
    show ?case using Cons.IH [of "release j worker e"] by (simp add: release_def)
  qed simp
  from this [of jobs db'] claim_frame [OF assms(2)]
  show "fold (\<lambda>j. release j worker) jobs db' =
      db\<lparr>measurement_queue := measurement_queue (fold (\<lambda>j. release j worker) jobs db')\<rparr>"
    by (metis (no_types, lifting) db.surjective db.update_convs(8))
qed


theorem release_undoes_claim_witness:
  "find_row q_domain ''a.net'' (measurement_queue (fold (\<lambda>j. release j ''w'')
     (fst (claim 5 ''w'' 1 default_policy {} (empty_db\<lparr>measurement_queue := [new_job 0 Miss ''a.net'']\<rparr>)))
     (snd (claim 5 ''w'' 1 default_policy {} (empty_db\<lparr>measurement_queue := [new_job 0 Miss ''a.net'']\<rparr>))))) =
   Some (new_job 0 Miss ''a.net'')"
proof -
  have "canonical ''a.net''" by code_simp
  then show ?thesis
    using release_undoes_claim [OF one_job_inv prod.collapse [symmetric], where d = "''a.net''"]
    by (simp add: new_job_def)
qed

end
