(* ===== verification/Collector.thy ===== *)
theory Collector
  imports Framestreams Dnstap Queue_Pg
begin

text \<open>
  The collector service (\<open>collector/service.py\<close>): the batch that aggregates classified
  responses per name, the two statements that write it, and the collector object whose
  frames and flushes interleave. The dictionaries of a batch are association lists; response
  times are seconds since the epoch as rationals.
\<close>

section \<open>Batches\<close>

record Batch =
  hits :: "(string \<times> (int \<times> rat)) list"
  misses :: "(string \<times> rat) list"

definition empty_batch :: Batch where
  "empty_batch = \<lparr>hits = [], misses = []\<rparr>"

definition batch_len :: "Batch \<Rightarrow> nat" where
  "batch_len batch = length (hits batch) + length (misses batch)"

definition add :: "kind \<Rightarrow> string \<Rightarrow> rat \<Rightarrow> Batch \<Rightarrow> Batch" where
  "add k name when batch =
     (case k of
        HIT \<Rightarrow>
          let (count, last) = (case map_of (hits batch) name of None \<Rightarrow> (0, 0) | Some v \<Rightarrow> v)
          in batch\<lparr>hits := AList.update name (count + 1, max last when) (hits batch)\<rparr>
      | MISS \<Rightarrow>
          batch\<lparr>misses := AList.update name
            (max (case map_of (misses batch) name of None \<Rightarrow> 0 | Some t \<Rightarrow> t) when) (misses batch)\<rparr>)"

text \<open>
  \<open>datetime.fromtimestamp\<close> rounds to microseconds and raises outside the years 1 to 9999.
\<close>

definition ts :: "rat \<Rightarrow> timestamp option" where
  "ts when =
     (let t = py_round (when * 1000000)
      in if secs (- 62135596800) \<le> t \<and> t < secs 253402300800 then Some t else None)"

section \<open>Writing a batch\<close>

text \<open>
  The connection is in autocommit mode, so the update for the hits commits on its own before
  the transaction for the misses. \<open>link\<close> says at which of the two the connection is lost.
\<close>

datatype write_error = Db db_error | OutOfRange

record link =
  connects :: bool
  hits_ok :: bool
  misses_ok :: bool

definition hit_row :: "(string \<rightharpoonup> int \<times> timestamp) \<Rightarrow> domain_row \<Rightarrow> domain_row" where
  "hit_row s d = (case s (d_name d) of
      None \<Rightarrow> d
    | Some (n, t) \<Rightarrow> d\<lparr>d_last_queried_at := greatest (d_last_queried_at d) (Some t),
                       d_hit_count := d_hit_count d + n\<rparr>)"

definition write_hits :: "(string \<times> (int \<times> timestamp)) list \<Rightarrow> db \<Rightarrow> db" where
  "write_hits s db = db\<lparr>domains := map (hit_row (map_of s)) (domains db)\<rparr>"

definition pending_domain :: "timestamp \<Rightarrow> string \<Rightarrow> timestamp \<Rightarrow> nat \<Rightarrow> domain_row" where
  "pending_domain now name queried_at i =
     \<lparr>d_id = i, d_name = name, d_status = Pending, d_first_seen_at = now, d_measured_at = None,
      d_last_queried_at = Some queried_at, d_hit_count = 0, d_retry_after = None\<rparr>"

definition upsert_miss :: "timestamp \<Rightarrow> string \<times> timestamp \<Rightarrow> db \<Rightarrow> db" where
  "upsert_miss now s =
     upsert_domain (pending_domain now (fst s) (snd s))
       (\<lambda>d. d\<lparr>d_last_queried_at := greatest (d_last_queried_at d) (Some (snd s))\<rparr>)"

definition due :: "timestamp \<Rightarrow> db \<Rightarrow> string \<times> timestamp \<Rightarrow> bool" where
  "due now db s = (case find_row d_name (fst s) (domains db) of
      None \<Rightarrow> False
    | Some u \<Rightarrow>
        (case d_retry_after u of None \<Rightarrow> True | Some t \<Rightarrow> t \<le> now) \<and>
        (case d_measured_at u of None \<Rightarrow> True | Some t \<Rightarrow> t < snd s))"

definition write_misses ::
  "timestamp \<Rightarrow> (string \<times> timestamp) list \<Rightarrow> db \<Rightarrow> db_error + (string list \<times> db)" where
  "write_misses now seen db =
     (if \<exists>s \<in> set seen. fst s = [] \<or> \<not> canonical (fst s) then Inl CheckViolation
      else
        let upserted = fold (upsert_miss now) seen db
        in enqueue now (map fst (filter (due now upserted) seen)) Miss upserted)"

text \<open>The values of a dictionary by sorted name, and their times as timestamps.\<close>

definition by_name :: "(string \<times> 'a) list \<Rightarrow> (string \<times> 'a) list" where
  "by_name m = sort_key fst m"

fun stamp_all :: "('a \<Rightarrow> 'b option) \<Rightarrow> (string \<times> 'a) list \<Rightarrow> (string \<times> 'b) list option" where
  "stamp_all f [] = Some []"
| "stamp_all f ((n, v) # m) =
     (case f v of None \<Rightarrow> None | Some w \<Rightarrow> map_option (\<lambda>r. (n, w) # r) (stamp_all f m))"

definition write_batch ::
  "timestamp \<Rightarrow> link \<Rightarrow> Batch \<Rightarrow> db \<Rightarrow> (write_error + string list) \<times> db" where
  "write_batch now link batch db =
     (case stamp_all (\<lambda>(n, t). map_option (Pair n) (ts t)) (by_name (hits batch)) of
        None \<Rightarrow> (Inl OutOfRange, db)
      | Some hs \<Rightarrow>
          if hits batch \<noteq> [] \<and> \<not> hits_ok link then (Inl (Db OperationalError), db)
          else
            let db1 = (if hits batch = [] then db else write_hits hs db) in
            if misses batch = [] then (Inr [], db1)
            else
              (case stamp_all ts (by_name (misses batch)) of
                 None \<Rightarrow> (Inl OutOfRange, db1)
               | Some seen \<Rightarrow>
                   if \<not> misses_ok link then (Inl (Db OperationalError), db1)
                   else (case write_misses now seen db1 of
                           Inl e \<Rightarrow> (Inl (Db e), db1)
                         | Inr (queued, db2) \<Rightarrow> (Inr queued, db2))))"

section \<open>The collector\<close>

datatype conn_state = NoConn | OpenConn | ClosedConn

record Collector =
  ignore_suffixes :: "string set"
  max_batch :: nat
  batch :: Batch
  full :: bool
  conn :: conn_state
  client_responses :: "kind \<Rightarrow> nat"
  enqueued_total :: nat

definition new_collector :: "string set \<Rightarrow> nat \<Rightarrow> Collector" where
  "new_collector ignore limit =
     \<lparr>ignore_suffixes = ignore, max_batch = limit, batch = empty_batch, full = False,
      conn = NoConn, client_responses = (\<lambda>_. 0), enqueued_total = 0\<rparr>"

text \<open>
  \<open>on_frame\<close> catches \<open>ProtobufError\<close> and nothing else: the left result is an exception that
  leaves it.
\<close>

definition record_event :: "Event \<Rightarrow> Collector \<Rightarrow> Collector" where
  "record_event event c =
     (let c1 = c\<lparr>client_responses := (client_responses c)
                   (ev_kind event := client_responses c (ev_kind event) + 1),
                 batch := add (ev_kind event) (ev_name event) (ev_time event) (batch c)\<rparr>
      in if batch_len (batch c1) \<ge> max_batch c1 then c1\<lparr>full := True\<rparr> else c1)"

definition on_frame ::
  "(bytes \<Rightarrow> dns_message option) \<Rightarrow> rat \<Rightarrow> bytes \<Rightarrow> Collector \<Rightarrow> decode_error + Collector" where
  "on_frame from_wire now frame c =
     (case decode_client_response frame of
        Inl (Protobuf _) \<Rightarrow> Inr c
      | Inl TypeError \<Rightarrow> Inl TypeError
      | Inr None \<Rightarrow> Inr c
      | Inr (Some response) \<Rightarrow>
          (case classify from_wire now response (ignore_suffixes c) of
             None \<Rightarrow> Inr c
           | Some event \<Rightarrow> Inr (record_event event c)))"

text \<open>
  \<open>flush\<close>: the batch is taken first, and lost when the connection cannot be made or the
  write fails with a database error; any other exception leaves \<open>flush\<close> (the flag).
\<close>

definition flush :: "timestamp \<Rightarrow> link \<Rightarrow> Collector \<Rightarrow> db \<Rightarrow> bool \<times> Collector \<times> db" where
  "flush now link c db =
     (let taken = batch c; c1 = c\<lparr>batch := empty_batch, full := False\<rparr> in
      if batch_len taken = 0 then (True, c1, db)
      else if conn c \<noteq> OpenConn \<and> \<not> connects link then (True, c1\<lparr>conn := NoConn\<rparr>, db)
      else
        let c2 = c1\<lparr>conn := OpenConn\<rparr> in
        case write_batch now link taken db of
          (Inl (Db _), db') \<Rightarrow> (True, c2\<lparr>conn := NoConn\<rparr>, db')
        | (Inl OutOfRange, db') \<Rightarrow> (False, c2, db')
        | (Inr queued, db') \<Rightarrow>
            (True, c2\<lparr>enqueued_total := enqueued_total c2 + length queued\<rparr>, db'))"


section \<open>Aggregation\<close>

abbreviation add_event :: "Event \<Rightarrow> Batch \<Rightarrow> Batch" where
  "add_event e \<equiv> add (ev_kind e) (ev_name e) (ev_time e)"

definition batch_ok :: "Batch \<Rightarrow> bool" where
  "batch_ok b \<longleftrightarrow> distinct (map fst (hits b)) \<and> distinct (map fst (misses b)) \<and>
     (\<forall>n c t. map_of (hits b) n = Some (c, t) \<longrightarrow> 0 < c)"

lemma empty_batch_ok: "batch_ok empty_batch"
  by (simp add: batch_ok_def empty_batch_def)

lemma hits_add:
  "map_of (hits (add k name t b)) n =
     (if k = HIT \<and> n = name
      then Some (case map_of (hits b) n of None \<Rightarrow> (1, max 0 t) | Some (c, l) \<Rightarrow> (c + 1, max l t))
      else map_of (hits b) n)"
  by (cases k) (auto simp: add_def update_conv Let_def split: option.split)

lemma misses_add:
  "map_of (misses (add k name t b)) n =
     (if k = MISS \<and> n = name
      then Some (max (case map_of (misses b) n of None \<Rightarrow> 0 | Some l \<Rightarrow> l) t)
      else map_of (misses b) n)"
  by (cases k) (auto simp: add_def update_conv Let_def split: option.split prod.split)

lemma add_ok:
  assumes "batch_ok b"
  shows "batch_ok (add k name t b)"
proof -
  have "distinct (map fst (hits (add k name t b)))" "distinct (map fst (misses (add k name t b)))"
    using assms
    by (auto simp: batch_ok_def add_def distinct_update Let_def split: kind.split prod.split)
  moreover have "0 < c" if "map_of (hits (add k name t b)) n = Some (c, l)" for n c l
    using that assms
    by (auto simp: hits_add batch_ok_def add_pos_pos split: if_splits option.splits prod.splits)
       (metis less_le)
  ultimately show ?thesis by (auto simp: batch_ok_def)
qed

definition times_of :: "kind \<Rightarrow> string \<Rightarrow> Event list \<Rightarrow> rat list" where
  "times_of k name es = map ev_time (filter (\<lambda>e. ev_kind e = k \<and> ev_name e = name) es)"

lemma times_of_snoc:
  "times_of k name (es @ [e]) =
     times_of k name es @ (if ev_kind e = k \<and> ev_name e = name then [ev_time e] else [])"
  by (simp add: times_of_def)

lemma Max_insert0_snoc:
  "max (Max (insert 0 (set xs))) x = Max (insert 0 (set (xs @ [x])))" for x :: rat
proof -
  have "insert 0 (set (xs @ [x])) = insert x (insert 0 (set xs))" by auto
  then show ?thesis by (simp only: Max_insert [OF _ insert_not_empty] List.finite_set finite_insert max.commute)
qed

lemma replay_hits:
  "map_of (hits (fold add_event es empty_batch)) name =
     (let t = times_of HIT name es
      in if t = [] then None else Some (int (length t), Max (insert 0 (set t))))"
proof (induction es rule: rev_induct)
  case Nil
  then show ?case by (simp add: empty_batch_def times_of_def)
next
  case (snoc e es)
  show ?case
    using Max_insert0_snoc [of "times_of HIT name es" "ev_time e"]
    by (cases "times_of HIT name es = []")
       (auto simp: hits_add snoc.IH times_of_snoc Let_def simp del: Max_insert)
qed

lemma replay_misses:
  "map_of (misses (fold add_event es empty_batch)) name =
     (let t = times_of MISS name es in if t = [] then None else Some (Max (insert 0 (set t))))"
proof (induction es rule: rev_induct)
  case Nil
  then show ?case by (simp add: empty_batch_def times_of_def)
next
  case (snoc e es)
  show ?case
    using Max_insert0_snoc [of "times_of MISS name es" "ev_time e"] snoc.IH
    by (cases "times_of MISS name es = []")
       (auto simp: misses_add times_of_snoc Let_def simp del: Max_insert)
qed

lemma replay_ok: "batch_ok b \<Longrightarrow> batch_ok (fold add_event es b)"
  by (induction es arbitrary: b) (auto intro: add_ok)

lemma length_by_keys: "distinct (map fst m) \<Longrightarrow> length m = card (dom (map_of m))"
  by (metis distinct_card dom_map_of_conv_image_fst length_map set_map)

text \<open>
  A batch is a faithful summary of the responses it was given, in any order: for every
  name the number of its hits with the time of the latest, and the time of its latest miss;
  its size, which triggers an early flush, is the number of names with a hit plus the number
  of names with a miss.
\<close>

theorem batch_aggregates:
  "map_of (hits (fold add_event es empty_batch)) name =
     (let t = times_of HIT name es
      in if t = [] then None else Some (int (length t), Max (insert 0 (set t)))) \<and>
   map_of (misses (fold add_event es empty_batch)) name =
     (let t = times_of MISS name es in if t = [] then None else Some (Max (insert 0 (set t)))) \<and>
   batch_len (fold add_event es empty_batch) =
     card {n. times_of HIT n es \<noteq> []} + card {n. times_of MISS n es \<noteq> []}"
proof (intro conjI replay_hits replay_misses)
  let ?b = "fold add_event es empty_batch"
  have "batch_ok ?b" by (rule replay_ok [OF empty_batch_ok])
  then have "batch_len ?b = card (dom (map_of (hits ?b))) + card (dom (map_of (misses ?b)))"
    by (simp add: batch_len_def batch_ok_def length_by_keys)
  moreover have "dom (map_of (hits ?b)) = {n. times_of HIT n es \<noteq> []}"
    by (auto simp: dom_def replay_hits Let_def)
  moreover have "dom (map_of (misses ?b)) = {n. times_of MISS n es \<noteq> []}"
    by (auto simp: dom_def replay_misses Let_def)
  ultimately show "batch_len ?b =
      card {n. times_of HIT n es \<noteq> []} + card {n. times_of MISS n es \<noteq> []}" by simp
qed


section \<open>What a written batch does to the database\<close>

lemma map_of_sort_key:
  "distinct (map fst m) \<Longrightarrow> map_of (by_name m) = map_of m"
  unfolding by_name_def
  by (intro map_of_inject_set [THEN iffD2]) (auto simp: distinct_map inj_on_def)

lemma distinct_by_name: "distinct (map fst m) \<Longrightarrow> distinct (map fst (by_name m))"
  by (auto simp: by_name_def distinct_map)

lemma stamp_all_keys: "stamp_all f m = Some r \<Longrightarrow> map fst r = map fst m"
  by (induction f m arbitrary: r rule: stamp_all.induct) (auto split: option.splits)

lemma stamp_all_map_of: "stamp_all f m = Some r \<Longrightarrow> map_of r k = Option.bind (map_of m k) f"
  by (induction f m arbitrary: r rule: stamp_all.induct) (auto split: option.splits)

lemma about_write_hits:
  "about (write_hits s db) name = map_option (hit_row (map_of s)) (about db name)"
proof -
  have keep: "d_name (hit_row g d) = d_name d" "hit_row g (d\<lparr>d_id := i\<rparr>) = (hit_row g d)\<lparr>d_id := i\<rparr>" for g d i
    by (auto simp: hit_row_def split: option.split)
  have "find_row d_name name (map (hit_row (map_of s)) t) = map_option (hit_row (map_of s)) (find_row d_name name t)" for t
    by (induction t) (auto simp: keep)
  then show ?thesis
    by (simp add: about_def write_hits_def keep option.map_comp comp_def)
qed

lemma about_upsert_miss:
  "about (upsert_miss now s db) k =
     (if k = fst s
      then Some (case about db k of
          None \<Rightarrow> pending_domain now (fst s) (snd s) 0
        | Some d \<Rightarrow> d\<lparr>d_last_queried_at := greatest (d_last_queried_at d) (Some (snd s))\<rparr>)
      else about db k)"
  by (auto simp: about_def upsert_miss_def find_upsert_domain [where name = "fst s"] pending_domain_def
      split: option.split)

interpretation miss_rows: upsert_table fst "upsert_miss now" about
  "\<lambda>s d. case d of None \<Rightarrow> pending_domain now (fst s) (snd s) 0
     | Some d \<Rightarrow> d\<lparr>d_last_queried_at := greatest (d_last_queried_at d) (Some (snd s))\<rparr>"
  "\<lambda>_. True" for now
  by unfold_locales (auto simp: about_upsert_miss)

lemma due_about:
  "due now db s = (case about db (fst s) of
      None \<Rightarrow> False
    | Some u \<Rightarrow>
        (case d_retry_after u of None \<Rightarrow> True | Some t \<Rightarrow> t \<le> now) \<and>
        (case d_measured_at u of None \<Rightarrow> True | Some t \<Rightarrow> t < snd s))"
  by (simp add: due_def about_def split: option.split)

text \<open>A name seen at a time is due when the row it had before says nothing against it.\<close>

definition wanted :: "timestamp \<Rightarrow> timestamp \<Rightarrow> domain_row option \<Rightarrow> bool" where
  "wanted now queried_at d = (case d of
      None \<Rightarrow> True
    | Some u \<Rightarrow>
        (case d_retry_after u of None \<Rightarrow> True | Some t \<Rightarrow> t \<le> now) \<and>
        (case d_measured_at u of None \<Rightarrow> True | Some t \<Rightarrow> t < queried_at))"

lemma fold_upsert_miss_frame:
  "measurement_queue (fold (upsert_miss now) seen db) = measurement_queue db \<and>
   notifications (fold (upsert_miss now) seen db) = notifications db"
  by (induction seen arbitrary: db) (simp_all add: upsert_miss_def)

lemma due_after_upsert:
  assumes "distinct (map fst seen)" and "s \<in> set seen"
  shows "due now (fold (upsert_miss now) seen db) s \<longleftrightarrow> wanted now (snd s) (about db (fst s))"
proof -
  have "about (fold (upsert_miss now) seen db) (fst s) =
      Some (case about db (fst s) of None \<Rightarrow> pending_domain now (fst s) (snd s) 0
        | Some d \<Rightarrow> d\<lparr>d_last_queried_at := greatest (d_last_queried_at d) (Some (snd s))\<rparr>)"
    using miss_rows.look_fold_put_mem [OF TrueI assms, of now db] .
  then show ?thesis
    by (simp add: due_about wanted_def pending_domain_def split: option.split)
qed


lemma write_misses_effect:
  assumes "write_misses now seen db = Inr (queued, db')" and "distinct (map fst seen)" and "queue_ok db"
  shows "about db' k = (case map_of seen k of
        None \<Rightarrow> about db k
      | Some t \<Rightarrow> Some (case about db k of
            None \<Rightarrow> pending_domain now k t 0
          | Some d \<Rightarrow> d\<lparr>d_last_queried_at := greatest (d_last_queried_at d) (Some t)\<rparr>))"
    and "k \<in> set queued \<longleftrightarrow> (\<exists>t. map_of seen k = Some t \<and> wanted now t (about db k) \<and>
      (case find_row q_domain k (measurement_queue db) of None \<Rightarrow> True | Some r \<Rightarrow> revivable now r))"
    and "find_row q_domain k (measurement_queue db') = (if k \<in> set queued
      then Some (case find_row q_domain k (measurement_queue db) of
          None \<Rightarrow> new_job now Miss k | Some r \<Rightarrow> revive now Miss r)
      else find_row q_domain k (measurement_queue db))"
    and "queue_ok db'"
proof -
  let ?u = "fold (upsert_miss now) seen db"
  let ?due = "map fst (filter (due now ?u) seen)"
  note keep = fold_upsert_miss_frame [of now seen db]
  have e: "enqueue now ?due Miss ?u = Inr (queued, db')"
    using assms(1) by (simp add: write_misses_def Let_def split: if_splits)
  have ok: "queue_ok ?u" using assms(3) keep by (simp add: queue_ok_def)
  show "queue_ok db'" using e ok by (rule enqueue_queue_ok)
  have mem: "k \<in> set ?due \<longleftrightarrow> (\<exists>t. map_of seen k = Some t \<and> wanted now t (about db k))"
    using assms(2) by (force simp: due_after_upsert)
  have "domains db' = domains ?u" using enqueue_frame [OF e] by simp
  then have "about db' k = about ?u k" by (simp add: about_def)
  also have "\<dots> = (case map_of seen k of
        None \<Rightarrow> about db k
      | Some t \<Rightarrow> Some (case about db k of
            None \<Rightarrow> pending_domain now k t 0
          | Some d \<Rightarrow> d\<lparr>d_last_queried_at := greatest (d_last_queried_at d) (Some t)\<rparr>))"
  proof (cases "map_of seen k")
    case None
    then have "k \<notin> fst ` set seen" by (simp add: map_of_eq_None_iff)
    then show ?thesis using None by (simp add: miss_rows.look_fold_put_other)
  next
    case (Some t)
    then have "(k, t) \<in> set seen" by (rule map_of_SomeD)
    from miss_rows.look_fold_put_mem [OF TrueI assms(2) this, of now db] Some
    show ?thesis by (simp split: option.split)
  qed
  finally show "about db' k = \<dots>" .
  show q: "k \<in> set queued \<longleftrightarrow> (\<exists>t. map_of seen k = Some t \<and> wanted now t (about db k) \<and>
      (case find_row q_domain k (measurement_queue db) of None \<Rightarrow> True | Some r \<Rightarrow> revivable now r))"
    using e
  proof (cases rule: enqueue_InrE)
    case 1
    then show ?thesis using mem by auto
  next
    case 2
    then show ?thesis using mem keep by auto
  qed
  show "find_row q_domain k (measurement_queue db') = (if k \<in> set queued
      then Some (case find_row q_domain k (measurement_queue db) of
          None \<Rightarrow> new_job now Miss k | Some r \<Rightarrow> revive now Miss r)
      else find_row q_domain k (measurement_queue db))"
    unfolding enqueue_look [OF e ok, of k] mem q using keep
    by (auto simp: revive_def split: option.split)
qed


lemma domains_ok_write_hits:
  assumes "domains_ok db" and "\<And>n c t. map_of hs n = Some (c, t) \<Longrightarrow> 0 < c"
  shows "domains_ok (write_hits hs db)"
proof -
  have "d_id (hit_row (map_of hs) d) = d_id d \<and> d_name (hit_row (map_of hs) d) = d_name d \<and>
      d_hit_count d \<le> d_hit_count (hit_row (map_of hs) d)" for d
    using assms(2) by (force simp: hit_row_def split: option.split)
  then show ?thesis
    using assms(1)
    by (auto simp: domains_ok_def write_hits_def unique_key_def comp_def domain_ok_def
        intro: order_trans)
qed

lemma domains_ok_upsert_misses:
  assumes "domains_ok db" and "\<forall>s \<in> set seen. fst s \<noteq> [] \<and> canonical (fst s)"
  shows "domains_ok (fold (upsert_miss now) seen db)"
  using assms
proof (induction seen arbitrary: db)
  case (Cons s seen)
  have "domains_ok (upsert_miss now s db)"
    unfolding upsert_miss_def using Cons.prems
    by (intro domains_ok_upsert_domain) (simp_all add: pending_domain_def domain_ok_def)
  then show ?case using Cons by simp
qed simp

lemma write_misses_domains_ok:
  assumes "write_misses now seen db = Inr (queued, db')" and "domains_ok db"
  shows "domains_ok db'"
proof -
  let ?u = "fold (upsert_miss now) seen db"
  have "\<forall>s \<in> set seen. fst s \<noteq> [] \<and> canonical (fst s)"
    and e: "enqueue now (map fst (filter (due now ?u) seen)) Miss ?u = Inr (queued, db')"
    using assms(1) by (auto simp: write_misses_def Let_def split: if_splits)
  then have "domains_ok ?u" using assms(2) by (intro domains_ok_upsert_misses) auto
  then show ?thesis using enqueue_frame [OF e] by (simp add: domains_ok_def)
qed

text \<open>The hits of a batch by name, with their times as the database gets them.\<close>

definition stamped_hits :: "Batch \<Rightarrow> string \<rightharpoonup> int \<times> timestamp" where
  "stamped_hits b n = Option.bind (map_of (hits b) n) (\<lambda>(c, t). map_option (Pair c) (ts t))"

lemma stamped_hits_pos: "batch_ok b \<Longrightarrow> stamped_hits b n = Some (c, t) \<Longrightarrow> 0 < c"
  unfolding batch_ok_def stamped_hits_def by (cases "map_of (hits b) n") fastforce+

lemma write_misses_total:
  assumes "\<forall>s \<in> set seen. fst s \<noteq> [] \<and> canonical (fst s)"
  obtains queued db' where "write_misses now seen db = Inr (queued, db')"
proof -
  let ?u = "fold (upsert_miss now) seen db"
  have "\<exists>queued db'. enqueue now (map fst (filter (due now ?u) seen)) Miss ?u = Inr (queued, db')"
    using assms by (auto simp: enqueue_def Let_def)
  then show ?thesis using that assms by (auto simp: write_misses_def Let_def)
qed

lemma counted_hits:
  assumes "stamp_all (\<lambda>(n, t). map_option (Pair n) (ts t)) (by_name (hits b)) = Some hs"
    and "map_of hs = stamped_hits b"
  shows "map_option fst (stamped_hits b n) = map_option fst (map_of (hits b) n)"
proof (cases "map_of (hits b) n")
  case (Some v)
  have "n \<in> set (map fst hs)"
    using Some unfolding stamp_all_keys [OF assms(1)]
    by (metis by_name_def domI dom_map_of_conv_image_fst set_map set_sort)
  then have "stamped_hits b n \<noteq> None"
    unfolding assms(2) [symmetric] by (simp add: map_of_eq_None_iff)
  with Some show ?thesis by (cases v) (auto simp: stamped_hits_def)
qed (simp add: stamped_hits_def)

lemma write_batch_cases:
  assumes "write_batch now link b db = (res, db')" and "batch_ok b"
  obtains (unstamped) "res = Inl OutOfRange" "db' = db"
  | (lost) "res = Inl (Db OperationalError)" "db' = db" "hits b \<noteq> []" "\<not> hits_ok link"
  | (hits_only) hs where "map_of hs = stamped_hits b"
      "\<forall>n. map_option fst (stamped_hits b n) = map_option fst (map_of (hits b) n)" "db' = write_hits hs db"
      "misses b = []" "res = Inr []"
  | (misses_fail) hs e where "map_of hs = stamped_hits b"
      "\<forall>n. map_option fst (stamped_hits b n) = map_option fst (map_of (hits b) n)" "db' = write_hits hs db"
      "misses b \<noteq> []" "res = Inl e"
  | (both) hs seen queued where "map_of hs = stamped_hits b"
      "\<forall>n. map_option fst (stamped_hits b n) = map_option fst (map_of (hits b) n)"
      "map_of seen = (\<lambda>n. Option.bind (map_of (misses b) n) ts)" "map fst seen = map fst (by_name (misses b))"
      "write_misses now seen (write_hits hs db) = Inr (queued, db')" "res = Inr queued"
proof -
  let ?sh = "stamp_all (\<lambda>(n, t). map_option (Pair n) (ts t)) (by_name (hits b))"
  let ?sm = "stamp_all ts (by_name (misses b))"
  have no_hits: "write_hits [] db = db"
    by (simp add: write_hits_def hit_row_def map_idI)
  show ?thesis
  proof (cases ?sh)
    case None
    then show ?thesis using assms(1) unstamped by (simp add: write_batch_def)
  next
    case (Some hs)
    then have hs: "map_of hs = stamped_hits b"
      using assms(2) stamp_all_map_of [OF Some]
      by (auto simp: fun_eq_iff stamped_hits_def map_of_sort_key batch_ok_def)
    have counted: "\<forall>n. map_option fst (stamped_hits b n) = map_option fst (map_of (hits b) n)"
      using counted_hits [OF Some hs] by blast
    have db1: "(if hits b = [] then db else write_hits hs db) = write_hits hs db"
      using Some no_hits by (auto simp: by_name_def)
    show ?thesis
    proof (cases ?sm)
      case None
      then show ?thesis
        using assms(1) Some lost misses_fail [OF hs counted] hits_only [OF hs counted]
        by (auto simp: write_batch_def db1 Let_def split: if_splits)
    next
      case Some2: (Some seen)
      have seen: "map_of seen = (\<lambda>n. Option.bind (map_of (misses b) n) ts)"
        using assms(2) stamp_all_map_of [OF Some2]
        by (auto simp: fun_eq_iff map_of_sort_key batch_ok_def)
      show ?thesis
        using assms(1) Some Some2 lost misses_fail [OF hs counted] hits_only [OF hs counted]
          both [OF hs counted seen stamp_all_keys [OF Some2]]
        by (auto simp: write_batch_def db1 Let_def split: if_splits sum.splits)
    qed
  qed
qed


lemma wanted_hit_row: "wanted now t (map_option (hit_row h) d) = wanted now t d"
  by (auto simp: wanted_def hit_row_def split: option.split)



text \<open>
  C31: Misses are written all or none. When writing a batch fails, for whatever reason, the
  queue and the set of domains are exactly as before, at most hits were counted; and one
  missed name that the schema refuses, the empty one or one that is not in canonical form, is
  enough to make the write fail.
\<close>

theorem failed_batch_loses_all_misses:
  assumes "batch_ok b" and "write_batch now link b db = (res, db')"
  shows "((\<exists>e. res = Inl e) \<longrightarrow> measurement_queue db' = measurement_queue db \<and>
      map d_name (domains db') = map d_name (domains db) \<and>
      (\<forall>n. about db' n = about db n \<or> about db' n = map_option (hit_row (stamped_hits b)) (about db n))) \<and>
    ((\<exists>n \<in> dom (map_of (misses b)). n = [] \<or> \<not> canonical n) \<longrightarrow> (\<exists>e. res = Inl e))"
  using assms(2,1)
proof (cases rule: write_batch_cases)
  case (misses_fail hs e)
  have "d_name (hit_row h d) = d_name d" for h d by (auto simp: hit_row_def split: option.split)
  moreover have "about db' n = map_option (hit_row (stamped_hits b)) (about db n)" for n
    using misses_fail(1,3) by (simp add: about_write_hits)
  ultimately show ?thesis
    using misses_fail by (simp add: write_hits_def comp_def)
next
  case (both hs seen queued)
  have "n \<noteq> [] \<and> canonical n" if "n \<in> dom (map_of (misses b))" for n
  proof -
    have "n \<in> set (map fst seen)"
      using that unfolding both(4) by (simp add: by_name_def dom_map_of_conv_image_fst)
    then show ?thesis using both(5) by (auto simp: write_misses_def split: if_splits)
  qed
  then show ?thesis using both by auto
qed auto

theorem failed_batch_loses_all_misses_witness:
  "\<exists>e. fst (write_batch 9 \<lparr>connects = True, hits_ok = True, misses_ok = True\<rparr>
      (add MISS ''b.net.'' 3 (add MISS ''a.net'' 2 empty_batch)) empty_db) = Inl e"
proof -
  let ?b = "add MISS ''b.net.'' 3 (add MISS ''a.net'' 2 empty_batch)"
  have "\<not> canonical ''b.net.''" by code_simp
  moreover have "''b.net.'' \<in> dom (map_of (misses ?b))" by (simp add: misses_add dom_def)
  ultimately show ?thesis
    using failed_batch_loses_all_misses [OF add_ok [OF add_ok [OF empty_batch_ok]] prod.collapse [symmetric]] by blast
qed


section \<open>The collector over time\<close>

text \<open>
  The event loop interleaves the frames of all connected writers with flushes; a database
  connection can be lost in between. An exception that leaves \<open>on_frame\<close> ends the session of
  its writer and nothing else; one that leaves \<open>flush\<close> ends the service (\<open>None\<close>).
\<close>

datatype collector_op =
    Op_frame rat bytes
  | Op_flush timestamp link
  | Op_conn_lost

fun collector_run ::
  "(bytes \<Rightarrow> dns_message option) \<Rightarrow> collector_op list \<Rightarrow> Collector \<times> db \<Rightarrow> (Collector \<times> db) option" where
  "collector_run from_wire [] (c, db) = Some (c, db)"
| "collector_run from_wire (Op_frame t f # ops) (c, db) =
     (case on_frame from_wire t f c of
        Inl _ \<Rightarrow> collector_run from_wire ops (c, db)
      | Inr c' \<Rightarrow> collector_run from_wire ops (c', db))"
| "collector_run from_wire (Op_flush now link # ops) (c, db) =
     (case flush now link c db of
        (True, c', db') \<Rightarrow> collector_run from_wire ops (c', db')
      | (False, _, _) \<Rightarrow> None)"
| "collector_run from_wire (Op_conn_lost # ops) (c, db) =
     collector_run from_wire ops (if conn c = OpenConn then c\<lparr>conn := ClosedConn\<rparr> else c, db)"

text \<open>The event that a frame stands for, if any.\<close>

definition event_of :: "(bytes \<Rightarrow> dns_message option) \<Rightarrow> string set \<Rightarrow> rat \<Rightarrow> bytes \<Rightarrow> Event option" where
  "event_of from_wire ignore t f = (case decode_client_response f of
      Inr (Some response) \<Rightarrow> classify from_wire t response ignore | _ \<Rightarrow> None)"

lemma on_frame_event:
  "(case on_frame from_wire t f c of Inl _ \<Rightarrow> c | Inr c' \<Rightarrow> c') =
   (case event_of from_wire (ignore_suffixes c) t f of None \<Rightarrow> c | Some e \<Rightarrow> record_event e c)"
  by (auto simp: on_frame_def event_of_def split: sum.split option.split decode_error.split)

lemma record_event_fields:
  "batch (record_event e c) = add_event e (batch c)"
  "ignore_suffixes (record_event e c) = ignore_suffixes c"
  by (simp_all add: record_event_def Let_def)

lemma collector_run_frame:
  "collector_run from_wire (Op_frame t f # ops) (c, db) =
   collector_run from_wire ops
     (case event_of from_wire (ignore_suffixes c) t f of None \<Rightarrow> c | Some e \<Rightarrow> record_event e c, db)"
  by (simp add: on_frame_event [symmetric] split: sum.split)

text \<open>A flush leaves an empty batch, and the database as some \<open>write_batch\<close> leaves it, or untouched.\<close>

lemma flush_cases:
  assumes "flush now link c db = (True, c', db')"
  obtains (nothing) "batch_len (batch c) = 0" "db' = db"
  | (dropped) "db' = db" "\<not> connects link"
  | (tried) res where "write_batch now link (batch c) db = (res, db')" "res \<noteq> Inl OutOfRange"
  using assms by (auto simp: flush_def Let_def split: if_splits sum.splits write_error.splits prod.splits)

lemma flush_written:
  "write_batch now link (batch c) db = (Inr queued, db') \<Longrightarrow> connects link \<Longrightarrow>
   \<exists>c1 db1. flush now link c db = (True, c1, db1)"
  by (simp add: flush_def Let_def)

lemma flush_fields:
  assumes "flush now link c db = (ok, c', db')"
  shows "batch c' = empty_batch" "ignore_suffixes c' = ignore_suffixes c"
  using assms by (auto simp: flush_def Let_def split: if_splits sum.splits write_error.splits prod.splits)

text \<open>What holds at every moment of a run.\<close>

definition names_ok :: "string set \<Rightarrow> string set \<Rightarrow> bool" where
  "names_ok ignore names \<longleftrightarrow>
     (\<forall>n \<in> names. \<not> is_ignored n ignore \<and> lower n = n \<and> CHR ''.'' \<in> set n)"

definition batch_names :: "Batch \<Rightarrow> string set" where
  "batch_names b = dom (map_of (hits b)) \<union> dom (map_of (misses b))"

lemma batch_names_add: "batch_names (add k n t b) = insert n (batch_names b)"
  by (cases k) (auto simp: batch_names_def dom_def hits_add misses_add)

lemma batch_names_empty [simp]: "batch_names empty_batch = {}"
  by (simp add: batch_names_def empty_batch_def)

definition known_names :: "db \<Rightarrow> string set" where
  "known_names db = d_name ` set (domains db) \<union> q_domain ` set (measurement_queue db)"

lemma dom_about: "dom (about db) = d_name ` set (domains db)"
proof (rule set_eqI)
  show "n \<in> dom (about db) \<longleftrightarrow> n \<in> d_name ` set (domains db)" for n
    using find_row_None [of d_name n "domains db"] by (auto simp: about_def dom_def)
qed

lemma known_names_look:
  "n \<in> known_names db \<longleftrightarrow> about db n \<noteq> None \<or> find_row q_domain n (measurement_queue db) \<noteq> None"
  using dom_about [of db] by (auto simp: known_names_def find_row_None)

lemma write_hits_names:
  "measurement_queue (write_hits hs db) = measurement_queue db"
  "known_names (write_hits hs db) = known_names db"
proof -
  show q: "measurement_queue (write_hits hs db) = measurement_queue db" by (simp add: write_hits_def)
  show "known_names (write_hits hs db) = known_names db"
    by (rule set_eqI) (simp add: known_names_look about_write_hits q)
qed

lemma write_misses_names:
  assumes "write_misses now seen db = Inr (queued, db')" and "distinct (map fst seen)" and "queue_ok db"
  shows "known_names db' \<subseteq> known_names db \<union> fst ` set seen"
    and "about db n = Some d \<Longrightarrow> \<exists>d'. about db' n = Some d' \<and> d_hit_count d' = d_hit_count d"
proof -
  note eff = write_misses_effect(1-3) [OF assms]
  have "n \<in> known_names db \<or> n \<in> dom (map_of seen)" if "n \<in> known_names db'" for n
    using that eff(1,2) [of n] unfolding known_names_look eff(3) [of n]
    by (auto split: if_splits option.splits)
  then show "known_names db' \<subseteq> known_names db \<union> fst ` set seen"
    by (auto simp: dom_map_of_conv_image_fst)
  show "\<exists>d'. about db' n = Some d' \<and> d_hit_count d' = d_hit_count d" if "about db n = Some d"
    using that unfolding eff(1) [of n] by (auto split: option.split)
qed

definition hits_in :: "Batch \<Rightarrow> string \<Rightarrow> int" where
  "hits_in b n = (case map_of (hits b) n of None \<Rightarrow> 0 | Some (k, _) \<Rightarrow> k)"

lemma hit_row_counted:
  assumes "map_of hs = stamped_hits b" and "about db n = Some d"
    and "\<forall>n. map_option fst (stamped_hits b n) = map_option fst (map_of (hits b) n)"
  shows "d_hit_count (hit_row (map_of hs) d) = d_hit_count d + hits_in b n"
proof -
  have "d_name d = n" using assms(2) by (auto simp: about_def dest: find_row_SomeD)
  moreover have "map_option fst (stamped_hits b n) = map_option fst (map_of (hits b) n)" using assms(3) ..
  ultimately show ?thesis
    using assms(1) by (auto simp: hit_row_def hits_in_def split: option.split)
qed

lemma write_batch_names:
  assumes "batch_ok b" and "queue_ok db" and "write_batch now link b db = (res, db')"
  shows "known_names db' \<subseteq> known_names db \<union> batch_names b \<and> queue_ok db' \<and>
    (hits_ok link \<longrightarrow> res \<noteq> Inl OutOfRange \<longrightarrow> about db n = Some d \<longrightarrow>
      (\<exists>d'. about db' n = Some d' \<and> d_hit_count d' = d_hit_count d + hits_in b n))"
  using assms(3,1)
proof (cases rule: write_batch_cases)
  case (hits_only hs)
  then show ?thesis
    using write_hits_names [of hs db] hit_row_counted [OF hits_only(1) _ hits_only(2)] assms(2)
    by (auto simp: about_write_hits queue_ok_def)
next
  case (misses_fail hs e)
  then show ?thesis
    using write_hits_names [of hs db] hit_row_counted [OF misses_fail(1) _ misses_fail(2)] assms(2)
    by (auto simp: about_write_hits queue_ok_def)
next
  case (both hs seen queued)
  have d: "distinct (map fst seen)"
    using assms(1) both(4) by (simp add: batch_ok_def distinct_by_name)
  have ok: "queue_ok (write_hits hs db)" using assms(2) by (simp add: queue_ok_def write_hits_names)
  have "fst ` set seen = fst ` set (misses b)"
    using both(4) by (metis by_name_def set_map set_sort)
  then have "fst ` set seen \<subseteq> batch_names b" by (auto simp: batch_names_def dom_map_of_conv_image_fst)
  then have "known_names db' \<subseteq> known_names db \<union> batch_names b"
    using write_misses_names(1) [OF both(5) d ok] write_hits_names(2) [of hs db] by blast
  moreover have "\<exists>d'. about db' n = Some d' \<and> d_hit_count d' = d_hit_count d + hits_in b n"
    if "about db n = Some d"
    using write_misses_names(2) [OF both(5) d ok, of n "hit_row (map_of hs) d"] that
      hit_row_counted [OF both(1) that both(2)] by (simp add: about_write_hits)
  ultimately show ?thesis using write_misses_effect(4) [OF both(5) d ok] by blast
qed (use assms(2) in auto)


definition run_inv :: "string set \<Rightarrow> string set \<Rightarrow> Collector \<times> db \<Rightarrow> bool" where
  "run_inv ignore names0 = (\<lambda>(c, db). ignore_suffixes c = ignore \<and> batch_ok (batch c) \<and>
     names_ok ignore (batch_names (batch c)) \<and> queue_ok db \<and>
     names_ok ignore (known_names db - names0))"

lemma run_inv_frame:
  assumes "run_inv ignore names0 (c, db)"
  shows "run_inv ignore names0
    (case event_of from_wire (ignore_suffixes c) t f of None \<Rightarrow> c | Some e \<Rightarrow> record_event e c, db)"
proof (cases "event_of from_wire (ignore_suffixes c) t f")
  case (Some e)
  then obtain response where "classify from_wire t response (ignore_suffixes c) = Some e"
    by (auto simp: event_of_def split: sum.splits option.splits)
  from classify_SomeD [OF this] assms Some show ?thesis
    by (auto simp: run_inv_def record_event_fields batch_names_add add_ok names_ok_def)
qed (use assms in simp)

lemma run_inv_flush:
  assumes "run_inv ignore names0 (c, db)" and "flush now link c db = (True, c', db')"
  shows "run_inv ignore names0 (c', db')"
proof -
  have inv: "batch_ok (batch c)" "queue_ok db" "names_ok ignore (batch_names (batch c))"
    "names_ok ignore (known_names db - names0)" "ignore_suffixes c = ignore"
    using assms(1) by (auto simp: run_inv_def)
  have "queue_ok db' \<and> known_names db' \<subseteq> known_names db \<union> batch_names (batch c)"
    using assms(2)
  proof (cases rule: flush_cases)
    case (tried res)
    then show ?thesis using write_batch_names [OF inv(1,2) tried(1)] by blast
  qed (use inv in auto)
  with inv show ?thesis
    by (auto simp: run_inv_def flush_fields [OF assms(2)] empty_batch_ok names_ok_def)
qed

lemma run_inv_run:
  "run_inv ignore names0 (c, db) \<Longrightarrow> collector_run from_wire ops (c, db) = Some (c', db') \<Longrightarrow>
   run_inv ignore names0 (c', db')"
proof (induction from_wire ops "(c, db)" arbitrary: c db rule: collector_run.induct)
  case (2 from_wire t f ops c db)
  show ?case
    using run_inv_frame [OF "2.prems"(1), of from_wire t f] "2.prems"(2) "2.hyps"
    by (auto simp: on_frame_event [symmetric] split: sum.splits)
next
  case (3 from_wire now link ops c db)
  then show ?case
    by (auto split: prod.splits bool.splits dest: run_inv_flush)
next
  case (4 from_wire ops c db)
  then show ?case by (auto simp: run_inv_def split: if_splits)
qed simp

text \<open>
  C32: Names of no interest never get in. Whatever frames writers send and whenever flushes
  happen or fail, every name in the current batch, and every name that has entered the table
  of domains or the queue since the start, is in lower case, has at least two labels and lies
  under none of the ignored suffixes.
\<close>

theorem ignored_names_never_recorded:
  assumes "queue_ok db"
    and "collector_run from_wire ops (new_collector ignore limit, db) = Some (c, db')"
  shows "\<forall>n \<in> batch_names (batch c) \<union> (known_names db' - known_names db).
    \<not> is_ignored n ignore \<and> lower n = n \<and> CHR ''.'' \<in> set n"
proof -
  have "run_inv ignore (known_names db) (new_collector ignore limit, db)"
    using assms(1) by (simp add: run_inv_def new_collector_def empty_batch_ok names_ok_def)
  from run_inv_run [OF this assms(2)] show ?thesis by (auto simp: run_inv_def names_ok_def)
qed


text \<open>A concrete frame: an authoritative answer for \<open>WWW.a.net\<close> at time 10.\<close>

definition sample_message :: "(nat \<times> pb_value) list" where
  "sample_message = [(1, PInt 6), (12, PInt 10), (14, PBytes [7])]"

definition sample_frame :: bytes where
  "sample_frame = concat (map enc_pb [(15, PInt 1), (14, PBytes (concat (map enc_pb sample_message)))])"

definition sample_from_wire :: "bytes \<Rightarrow> dns_message option" where
  "sample_from_wire w = Some \<lparr>m_opcode = 0, m_flags = 1024, m_rcode = 0,
     m_question = [\<lparr>q_text = ''WWW.a.net'', q_rdclass = 1, q_rdtype = 28\<rparr>]\<rparr>"

lemma sample_event:
  "event_of sample_from_wire {''local''} t sample_frame =
     Some \<lparr>ev_kind = HIT, ev_name = ''www.a.net'', ev_time = 10\<rparr>"
proof -
  have "length (concat (map enc_pb sample_message)) < 2 ^ 70"
    using length_enc_varint_le [of 8] length_enc_varint_le [of 6] length_enc_varint_le [of 96]
      length_enc_varint_le [of 10] length_enc_varint_le [of 114] length_enc_varint_le [of 1]
    by (simp add: sample_message_def enc_pb_def)
  then have "decode_client_response sample_frame =
      Inr (Some \<lparr>response_time = Some 10, wire = [7]\<rparr>)"
    unfolding sample_frame_def
    by (subst decode_client_response_enc [where w = "[7]" and ms = sample_message])
       (simp_all add: pb_ok_def last_some_def any_field_def int_field_def bytes_field_def
         map_filter_simps sample_message_def DNSTAP_TYPE_MESSAGE_def MESSAGE_CLIENT_RESPONSE_def)
  moreover have l: "lower ''WWW.a.net'' = ''www.a.net''" by code_simp
  moreover have "\<not> is_ignored ''www.a.net'' {''local''}" by code_simp
  moreover have "1024 AND FLAG_AA \<noteq> 0" by (simp add: FLAG_AA_def)
  ultimately show ?thesis
    by (simp add: event_of_def classify_def sample_from_wire_def OPCODE_QUERY_def CLASS_IN_def
        ADDRESS_TYPES_def TYPE_AAAA_def)
qed

theorem ignored_names_never_recorded_witness:
  "\<exists>c db'. collector_run sample_from_wire [Op_frame 1 sample_frame, Op_conn_lost]
      (new_collector {''local''} 9, empty_db) = Some (c, db') \<and>
     ''www.a.net'' \<in> batch_names (batch c) \<and> \<not> is_ignored ''www.a.net'' {''local''}"
proof -
  have i: "ignore_suffixes (new_collector {''local''} 9) = {''local''}" by (simp add: new_collector_def)
  obtain c db' where run: "collector_run sample_from_wire [Op_frame 1 sample_frame, Op_conn_lost]
      (new_collector {''local''} 9, empty_db) = Some (c, db')"
    and b: "batch_names (batch c) = {''www.a.net''}"
    unfolding collector_run_frame i sample_event
    by (auto simp: record_event_fields batch_names_add new_collector_def)
  have "queue_ok empty_db" using empty_db_ok by (simp add: db_ok_def)
  from ignored_names_never_recorded [OF this run] run b show ?thesis by auto
qed

subsection \<open>No hit is lost while the database is up\<close>

fun is_hit :: "(bytes \<Rightarrow> dns_message option) \<Rightarrow> string set \<Rightarrow> string \<Rightarrow> collector_op \<Rightarrow> bool" where
  "is_hit from_wire ignore n (Op_frame t f) \<longleftrightarrow>
     (case event_of from_wire ignore t f of None \<Rightarrow> False | Some e \<Rightarrow> ev_kind e = HIT \<and> ev_name e = n)"
| "is_hit from_wire ignore n _ \<longleftrightarrow> False"

lemma hits_in_record_event:
  "hits_in (batch (record_event e c)) n =
     hits_in (batch c) n + (if ev_kind e = HIT \<and> ev_name e = n then 1 else 0)"
  by (auto simp: record_event_fields hits_in_def hits_add split: option.split)

lemma hits_in_empty_batch [simp]: "hits_in empty_batch n = 0"
  by (simp add: hits_in_def empty_batch_def)

lemma flush_keeps_hits:
  assumes "run_inv ignore names0 (c, db)" and "flush now link c db = (True, c', db')"
    and "connects link" and "hits_ok link" and "about db n = Some d"
  shows "\<exists>d'. about db' n = Some d' \<and>
    d_hit_count d' + hits_in (batch c') n = d_hit_count d + hits_in (batch c) n"
  using assms(2)
proof (cases rule: flush_cases)
  case nothing
  then show ?thesis
    using assms(5) by (simp add: flush_fields [OF assms(2)] batch_len_def hits_in_def empty_batch_def)
next
  case (tried res)
  have "batch_ok (batch c)" "queue_ok db" using assms(1) by (auto simp: run_inv_def)
  from write_batch_names [OF this tried(1), of n d] show ?thesis
    using assms(4,5) tried(2) by (auto simp: flush_fields [OF assms(2)])
qed (use assms(3) in simp)

lemma hits_run:
  "run_inv ignore names0 (c, db) \<Longrightarrow> about db n = Some d \<Longrightarrow>
   \<forall>now link. Op_flush now link \<in> set ops \<longrightarrow> connects link \<and> hits_ok link \<Longrightarrow>
   collector_run from_wire ops (c, db) = Some (c', db') \<Longrightarrow>
   \<exists>d'. about db' n = Some d' \<and> d_hit_count d' + hits_in (batch c') n =
     d_hit_count d + hits_in (batch c) n + int (length (filter (is_hit from_wire ignore n) ops))"
proof (induction from_wire ops "(c, db)" arbitrary: c db d rule: collector_run.induct)
  case (2 from_wire t f ops c db)
  let ?c = "case event_of from_wire (ignore_suffixes c) t f of None \<Rightarrow> c | Some e \<Rightarrow> record_event e c"
  have i: "ignore_suffixes c = ignore" using "2.prems"(1) by (simp add: run_inv_def)
  have step: "hits_in (batch ?c) n =
      hits_in (batch c) n + (if is_hit from_wire ignore n (Op_frame t f) then 1 else 0)"
    by (auto simp: i hits_in_record_event split: option.split)
  have "\<exists>d'. about db' n = Some d' \<and> d_hit_count d' + hits_in (batch c') n =
      d_hit_count d + hits_in (batch ?c) n + int (length (filter (is_hit from_wire ignore n) ops))"
    using "2.hyps" run_inv_frame [OF "2.prems"(1), of from_wire t f] "2.prems"(2-4)
    by (auto simp: on_frame_event [symmetric] split: sum.splits)
  then show ?case unfolding step by (auto simp del: is_hit.simps)
next
  case (3 from_wire now link ops c db)
  obtain c1 db1 where f: "flush now link c db = (True, c1, db1)"
    using "3.prems"(4) by (auto split: prod.splits bool.splits)
  from flush_keeps_hits [OF "3.prems"(1) f _ _ "3.prems"(2)] "3.prems"(3)
  obtain d1 where d1: "about db1 n = Some d1"
    "d_hit_count d1 + hits_in (batch c1) n = d_hit_count d + hits_in (batch c) n" by auto
  have "\<exists>d'. about db' n = Some d' \<and> d_hit_count d' + hits_in (batch c') n =
      d_hit_count d1 + hits_in (batch c1) n + int (length (filter (is_hit from_wire ignore n) ops))"
    using "3.hyps" [OF f [symmetric]] f "3.prems" d1(1) run_inv_flush [OF "3.prems"(1) f] by simp
  then show ?case using d1(2) by simp
next
  case (4 from_wire ops c db)
  let ?c = "if conn c = OpenConn then c\<lparr>conn := ClosedConn\<rparr> else c"
  have b: "batch ?c = batch c" and "run_inv ignore names0 (?c, db)"
    using "4.prems"(1) by (simp_all add: run_inv_def)
  then show ?case using "4.hyps" "4.prems"(2-4) unfolding b by simp
qed simp



definition sample_db :: db where
  "sample_db = empty_db\<lparr>domains := [pending_domain 0 ''www.a.net'' 0 1], next_domain_id := 2\<rparr>"


end
