(* ===== verification/Json.thy ===== *)
theory Json
  imports Prelude
begin

text \<open>
  JSON values as Python's \<open>json\<close> gives them to the HTTP clients, the operations the clients
  apply to them, the exceptions these raise, and HTTP responses. Numbers are integers or exact
  rationals. The text that
  \<open>float(s)\<close> accepts is parsed here, apart from its spellings of infinities and NaN, which
  are outside the model and count as no number.
\<close>

section \<open>Values and exceptions\<close>

datatype json =
    JNull
  | JBool bool
  | JInt int
  | JFloat rat
  | JStr string
  | JList "json list"
  | JObj "(string \<times> json) list"

datatype py_error = KeyError | TypeError | ValueError | AttributeError | IndexError

fun truthy :: "json \<Rightarrow> bool" where
  "truthy JNull = False"
| "truthy (JBool b) = b"
| "truthy (JInt n) = (n \<noteq> 0)"
| "truthy (JFloat q) = (q \<noteq> 0)"
| "truthy (JStr s) = (s \<noteq> [])"
| "truthy (JList xs) = (xs \<noteq> [])"
| "truthy (JObj kvs) = (kvs \<noteq> [])"

text \<open>\<open>x[key]\<close> for a string key, \<open>x[0]\<close>, and \<open>x.get(key)\<close>.\<close>

fun item :: "json \<Rightarrow> string \<Rightarrow> py_error + json" where
  "item (JObj kvs) key = (case map_of kvs key of None \<Rightarrow> Inl KeyError | Some v \<Rightarrow> Inr v)"
| "item _ key = Inl TypeError"

fun first_item :: "json \<Rightarrow> py_error + json" where
  "first_item (JList (x # _)) = Inr x"
| "first_item (JList []) = Inl IndexError"
| "first_item (JStr (c # _)) = Inr (JStr [c])"
| "first_item (JStr []) = Inl IndexError"
| "first_item (JObj _) = Inl KeyError"
| "first_item _ = Inl TypeError"

fun json_get :: "json \<Rightarrow> string \<Rightarrow> py_error + json" where
  "json_get (JObj kvs) key = Inr (case map_of kvs key of None \<Rightarrow> JNull | Some v \<Rightarrow> v)"
| "json_get _ key = Inl AttributeError"

section \<open>Numbers in text\<close>

definition is_digit :: "char \<Rightarrow> bool" where
  "is_digit c \<longleftrightarrow> 48 \<le> (of_char c :: nat) \<and> (of_char c :: nat) \<le> 57"

definition digit_value :: "char \<Rightarrow> nat" where
  "digit_value c = of_char c - 48"

definition is_space :: "char \<Rightarrow> bool" where
  "is_space c \<longleftrightarrow> (of_char c :: nat) \<in> {9, 10, 11, 12, 13, 28, 29, 30, 31, 32}"

text \<open>\<open>str.strip()\<close>.\<close>

definition strip :: "string \<Rightarrow> string" where
  "strip s = rev (dropWhile is_space (rev (dropWhile is_space s)))"

text \<open>A run of digits, with single underscores between them.\<close>

fun more_digits :: "string \<Rightarrow> nat list \<times> string" where
  "more_digits [] = ([], [])"
| "more_digits (c # s) =
     (if is_digit c then (let (ds, r) = more_digits s in (digit_value c # ds, r))
      else if c = CHR ''_'' then
        (case s of
           d # s' \<Rightarrow> if is_digit d then more_digits s else ([], c # s)
         | [] \<Rightarrow> ([], c # s))
      else ([], c # s))"

definition digits :: "string \<Rightarrow> nat list \<times> string" where
  "digits s = (case s of [] \<Rightarrow> ([], []) | c # _ \<Rightarrow> if is_digit c then more_digits s else ([], s))"

definition digits_value :: "nat list \<Rightarrow> nat" where
  "digits_value ds = foldl (\<lambda>acc d. 10 * acc + d) 0 ds"

definition sign :: "string \<Rightarrow> rat \<times> string" where
  "sign s = (case s of
      [] \<Rightarrow> (1, []) | c # r \<Rightarrow> if c = CHR ''-'' then (-1, r) else if c = CHR ''+'' then (1, r) else (1, s))"

text \<open>The exponent part; an empty rest has none.\<close>

definition exponent :: "string \<Rightarrow> rat option" where
  "exponent s = (case s of
      [] \<Rightarrow> Some 1
    | c # r \<Rightarrow>
        if c = CHR ''e'' \<or> c = CHR ''E'' then
          (case sign r of (sg, r') \<Rightarrow> (case digits r' of (ds, rest) \<Rightarrow>
             if ds = [] \<or> rest \<noteq> [] then None
             else Some (if sg < 0 then 1 / 10 ^ digits_value ds else 10 ^ digits_value ds)))
        else None)"

definition py_float :: "string \<Rightarrow> rat option" where
  "py_float text =
     (case sign (strip text) of (sg, s) \<Rightarrow> (case digits s of (whole, r) \<Rightarrow>
        (case (case r of c # r' \<Rightarrow> if c = CHR ''.'' then digits r' else ([], r) | [] \<Rightarrow> ([], []))
         of (fraction, rest) \<Rightarrow>
           if whole = [] \<and> fraction = [] then None
           else map_option (\<lambda>e. sg * (of_nat (digits_value (whole @ fraction)) / 10 ^ length fraction) * e)
                  (exponent rest))))"

text \<open>\<open>float(x)\<close> of a JSON value.\<close>

fun float_of :: "json \<Rightarrow> py_error + rat" where
  "float_of (JInt n) = Inr (of_int n)"
| "float_of (JFloat q) = Inr q"
| "float_of (JBool b) = Inr (if b then 1 else 0)"
| "float_of (JStr s) = (case py_float s of None \<Rightarrow> Inl ValueError | Some q \<Rightarrow> Inr q)"
| "float_of _ = Inl TypeError"


section \<open>HTTP responses\<close>

text \<open>The body is \<open>None\<close> when it is no JSON. Of the headers only \<open>Retry-After\<close> is read.\<close>

record http_response =
  status_code :: int
  resp_body :: "json option"
  retry_after_header :: "string option"

end
