(* ===== verification/Config.thy ===== *)
theory Config
  imports Json Queue_Pg
begin

text \<open>
  Settings (\<open>config.py\<close>): the fields with the bounds pydantic checks, the validator of the
  resolver list and the derived properties. How pydantic reads the environment is outside, and
  so is \<open>ipaddress.ip_address\<close>, the argument \<open>is_address\<close>. Paths and secrets are text.
\<close>

section \<open>Fields\<close>

record Settings =
  upstream_resolvers :: string
  resolver_timeout :: rat
  ipinfo_mmdb :: "string option"
  ipinfo_token :: "string option"
  anycast_lookup_setting :: bool
  geo_max_age_days :: int
  watttime_username :: "string option"
  watttime_password :: "string option"
  watttime_signal_type :: string
  watttime_requests_per_second :: rat
  carbon_max_age_seconds :: int
  region_negative_days :: int
  negative_min_seconds :: int
  negative_max_seconds :: int
  failed_retry_seconds :: int
  http_timeout :: rat
  log_level :: string
  log_format :: string
  metrics_port :: int
  metrics_refresh_seconds :: rat
  health_dir :: string
  worker_concurrency :: int
  worker_grace_seconds :: rat
  queue_poll_seconds :: rat
  queue_lock_timeout_seconds :: int
  queue_max_attempts :: int
  queue_retry_base_seconds :: int
  queue_retry_max_seconds :: int
  queue_dead_cooldown_seconds :: int
  monitor_scan_seconds :: rat
  monitor_lead_seconds :: int
  monitor_activity_window_seconds :: int
  monitor_min_remeasure_seconds :: int
  monitor_carbon_check_seconds :: rat
  carbon_period_seconds :: int
  carbon_unavailable_backoff_seconds :: int
  monitor_gc_seconds :: rat
  gc_domain_retention_days :: int
  gc_endpoint_retention_days :: int
  gc_carbon_history_days :: int
  dnstap_socket :: string
  collector_flush_seconds :: rat
  collector_max_batch :: int
  collector_ignore_suffixes :: string

definition DEFAULT_RESOLVERS :: string where
  "DEFAULT_RESOLVERS = ''8.8.8.8,1.1.1.1,9.9.9.9,45.90.28.243,208.67.222.222''"

definition default_config :: Settings where
  "default_config = \<lparr>
     upstream_resolvers = DEFAULT_RESOLVERS, resolver_timeout = 2,
     ipinfo_mmdb = Some ''/data/ipinfo/ipinfo_location.mmdb'', ipinfo_token = None,
     anycast_lookup_setting = True, geo_max_age_days = 30,
     watttime_username = None, watttime_password = None, watttime_signal_type = ''co2_moer'',
     watttime_requests_per_second = 10, carbon_max_age_seconds = 300, region_negative_days = 30,
     negative_min_seconds = 300, negative_max_seconds = 3600, failed_retry_seconds = 60,
     http_timeout = 10, log_level = ''INFO'', log_format = ''json'', metrics_port = 9100,
     metrics_refresh_seconds = 15, health_dir = ''/tmp/cadns'',
     worker_concurrency = 4, worker_grace_seconds = 20, queue_poll_seconds = 10,
     queue_lock_timeout_seconds = 300, queue_max_attempts = 5, queue_retry_base_seconds = 30,
     queue_retry_max_seconds = 3600, queue_dead_cooldown_seconds = 86400,
     monitor_scan_seconds = 5, monitor_lead_seconds = 15, monitor_activity_window_seconds = 3600,
     monitor_min_remeasure_seconds = 10, monitor_carbon_check_seconds = 60,
     carbon_period_seconds = 300, carbon_unavailable_backoff_seconds = 3600,
     monitor_gc_seconds = 3600, gc_domain_retention_days = 7, gc_endpoint_retention_days = 30,
     gc_carbon_history_days = 30, dnstap_socket = ''/run/cadns/dnstap.sock'',
     collector_flush_seconds = 1, collector_max_batch = 5000,
     collector_ignore_suffixes = ''test,example,invalid,localhost,local,onion,alt,arpa,internal,lan,home,corp,example.com,example.net,example.org''\<rparr>"

text \<open>The bounds of the fields.\<close>

definition fields_valid :: "Settings \<Rightarrow> bool" where
  "fields_valid s \<longleftrightarrow>
     0 < resolver_timeout s \<and> resolver_timeout s \<le> 30 \<and> 1 \<le> geo_max_age_days s \<and>
     0 < watttime_requests_per_second s \<and> 1 \<le> carbon_max_age_seconds s \<and> 1 \<le> region_negative_days s \<and>
     0 \<le> negative_min_seconds s \<and> 0 \<le> negative_max_seconds s \<and> 0 \<le> failed_retry_seconds s \<and>
     0 < http_timeout s \<and> 0 \<le> metrics_port s \<and> metrics_port s \<le> 65535 \<and> 0 < metrics_refresh_seconds s \<and>
     1 \<le> worker_concurrency s \<and> worker_concurrency s \<le> 64 \<and> 0 \<le> worker_grace_seconds s \<and>
     0 < queue_poll_seconds s \<and> 1 \<le> queue_lock_timeout_seconds s \<and> 1 \<le> queue_max_attempts s \<and>
     1 \<le> queue_retry_base_seconds s \<and> 1 \<le> queue_retry_max_seconds s \<and> 0 \<le> queue_dead_cooldown_seconds s \<and>
     0 < monitor_scan_seconds s \<and> 0 \<le> monitor_lead_seconds s \<and> 1 \<le> monitor_activity_window_seconds s \<and>
     0 \<le> monitor_min_remeasure_seconds s \<and> 0 < monitor_carbon_check_seconds s \<and> 1 \<le> carbon_period_seconds s \<and>
     0 \<le> carbon_unavailable_backoff_seconds s \<and> 0 < monitor_gc_seconds s \<and> 1 \<le> gc_domain_retention_days s \<and>
     1 \<le> gc_endpoint_retention_days s \<and> 0 \<le> gc_carbon_history_days s \<and>
     0 < collector_flush_seconds s \<and> 1 \<le> collector_max_batch s"

section \<open>Validators and derived properties\<close>

definition empty_is_none :: "string option \<Rightarrow> string option" where
  "empty_is_none v = (if v = Some [] then None else v)"

definition valid_resolvers :: "(string \<Rightarrow> bool) \<Rightarrow> string \<Rightarrow> string option" where
  "valid_resolvers is_address val =
     (let addresses = filter (\<lambda>p. p \<noteq> []) (map strip (split_on (CHR '','') val))
      in if addresses = [] \<or> (\<exists>a \<in> set addresses. \<not> is_address a) then None
         else Some (join '','' addresses))"

text \<open>The settings after validation, or none.\<close>

definition validated :: "(string \<Rightarrow> bool) \<Rightarrow> Settings \<Rightarrow> Settings option" where
  "validated is_address s =
     (if \<not> fields_valid s then None
      else case valid_resolvers is_address (upstream_resolvers s) of
        None \<Rightarrow> None
      | Some r \<Rightarrow> Some (s\<lparr>upstream_resolvers := r, ipinfo_token := empty_is_none (ipinfo_token s),
          watttime_password := empty_is_none (watttime_password s),
          watttime_username := empty_is_none (watttime_username s)\<rparr>))"

definition resolvers :: "Settings \<Rightarrow> string list" where
  "resolvers s = split_on (CHR '','') (upstream_resolvers s)"

definition strip_dots :: "string \<Rightarrow> string" where
  "strip_dots s = rtrim (CHR ''.'') (dropWhile (\<lambda>c. c = CHR ''.'') s)"

definition ignore_suffixes :: "Settings \<Rightarrow> string set" where
  "ignore_suffixes s =
     set (map (\<lambda>p. lower (strip_dots (strip p)))
       (filter (\<lambda>p. strip_dots (strip p) \<noteq> []) (split_on (CHR '','') (collector_ignore_suffixes s))))"

definition queue_policy :: "Settings \<Rightarrow> QueuePolicy" where
  "queue_policy s = \<lparr>lock_timeout_seconds = queue_lock_timeout_seconds s, max_attempts = queue_max_attempts s,
     retry_base_seconds = queue_retry_base_seconds s, retry_max_seconds = queue_retry_max_seconds s,
     dead_cooldown_seconds = queue_dead_cooldown_seconds s\<rparr>"

section \<open>The validated resolver list\<close>

lemma dropWhile_hd: "dropWhile P s \<noteq> [] \<Longrightarrow> \<not> P (hd (dropWhile P s))"
  by (induction s) auto

lemma strip_idem: "strip (strip s) = strip s"
proof -
  let ?l = "dropWhile is_space s"
  let ?t = "dropWhile is_space (rev ?l)"
  have "dropWhile is_space (rev ?t) = rev ?t"
  proof (cases "?t = []")
    case False
    have "last ?t = last (rev ?l)"
      using False by (metis last_appendR takeWhile_dropWhile_id)
    moreover have "?l \<noteq> []" using False by (cases "?l = []") simp_all
    ultimately have "\<not> is_space (hd (rev ?t))"
      using False dropWhile_hd [of is_space s] by (simp add: hd_rev last_rev)
    then show ?thesis using False by (cases "rev ?t") auto
  next
    case True
    show ?thesis by (simp only: True) simp
  qed
  moreover have "dropWhile is_space ?t = ?t" by (simp add: dropWhile_idem)
  ultimately show ?thesis by (simp add: strip_def)
qed

lemma set_strip: "set (strip s) \<subseteq> set s"
  by (auto simp: strip_def dest!: set_dropWhileD)


lemma stripped_parts:
  defines "parts v \<equiv> filter (\<lambda>p. p \<noteq> []) (map strip (split_on (CHR '','') v))"
  assumes "parts v \<noteq> []"
  shows "split_on (CHR '','') (join '','' (parts v)) = parts v" and "parts (join '','' (parts v)) = parts v"
proof -
  have "CHR '','' \<notin> set p" if "p \<in> set (parts v)" for p
    using that set_strip by (fastforce simp: parts_def dest: set_split_on_no_sep)
  then show s: "split_on (CHR '','') (join '','' (parts v)) = parts v"
    using assms(2) by (intro split_on_join) auto
  have "map strip (parts v) = parts v"
    by (rule map_idI) (auto simp: parts_def strip_idem)
  moreover have "filter (\<lambda>p. p \<noteq> []) (parts v) = parts v" by (simp add: parts_def)
  ultimately show "parts (join '','' (parts v)) = parts v"
    using s by (simp add: parts_def [of "join '','' (parts v)"])
qed

text \<open>
  Validation gives a usable resolver list. The resolvers of validated settings are the
  entries of the configured text in order, without surrounding blanks and empty entries; there
  is at least one and each is an address; and validating once more changes nothing. Entries
  that occur twice stay twice.
\<close>

theorem validated_resolvers:
  assumes "validated is_address s = Some s'"
  shows "resolvers s' = filter (\<lambda>p. p \<noteq> []) (map strip (split_on (CHR '','') (upstream_resolvers s))) \<and>
    resolvers s' \<noteq> [] \<and> list_all is_address (resolvers s') \<and> validated is_address s' = Some s'"
proof -
  let ?parts = "\<lambda>v. filter (\<lambda>p. p \<noteq> []) (map strip (split_on (CHR '','') v))"
  let ?a = "?parts (upstream_resolvers s)"
  obtain r where valid: "fields_valid s" and v: "valid_resolvers is_address (upstream_resolvers s) = Some r"
    and s': "s' = s\<lparr>upstream_resolvers := r, ipinfo_token := empty_is_none (ipinfo_token s),
      watttime_password := empty_is_none (watttime_password s), watttime_username := empty_is_none (watttime_username s)\<rparr>"
    using assms by (auto simp: validated_def split: if_splits option.splits)
  have a: "?a \<noteq> []" "\<forall>x \<in> set ?a. is_address x" and u: "r = join '','' ?a"
    using v by (auto simp: valid_resolvers_def Let_def split: if_splits)
  note p = stripped_parts [OF a(1)]
  have "valid_resolvers is_address r = Some r"
    using a unfolding valid_resolvers_def Let_def u p(2) by simp
  moreover have "fields_valid s'" using valid by (simp add: s' fields_valid_def)
  ultimately have "validated is_address s' = Some s'"
    by (simp add: validated_def) (simp add: s' empty_is_none_def)
  then show ?thesis using a p(1) u by (simp add: resolvers_def list_all_iff s')
qed


theorem validated_resolvers_witness:
  "map_option resolvers (validated (\<lambda>a. a = ''9.9.9.9'')
     (default_config\<lparr>upstream_resolvers := '' 9.9.9.9,, 9.9.9.9''\<rparr>)) = Some [''9.9.9.9'', ''9.9.9.9'']"
proof -
  let ?s = "default_config\<lparr>upstream_resolvers := '' 9.9.9.9,, 9.9.9.9''\<rparr>"
  have v: "valid_resolvers (\<lambda>a. a = ''9.9.9.9'') '' 9.9.9.9,, 9.9.9.9'' = Some ''9.9.9.9,9.9.9.9''"
    and parts: "filter (\<lambda>p. p \<noteq> []) (map strip (split_on (CHR '','') '' 9.9.9.9,, 9.9.9.9'')) = [''9.9.9.9'', ''9.9.9.9'']"
    by code_simp+
  have "fields_valid ?s" by (simp add: fields_valid_def default_config_def)
  then obtain s' where s': "validated (\<lambda>a. a = ''9.9.9.9'') ?s = Some s'" using v by (simp add: validated_def)
  from validated_resolvers [OF s'] show ?thesis using s' parts by simp
qed

end
