(* ===== verification/Resolver_Pool.thy ===== *)
theory Resolver_Pool
  imports Database
begin

text \<open>
  The resolver pool (\<open>resolvers/pool.py\<close>): one answer per resolver and address type, with the
  CNAME chain of a response followed to its address RRset.

  Names and messages are dnspython's: a name is a value of any type \<open>'n\<close>, a response offers its
  rcode, the look-up \<open>get_rrset\<close> in its answer section (class IN) and its authority section.
  The transport \<open>query\<close> and the parser of names are arguments of the definitions that use them.
\<close>

section \<open>Responses\<close>

datatype rdtype = Address rtype | CNAME | SOA | OtherType nat

record 'n rrset =
  rs_type :: rdtype
  rs_ttl :: int
  rs_addresses :: "string list"
  rs_target :: 'n
  rs_minimum :: int

record 'n response =
  rs_rcode :: nat
  get_rrset :: "'n \<Rightarrow> rdtype \<Rightarrow> 'n rrset option"
  rs_authority :: "'n rrset list"

definition RCODE_NOERROR :: nat where "RCODE_NOERROR = 0"
definition RCODE_SERVFAIL :: nat where "RCODE_SERVFAIL = 2"
definition RCODE_NXDOMAIN :: nat where "RCODE_NXDOMAIN = 3"
definition RCODE_REFUSED :: nat where "RCODE_REFUSED = 5"

section \<open>Answers\<close>

datatype astatus = A_noerror | A_nxdomain | A_servfail | A_refused | A_timeout | A_error

record Answer =
  a_resolver :: string
  a_rtype :: rtype
  a_status :: astatus
  a_addresses :: "string list"
  a_ttl :: "int option"
  a_negative_ttl :: "int option"

definition RTYPES :: "rtype list" where
  "RTYPES = [RT_A, RT_AAAA]"

definition MAX_CNAME_HOPS :: nat where
  "MAX_CNAME_HOPS = 16"

definition definitive :: "Answer \<Rightarrow> bool" where
  "definitive a \<longleftrightarrow> a_status a \<in> {A_noerror, A_nxdomain}"

text \<open>An answer with the default values of the dataclass.\<close>

definition bare_answer :: "string \<Rightarrow> rtype \<Rightarrow> astatus \<Rightarrow> Answer" where
  "bare_answer resolver t s =
     \<lparr>a_resolver = resolver, a_rtype = t, a_status = s, a_addresses = [], a_ttl = None,
      a_negative_ttl = None\<rparr>"

fun first_soa :: "'n rrset list \<Rightarrow> int option" where
  "first_soa [] = None"
| "first_soa (r # rs) = (if rs_type r = SOA then Some (min (rs_ttl r) (rs_minimum r)) else first_soa rs)"

definition negative_ttl :: "'n response \<Rightarrow> int option" where
  "negative_ttl response = first_soa (rs_authority response)"

text \<open>The \<open>for\<close> loop of \<open>parse_response\<close>, with the hops that are left and the TTLs so far.\<close>

fun follow :: "nat \<Rightarrow> 'n \<Rightarrow> int list \<Rightarrow> rtype \<Rightarrow> 'n response \<Rightarrow> (string list \<times> int) option" where
  "follow 0 name ttls t response = None"
| "follow (Suc n) name ttls t response =
     (case get_rrset response name (Address t) of
        Some rs \<Rightarrow> Some (sorted_list_of_set (set (rs_addresses rs)), Min (set (ttls @ [rs_ttl rs])))
      | None \<Rightarrow>
          (case get_rrset response name CNAME of
             None \<Rightarrow> None
           | Some cname \<Rightarrow> follow n (rs_target cname) (ttls @ [rs_ttl cname]) t response))"

definition parse_response :: "'n response \<Rightarrow> 'n \<Rightarrow> rtype \<Rightarrow> string \<Rightarrow> Answer" where
  "parse_response response qname t resolver =
     (if rs_rcode response = RCODE_NXDOMAIN
      then (bare_answer resolver t A_nxdomain)\<lparr>a_negative_ttl := negative_ttl response\<rparr>
      else if rs_rcode response \<noteq> RCODE_NOERROR
      then bare_answer resolver t
             (if rs_rcode response = RCODE_SERVFAIL then A_servfail
              else if rs_rcode response = RCODE_REFUSED then A_refused else A_error)
      else case follow (MAX_CNAME_HOPS + 1) qname [] t response of
             Some (addresses, ttl) \<Rightarrow>
               (bare_answer resolver t A_noerror)\<lparr>a_addresses := addresses, a_ttl := Some ttl\<rparr>
           | None \<Rightarrow>
               (bare_answer resolver t A_noerror)\<lparr>a_negative_ttl := negative_ttl response\<rparr>)"

section \<open>The pool\<close>

text \<open>
  What a query ends in. \<open>QRaised\<close> is any exception other than a timeout, an \<open>OSError\<close> or a
  \<open>DNSException\<close>.
\<close>

datatype 'n query_result = QTimeout | QError | QResponse "'n response" | QRaised

datatype pool_error = BadName | QueryRaised

text \<open>
  \<open>make_query\<close> parses the name before the \<open>try\<close>: a name it refuses is an exception.
\<close>

definition ask ::
  "(string \<Rightarrow> 'n option) \<Rightarrow> (string \<Rightarrow> 'n \<Rightarrow> rtype \<Rightarrow> 'n query_result) \<Rightarrow>
   string \<Rightarrow> rtype \<Rightarrow> string \<Rightarrow> pool_error + Answer" where
  "ask from_text query qname t resolver =
     (case from_text qname of
        None \<Rightarrow> Inl BadName
      | Some name \<Rightarrow>
          (case query resolver name t of
             QTimeout \<Rightarrow> Inr (bare_answer resolver t A_timeout)
           | QError \<Rightarrow> Inr (bare_answer resolver t A_error)
           | QRaised \<Rightarrow> Inl QueryRaised
           | QResponse response \<Rightarrow> Inr (parse_response response name t resolver)))"

text \<open>\<open>asyncio.gather\<close>: the results in order, or the first exception.\<close>

fun gather :: "('e + 'a) list \<Rightarrow> 'e + 'a list" where
  "gather [] = Inr []"
| "gather (Inl e # _) = Inl e"
| "gather (Inr a # rs) = (case gather rs of Inl e \<Rightarrow> Inl e | Inr as \<Rightarrow> Inr (a # as))"

definition resolve ::
  "(string \<Rightarrow> 'n option) \<Rightarrow> (string \<Rightarrow> 'n \<Rightarrow> rtype \<Rightarrow> 'n query_result) \<Rightarrow>
   string list \<Rightarrow> string \<Rightarrow> pool_error + Answer list" where
  "resolve from_text query resolvers qname =
     gather [ask from_text query qname t resolver. t \<leftarrow> RTYPES, resolver \<leftarrow> resolvers]"

section \<open>CNAME chains\<close>

text \<open>
  The chain from a name: hops over names that have a CNAME and no address of the wanted
  type, with the TTLs on the way.
\<close>

inductive cname_chain :: "'n response \<Rightarrow> rtype \<Rightarrow> 'n \<Rightarrow> int list \<Rightarrow> 'n \<Rightarrow> bool"
  for response t where
  here: "cname_chain response t n [] n"
| hop: "get_rrset response n (Address t) = None \<Longrightarrow> get_rrset response n CNAME = Some c \<Longrightarrow>
    cname_chain response t (rs_target c) ttls m \<Longrightarrow> cname_chain response t n (rs_ttl c # ttls) m"

inductive_cases cname_chainE: "cname_chain response t n ttls m"
inductive_simps cname_chain_Nil: "cname_chain response t n [] m"
inductive_simps cname_chain_Cons: "cname_chain response t n (ttl # ttls) m"

lemma follow_chain:
  assumes "cname_chain response t n ttls m" and "get_rrset response m (Address t) = Some rs"
    and "length ttls < k"
  shows "follow k n seen t response =
    Some (sorted_list_of_set (set (rs_addresses rs)), Min (set (seen @ ttls @ [rs_ttl rs])))"
  using assms
proof (induction arbitrary: seen k rule: cname_chain.induct)
  case (here n)
  then show ?case by (cases k) auto
next
  case (hop n c ttls m)
  then obtain k' where "k = Suc k'" "length ttls < k'" by (cases k) auto
  with hop show ?case by (simp del: set_append)
qed

lemma follow_SomeD:
  "follow k n seen t response = Some (addrs, ttl) \<Longrightarrow>
   \<exists>ttls m rs. cname_chain response t n ttls m \<and> length ttls < k \<and>
     get_rrset response m (Address t) = Some rs \<and>
     addrs = sorted_list_of_set (set (rs_addresses rs)) \<and> ttl = Min (set (seen @ ttls @ [rs_ttl rs]))"
proof (induction k n seen t response rule: follow.induct)
  case (2 k n seen t response)
  show ?case
  proof (cases "get_rrset response n (Address t)")
    case (Some rs)
    with "2.prems" have "cname_chain response t n [] n \<and> length ([] :: int list) < Suc k \<and>
        get_rrset response n (Address t) = Some rs \<and>
        addrs = sorted_list_of_set (set (rs_addresses rs)) \<and> ttl = Min (set (seen @ [] @ [rs_ttl rs]))"
      by (simp add: cname_chain.here)
    then show ?thesis by blast
  next
    case None
    with "2.prems" obtain c where c: "get_rrset response n CNAME = Some c"
      "follow k (rs_target c) (seen @ [rs_ttl c]) t response = Some (addrs, ttl)"
      by (auto split: option.splits)
    from "2.IH" [OF None c] obtain ttls m rs where "cname_chain response t (rs_target c) ttls m"
      "length ttls < k" "get_rrset response m (Address t) = Some rs"
      "addrs = sorted_list_of_set (set (rs_addresses rs))"
      "ttl = Min (set ((seen @ [rs_ttl c]) @ ttls @ [rs_ttl rs]))" by blast
    with cname_chain.hop [OF None c(1)] show ?thesis
      by (intro exI [of _ "rs_ttl c # ttls"] exI [of _ m] exI [of _ rs]) simp
  qed
qed simp

lemma follow_iff:
  "follow k n [] t response = Some (addrs, ttl) \<longleftrightarrow>
   (\<exists>ttls m rs. cname_chain response t n ttls m \<and> length ttls < k \<and>
     get_rrset response m (Address t) = Some rs \<and>
     addrs = sorted_list_of_set (set (rs_addresses rs)) \<and> ttl = Min (set (ttls @ [rs_ttl rs])))"
  using follow_SomeD [of k n "[]" t response addrs ttl] follow_chain [where seen = "[]"]
  by fastforce


text \<open>
  C34: A NOERROR response is read exactly along its CNAME chain. The answer has addresses if
  and only if a chain of at most 16 CNAMEs leads from the queried name to a name with an
  address RRset of the wanted type; the addresses are those of that RRset, sorted and without
  duplicates, and the TTL is the minimum over the chain and the RRset. Otherwise, for a chain
  that ends, loops or is too long, the answer is negative with the TTL of the first SOA in the
  authority section.
\<close>

theorem parse_response_follows_chain:
  assumes "rs_rcode response = RCODE_NOERROR"
  shows "(\<forall>ttls m rs. cname_chain response t qname ttls m \<and> length ttls \<le> 16 \<and>
       get_rrset response m (Address t) = Some rs \<longrightarrow>
       parse_response response qname t resolver =
         \<lparr>a_resolver = resolver, a_rtype = t, a_status = A_noerror,
          a_addresses = sorted_list_of_set (set (rs_addresses rs)),
          a_ttl = Some (Min (set (ttls @ [rs_ttl rs]))), a_negative_ttl = None\<rparr>) \<and>
    ((\<nexists>ttls m rs. cname_chain response t qname ttls m \<and> length ttls \<le> 16 \<and>
       get_rrset response m (Address t) = Some rs) \<longrightarrow>
       parse_response response qname t resolver =
         \<lparr>a_resolver = resolver, a_rtype = t, a_status = A_noerror, a_addresses = [],
          a_ttl = None, a_negative_ttl = first_soa (rs_authority response)\<rparr>)"
proof (intro conjI allI impI)
  let ?f = "follow (MAX_CNAME_HOPS + 1) qname [] t response"
  have p: "parse_response response qname t resolver = (case ?f of
      Some (addresses, ttl) \<Rightarrow>
        (bare_answer resolver t A_noerror)\<lparr>a_addresses := addresses, a_ttl := Some ttl\<rparr>
    | None \<Rightarrow> (bare_answer resolver t A_noerror)\<lparr>a_negative_ttl := negative_ttl response\<rparr>)"
    using assms by (simp add: parse_response_def RCODE_NOERROR_def RCODE_NXDOMAIN_def)
  have len: "length ttls < MAX_CNAME_HOPS + 1 \<longleftrightarrow> length ttls \<le> 16" for ttls :: "int list"
    by (auto simp: MAX_CNAME_HOPS_def)
  show "parse_response response qname t resolver =
         \<lparr>a_resolver = resolver, a_rtype = t, a_status = A_noerror,
          a_addresses = sorted_list_of_set (set (rs_addresses rs)),
          a_ttl = Some (Min (set (ttls @ [rs_ttl rs]))), a_negative_ttl = None\<rparr>"
    if "cname_chain response t qname ttls m \<and> length ttls \<le> 16 \<and> get_rrset response m (Address t) = Some rs"
    for ttls m rs
  proof -
    have "?f = Some (sorted_list_of_set (set (rs_addresses rs)), Min (set ([] @ ttls @ [rs_ttl rs])))"
      using that len [of ttls] by (intro follow_chain) auto
    then show ?thesis by (simp add: p bare_answer_def del: follow.simps set_append)
  qed
  assume none: "\<nexists>ttls m rs. cname_chain response t qname ttls m \<and> length ttls \<le> 16 \<and>
       get_rrset response m (Address t) = Some rs"
  have "?f = None"
  proof (rule ccontr)
    assume "?f \<noteq> None"
    then obtain addrs ttl where "?f = Some (addrs, ttl)" by auto
    then show False using none unfolding follow_iff len by blast
  qed
  then show "parse_response response qname t resolver =
         \<lparr>a_resolver = resolver, a_rtype = t, a_status = A_noerror, a_addresses = [],
          a_ttl = None, a_negative_ttl = first_soa (rs_authority response)\<rparr>"
    by (simp add: p bare_answer_def negative_ttl_def del: follow.simps)
qed

text \<open>A response with the alias \<open>w\<close> of \<open>h\<close>, for the examples.\<close>

definition alias_response :: "string response" where
  "alias_response =
     \<lparr>rs_rcode = 0,
      get_rrset = (\<lambda>n t. if n = ''w'' \<and> t = CNAME
          then Some \<lparr>rs_type = CNAME, rs_ttl = 60, rs_addresses = [], rs_target = ''h'', rs_minimum = 0\<rparr>
          else if n = ''h'' \<and> t = Address RT_A
          then Some \<lparr>rs_type = Address RT_A, rs_ttl = 300, rs_addresses = [''192.0.2.7'', ''192.0.2.1''],
                     rs_target = [], rs_minimum = 0\<rparr>
          else None),
      rs_authority = []\<rparr>"

theorem parse_response_follows_chain_witness:
  "a_ttl (parse_response alias_response ''w'' RT_A ''9.9.9.9'') = Some 60"
proof -
  have chain: "cname_chain alias_response RT_A ''w'' [60] ''h''"
    by (auto simp: cname_chain_Cons cname_chain_Nil alias_response_def)
  show ?thesis
    using parse_response_follows_chain [of alias_response RT_A "''w''" "''9.9.9.9''", THEN conjunct1,
        THEN spec, THEN spec, THEN spec, of "[60]" "''h''"] chain
    by (simp add: alias_response_def RCODE_NOERROR_def)
qed

section \<open>Answers of the pool\<close>

lemma gather_map_Inr: "gather (map Inr as) = Inr as"
  by (induction as) auto

lemma gather_InrD: "gather rs = Inr as \<Longrightarrow> rs = map Inr as"
  by (induction rs arbitrary: as rule: gather.induct) (auto split: sum.splits)

lemma gather_Inr_iff: "gather rs = Inr as \<longleftrightarrow> rs = map Inr as"
  using gather_map_Inr gather_InrD by blast

lemma gather_total: "(\<forall>r \<in> set rs. \<exists>a. r = Inr a) \<longleftrightarrow> (\<exists>as. gather rs = Inr as)"
  by (metis gather_Inr_iff ex_map_conv)

lemma bare_answer_fields [simp]:
  "a_resolver (bare_answer r t s) = r" "a_rtype (bare_answer r t s) = t"
  "a_status (bare_answer r t s) = s" "a_addresses (bare_answer r t s) = []"
  "a_ttl (bare_answer r t s) = None" "a_negative_ttl (bare_answer r t s) = None"
  by (simp_all add: bare_answer_def)

lemma parse_response_shape:
  assumes "a = parse_response response qname t resolver"
  shows "a_resolver a = resolver" "a_rtype a = t"
    "a_addresses a \<noteq> [] \<Longrightarrow> a_status a = A_noerror \<and> a_ttl a \<noteq> None"
    "sorted (a_addresses a) \<and> distinct (a_addresses a)"
  unfolding assms parse_response_def
  by (cases "follow (MAX_CNAME_HOPS + 1) qname [] t response";
      force simp del: follow.simps dest: follow_SomeD split: if_splits)+

lemma ask_shape:
  assumes "ask from_text query qname t resolver = Inr a"
  shows "a_resolver a = resolver \<and> a_rtype a = t \<and> sorted (a_addresses a) \<and> distinct (a_addresses a) \<and>
    (a_addresses a \<noteq> [] \<longrightarrow> definitive a \<and> a_ttl a \<noteq> None)"
  using assms parse_response_shape
  by (fastforce simp: ask_def definitive_def split: option.splits query_result.splits)

lemma resolve_answers:
  assumes "resolve from_text query resolvers qname = Inr answers"
  shows "map (\<lambda>a. (a_rtype a, a_resolver a)) answers = map (Pair RT_A) resolvers @ map (Pair RT_AAAA) resolvers"
    and "a \<in> set answers \<Longrightarrow> sorted (a_addresses a) \<and> distinct (a_addresses a) \<and>
      (a_addresses a \<noteq> [] \<longrightarrow> definitive a \<and> a_ttl a \<noteq> None)"
proof -
  let ?asks = "[ask from_text query qname t resolver. t \<leftarrow> RTYPES, resolver \<leftarrow> resolvers]"
  from assms have eq: "?asks = map Inr answers" by (simp add: resolve_def gather_Inr_iff)
  show "sorted (a_addresses a) \<and> distinct (a_addresses a) \<and>
      (a_addresses a \<noteq> [] \<longrightarrow> definitive a \<and> a_ttl a \<noteq> None)" if "a \<in> set answers"
  proof -
    have "Inr a \<in> set ?asks" using that eq by simp
    then obtain t resolver where "ask from_text query qname t resolver = Inr a" by auto
    then show ?thesis using ask_shape by metis
  qed
  let ?id = "\<lambda>r. case r of Inr a \<Rightarrow> (a_rtype a, a_resolver a)"
  have "?id (ask from_text query qname t resolver) = (t, resolver)"
    if "ask from_text query qname t resolver \<in> range Inr" for t resolver
    using that ask_shape by fastforce
  moreover have "set ?asks \<subseteq> range Inr" unfolding eq by auto
  then have "ask from_text query qname t resolver \<in> range Inr" if "resolver \<in> set resolvers" for t resolver
    using that by (cases t) (auto simp: RTYPES_def image_subset_iff)
  ultimately have "map ?id ?asks = map (Pair RT_A) resolvers @ map (Pair RT_AAAA) resolvers"
    by (simp add: RTYPES_def)
  then show "map (\<lambda>a. (a_rtype a, a_resolver a)) answers =
        map (Pair RT_A) resolvers @ map (Pair RT_AAAA) resolvers"
    unfolding eq by (simp add: comp_def)
qed

text \<open>
  The pool asks everyone. Resolving a name that parses gives one answer per address type
  and resolver, in that order, unless a query raises an unexpected exception; a resolver that
  times out or fails is an answer like any other, so it never hides the answers of the rest.
  The addresses of an answer are sorted without duplicates, and an answer with addresses is
  definitive and has a TTL.
\<close>

theorem resolve_asks_everyone:
  assumes "from_text qname = Some name"
  shows "((\<exists>answers. resolve from_text query resolvers qname = Inr answers) \<longleftrightarrow>
      (\<forall>t \<in> set RTYPES. \<forall>resolver \<in> set resolvers. query resolver name t \<noteq> QRaised)) \<and>
    (\<forall>answers. resolve from_text query resolvers qname = Inr answers \<longrightarrow>
      map (\<lambda>a. (a_rtype a, a_resolver a)) answers =
        map (Pair RT_A) resolvers @ map (Pair RT_AAAA) resolvers \<and>
      (\<forall>a \<in> set answers. sorted (a_addresses a) \<and> distinct (a_addresses a) \<and>
        (a_addresses a \<noteq> [] \<longrightarrow> definitive a \<and> a_ttl a \<noteq> None)))"
proof (intro conjI allI impI)
  let ?asks = "[ask from_text query qname t resolver. t \<leftarrow> RTYPES, resolver \<leftarrow> resolvers]"
  have "(\<exists>a. ask from_text query qname t resolver = Inr a) \<longleftrightarrow> query resolver name t \<noteq> QRaised" for t resolver
    using assms by (simp add: ask_def split: query_result.split)
  then show "(\<exists>answers. resolve from_text query resolvers qname = Inr answers) \<longleftrightarrow>
      (\<forall>t \<in> set RTYPES. \<forall>resolver \<in> set resolvers. query resolver name t \<noteq> QRaised)"
    by (auto simp: resolve_def gather_total [symmetric])
  fix answers
  assume "resolve from_text query resolvers qname = Inr answers"
  from resolve_answers [OF this]
  show "map (\<lambda>a. (a_rtype a, a_resolver a)) answers = map (Pair RT_A) resolvers @ map (Pair RT_AAAA) resolvers"
    and "\<forall>a \<in> set answers. sorted (a_addresses a) \<and> distinct (a_addresses a) \<and>
        (a_addresses a \<noteq> [] \<longrightarrow> definitive a \<and> a_ttl a \<noteq> None)"
    by blast+
qed

theorem resolve_asks_everyone_witness:
  "\<exists>answers. resolve Some (\<lambda>r n t. if r = ''9.9.9.9'' then QTimeout else QResponse alias_response)
      [''9.9.9.9'', ''1.1.1.1''] ''w'' = Inr answers"
  using resolve_asks_everyone [of Some "''w''" "''w''"
      "\<lambda>r n t. if r = ''9.9.9.9'' then QTimeout else QResponse alias_response" "[''9.9.9.9'', ''1.1.1.1'']"]
  by simp

end
