(* ===== verification/Geo_Ipinfo.thy ===== *)
theory Geo_Ipinfo
  imports Json
begin

text \<open>
  IPinfo look-ups (\<open>geo/ipinfo.py\<close>): reading a record in any of the three layouts, the two
  sources, and the geolocator that asks them in order. A record is the association list of a
  dict. Outside are the reader of the MMDB file (a function from an address to its record),
  the transport of the API (a function of the URLs requested so far, newest first) and
  \<open>ipaddress\<close> (\<open>is_global\<close>, \<open>None\<close> for text that is no address). The city is text or null, as
  IPinfo documents it: a city of another type counts as unknown. Text is ASCII.

  The locale \<open>geo_sources\<close> is what the geolocator relies on: every location that a source
  returns satisfies a property that does not look at the anycast flag. It is interpreted on
  the two sources and the property that a location can be stored.
\<close>

section \<open>Reading a record\<close>

record Location =
  lc_source :: string
  lc_lat :: "rat option"
  lc_lon :: "rat option"
  lc_city :: "string option"
  lc_country :: "string option"
  lc_asn :: "int option"
  lc_is_anycast :: bool
  lc_anycast_known :: bool

definition has_coordinates :: "Location \<Rightarrow> bool" where
  "has_coordinates l \<longleftrightarrow> lc_lat l \<noteq> None \<and> lc_lon l \<noteq> None"

type_synonym dict = "(string \<times> json) list"

text \<open>\<open>d.get(key, default)\<close>.\<close>

definition dict_get :: "dict \<Rightarrow> string \<Rightarrow> json \<Rightarrow> json" where
  "dict_get d key dflt = (case map_of d key of None \<Rightarrow> dflt | Some v \<Rightarrow> v)"

definition float_or_none :: "json \<Rightarrow> rat option" where
  "float_or_none v = (if v = JNull \<or> v = JStr [] then None
     else case float_of v of Inl _ \<Rightarrow> None | Inr q \<Rightarrow> Some q)"

fun asn_of :: "json \<Rightarrow> int option" where
  "asn_of (JInt n) = Some n"
| "asn_of (JBool b) = Some (if b then 1 else 0)"
| "asn_of (JStr s) =
     (if take 2 (upper s) = ''AS'' \<and> drop 2 s \<noteq> [] \<and> list_all is_digit (drop 2 s)
      then Some (int (digits_value (map digit_value (drop 2 s)))) else None)"
| "asn_of _ = None"

fun bool_of :: "json \<Rightarrow> bool" where
  "bool_of (JBool b) = b"
| "bool_of (JStr s) = (lower s = ''true'')"
| "bool_of _ = False"

fun country_of :: "json \<Rightarrow> string option" where
  "country_of (JStr s) = (if length s = 2 then Some (upper s) else None)"
| "country_of _ = None"

fun city_of :: "json \<Rightarrow> string option" where
  "city_of (JStr s) = (if s = [] then None else Some s)"
| "city_of _ = None"

definition partition_comma :: "string \<Rightarrow> string \<times> string" where
  "partition_comma s = (takeWhile (\<lambda>c. c \<noteq> CHR '','') s, drop 1 (dropWhile (\<lambda>c. c \<noteq> CHR '','') s))"

definition in_range :: "rat \<Rightarrow> rat \<Rightarrow> bool" where
  "in_range lat lon \<longleftrightarrow> -90 \<le> lat \<and> lat \<le> 90 \<and> -180 \<le> lon \<and> lon \<le> 180"

definition coordinates :: "dict \<Rightarrow> rat option \<times> rat option" where
  "coordinates geo =
     (let lat = float_or_none (dict_get geo ''latitude'' (dict_get geo ''lat'' JNull));
          lon = float_or_none (dict_get geo ''longitude'' (dict_get geo ''lng'' JNull));
          (lat, lon) = (case dict_get geo ''loc'' JNull of
             JStr loc \<Rightarrow>
               if lat = None \<and> CHR '','' \<in> set loc
               then (case partition_comma loc of (first, second) \<Rightarrow>
                       (float_or_none (JStr first), float_or_none (JStr second)))
               else (lat, lon)
           | _ \<Rightarrow> (lat, lon))
      in case (lat, lon) of
           (Some a, Some b) \<Rightarrow> if in_range a b then (Some a, Some b) else (None, None)
         | _ \<Rightarrow> (None, None))"

text \<open>\<open>record.get(key)\<close> if that is a dict, else the record itself.\<close>

definition nested :: "dict \<Rightarrow> string \<Rightarrow> dict" where
  "nested rec key = (case dict_get rec key JNull of JObj d \<Rightarrow> d | _ \<Rightarrow> rec)"

definition location_from_record :: "dict \<Rightarrow> string \<Rightarrow> Location" where
  "location_from_record rec source =
     (let geo = nested rec ''geo''; aso = nested rec ''as'';
          (lat, lon) = coordinates geo;
          asn = asn_of (dict_get aso ''asn'' JNull);
          asn = (case (asn, dict_get rec ''org'' JNull) of
                   (None, JStr org) \<Rightarrow> asn_of (JStr (hd (split_on (CHR '' '') org)))
                 | _ \<Rightarrow> asn);
          anycast = dict_get rec ''is_anycast'' (dict_get rec ''anycast'' JNull)
      in \<lparr>lc_source = source, lc_lat = lat, lc_lon = lon,
          lc_city = city_of (dict_get geo ''city'' JNull),
          lc_country = country_of (dict_get geo ''country_code'' (dict_get geo ''country'' JNull)),
          lc_asn = asn, lc_is_anycast = bool_of anycast, lc_anycast_known = (anycast \<noteq> JNull)\<rparr>)"

section \<open>Sources\<close>

datatype geo_error = GeoLookupError | GeoUnexpected py_error

text \<open>\<open>MmdbSource.lookup\<close>; a record that is no dict counts as none.\<close>

definition mmdb_lookup :: "(string \<Rightarrow> json option) \<Rightarrow> string \<Rightarrow> Location option" where
  "mmdb_lookup reader address = (case reader address of
      Some (JObj rec) \<Rightarrow> Some (location_from_record rec ''ipinfo_mmdb'') | _ \<Rightarrow> None)"

record api_state =
  legacy_plan :: bool
  api_urls :: "string list"

type_synonym api_transport = "string list \<Rightarrow> http_response option"

definition api_url :: "string \<Rightarrow> bool \<Rightarrow> string" where
  "api_url address legacy = (if legacy then ''https://ipinfo.io/'' @ address @ ''/json''
     else ''https://api.ipinfo.io/lookup/'' @ address)"

definition api_get :: "api_transport \<Rightarrow> string \<Rightarrow> bool \<Rightarrow> api_state \<Rightarrow> (geo_error + http_response) \<times> api_state" where
  "api_get http address legacy st =
     (let urls = api_url address legacy # api_urls st; st' = st\<lparr>api_urls := urls\<rparr>
      in case http urls of None \<Rightarrow> (Inl GeoLookupError, st') | Some r \<Rightarrow> (Inr r, st'))"

definition api_result :: "http_response \<Rightarrow> geo_error + Location option" where
  "api_result r =
     (if status_code r = 404 then Inr None
      else if status_code r \<noteq> 200 then Inl GeoLookupError
      else case resp_body r of
        None \<Rightarrow> Inl (GeoUnexpected ValueError)
      | Some (JObj rec) \<Rightarrow>
          if truthy (dict_get rec ''bogon'' JNull) then Inr None
          else Inr (Some (location_from_record rec ''ipinfo_api''))
      | Some _ \<Rightarrow> Inl (GeoUnexpected AttributeError))"

definition api_lookup ::
  "api_transport \<Rightarrow> string \<Rightarrow> api_state \<Rightarrow> (geo_error + Location option) \<times> api_state" where
  "api_lookup http address st =
     (let legacy = legacy_plan st in
      case api_get http address legacy st of
        (Inl e, st1) \<Rightarrow> (Inl e, st1)
      | (Inr r, st1) \<Rightarrow>
          if status_code r = 403 \<and> \<not> legacy
          then (case api_get http address True (st1\<lparr>legacy_plan := True\<rparr>) of
                  (Inl e, st2) \<Rightarrow> (Inl e, st2)
                | (Inr r2, st2) \<Rightarrow> (api_result r2, st2))
          else (api_result r, st1))"

section \<open>Geolocator\<close>

datatype source = Mmdb "string \<Rightarrow> json option" | Api api_transport

fun provides_anycast :: "source \<Rightarrow> bool" where
  "provides_anycast (Mmdb _) = False"
| "provides_anycast (Api _) = True"

fun source_lookup :: "source \<Rightarrow> string \<Rightarrow> api_state \<Rightarrow> (geo_error + Location option) \<times> api_state" where
  "source_lookup (Mmdb reader) address st = (Inr (mmdb_lookup reader address), st)"
| "source_lookup (Api http) address st = api_lookup http address st"

record Geolocator =
  geo_sources_of :: "source list"
  anycast_lookup :: bool

text \<open>\<open>_lookup\<close>: a source that could not answer counts as having no answer.\<close>

definition try_lookup ::
  "('src \<Rightarrow> string \<Rightarrow> 's \<Rightarrow> (geo_error + Location option) \<times> 's) \<Rightarrow> 'src \<Rightarrow> string \<Rightarrow> 's \<Rightarrow>
   (py_error + Location option) \<times> 's" where
  "try_lookup look source address st = (case look source address st of
      (Inl GeoLookupError, st') \<Rightarrow> (Inr None, st')
    | (Inl (GeoUnexpected e), st') \<Rightarrow> (Inl e, st')
    | (Inr l, st') \<Rightarrow> (Inr l, st'))"

definition merge_anycast :: "Location \<Rightarrow> Location \<Rightarrow> Location" where
  "merge_anycast location extra = location\<lparr>lc_is_anycast := lc_is_anycast extra, lc_anycast_known := True,
     lc_asn := (case lc_asn location of None \<Rightarrow> lc_asn extra | Some n \<Rightarrow> Some n)\<rparr>"

text \<open>The loop of \<open>_with_anycast\<close> over the sources, each with its position; \<open>used\<close> is one of them.\<close>

fun anycast_loop ::
  "('src \<Rightarrow> string \<Rightarrow> 's \<Rightarrow> (geo_error + Location option) \<times> 's) \<Rightarrow> ('src \<Rightarrow> bool) \<Rightarrow> Location \<Rightarrow> string \<Rightarrow>
   nat \<Rightarrow> (nat \<times> 'src) list \<Rightarrow> 's \<Rightarrow> (py_error + Location) \<times> 's" where
  "anycast_loop look provides location address used [] st = (Inr location, st)"
| "anycast_loop look provides location address used ((i, source) # rest) st =
     (if i = used \<or> \<not> provides source then anycast_loop look provides location address used rest st
      else case try_lookup look source address st of
        (Inl e, st') \<Rightarrow> (Inl e, st')
      | (Inr None, st') \<Rightarrow> anycast_loop look provides location address used rest st'
      | (Inr (Some extra), st') \<Rightarrow>
          if lc_anycast_known extra then (Inr (merge_anycast location extra), st')
          else anycast_loop look provides location address used rest st')"

definition with_anycast ::
  "('src \<Rightarrow> string \<Rightarrow> 's \<Rightarrow> (geo_error + Location option) \<times> 's) \<Rightarrow> ('src \<Rightarrow> bool) \<Rightarrow> bool \<Rightarrow> 'src list \<Rightarrow>
   Location \<Rightarrow> string \<Rightarrow> nat \<Rightarrow> 's \<Rightarrow> (py_error + Location) \<times> 's" where
  "with_anycast look provides enabled sources location address used st =
     (if lc_anycast_known location \<or> \<not> enabled then (Inr location, st)
      else anycast_loop look provides location address used (enumerate 0 sources) st)"

fun locate_loop ::
  "('src \<Rightarrow> string \<Rightarrow> 's \<Rightarrow> (geo_error + Location option) \<times> 's) \<Rightarrow> ('src \<Rightarrow> bool) \<Rightarrow> bool \<Rightarrow> 'src list \<Rightarrow>
   string \<Rightarrow> Location option \<Rightarrow> (nat \<times> 'src) list \<Rightarrow> 's \<Rightarrow> (py_error + Location option) \<times> 's" where
  "locate_loop look provides enabled sources address partial [] st = (Inr partial, st)"
| "locate_loop look provides enabled sources address partial ((i, source) # rest) st =
     (case try_lookup look source address st of
        (Inl e, st') \<Rightarrow> (Inl e, st')
      | (Inr None, st') \<Rightarrow> locate_loop look provides enabled sources address partial rest st'
      | (Inr (Some location), st') \<Rightarrow>
          if has_coordinates location
          then (case with_anycast look provides enabled sources location address i st' of
                  (Inl e, st'') \<Rightarrow> (Inl e, st'') | (Inr l, st'') \<Rightarrow> (Inr (Some l), st''))
          else locate_loop look provides enabled sources address
                 (case partial of None \<Rightarrow> Some location | Some p \<Rightarrow> Some p) rest st')"

definition locate ::
  "(string \<Rightarrow> bool option) \<Rightarrow> Geolocator \<Rightarrow> string \<Rightarrow> api_state \<Rightarrow> (py_error + Location option) \<times> api_state" where
  "locate is_global geo address st =
     (case is_global address of
        None \<Rightarrow> (Inl ValueError, st)
      | Some g \<Rightarrow>
          if \<not> g then (Inr None, st)
          else locate_loop source_lookup provides_anycast (anycast_lookup geo) (geo_sources_of geo) address
                 None (enumerate 0 (geo_sources_of geo)) st)"


section \<open>What a geolocator returns\<close>

locale geo_sources =
  fixes look :: "'src \<Rightarrow> string \<Rightarrow> 's \<Rightarrow> (geo_error + Location option) \<times> 's"
    and provides :: "'src \<Rightarrow> bool"
    and good :: "Location \<Rightarrow> bool"
  assumes look_good: "look source address st = (Inr (Some l), st') \<Longrightarrow> good l"
    and good_merge: "good l \<Longrightarrow> good extra \<Longrightarrow> good (merge_anycast l extra)"
begin

lemma try_lookup_good: "try_lookup look source address st = (Inr (Some l), st') \<Longrightarrow> good l"
  by (auto simp: try_lookup_def split: prod.splits sum.splits geo_error.splits dest: look_good)

lemma anycast_loop_good:
  "anycast_loop look provides l address used srcs st = (Inr l', st') \<Longrightarrow> good l \<Longrightarrow>
   good l' \<and> lc_lat l' = lc_lat l \<and> lc_lon l' = lc_lon l"
proof (induction srcs arbitrary: st)
  case (Cons s srcs)
  obtain i source where s: "s = (i, source)" by (cases s)
  obtain r st1 where r: "try_lookup look source address st = (r, st1)" by (cases "try_lookup look source address st")
  show ?case
  proof (cases "\<exists>extra. r = Inr (Some extra) \<and> lc_anycast_known extra")
    case True
    then obtain extra where "r = Inr (Some extra)" by blast
    moreover have "good (merge_anycast l extra)"
      using good_merge Cons.prems(2) try_lookup_good r calculation by blast
    ultimately show ?thesis
      using Cons s r True by (auto simp: merge_anycast_def split: if_splits)
  next
    case False
    then show ?thesis
      using Cons s r by (cases r) (auto split: if_splits option.splits)
  qed
qed simp

lemma locate_loop_good:
  "locate_loop look provides enabled sources address part srcs st = (Inr (Some l), st') \<Longrightarrow>
   (\<And>p. part = Some p \<Longrightarrow> good p) \<Longrightarrow> good l"
proof (induction srcs arbitrary: st part)
  case (Cons s srcs)
  obtain i source where s: "s = (i, source)" by (cases s)
  obtain r st1 where r: "try_lookup look source address st = (r, st1)" by (cases "try_lookup look source address st")
  show ?case
  proof (cases "\<exists>x. r = Inr (Some x)")
    case True
    then obtain x where x: "r = Inr (Some x)" by blast
    have g: "good x" using try_lookup_good r x by blast
    show ?thesis
    proof (cases "has_coordinates x")
      case True
      then have "with_anycast look provides enabled sources x address i st1 = (Inr l, st')"
        using Cons.prems(1) s r x by (auto split: prod.splits sum.splits)
      then show ?thesis
        using g anycast_loop_good by (auto simp: with_anycast_def split: if_splits)
    next
      case False
      then show ?thesis
        using Cons.prems s r x g by (auto intro: Cons.IH split: option.splits)
    qed
  next
    case False
    then show ?thesis
      using Cons s r by (cases r) (auto split: option.splits)
  qed
qed simp

end

text \<open>What the constraints of the schema ask of a location, the AS number apart.\<close>

definition storable :: "Location \<Rightarrow> bool" where
  "storable l \<longleftrightarrow> lc_source l \<in> {''ipinfo_mmdb'', ''ipinfo_api''} \<and>
     (case (lc_lat l, lc_lon l) of
        (None, None) \<Rightarrow> True | (Some lat, Some lon) \<Rightarrow> in_range lat lon | _ \<Rightarrow> False) \<and>
     (case lc_country l of None \<Rightarrow> True | Some c \<Rightarrow> length c = 2)"

lemma coordinates_range:
  "coordinates geo = (None, None) \<or> (\<exists>lat lon. coordinates geo = (Some lat, Some lon) \<and> in_range lat lon)"
  by (auto simp: coordinates_def Let_def split: prod.split option.split)

lemma country_length: "country_of v = Some c \<Longrightarrow> length c = 2"
  by (cases v) (auto simp: upper_def split: if_splits)

lemma location_storable:
  assumes "src \<in> {''ipinfo_mmdb'', ''ipinfo_api''}"
  shows "storable (location_from_record rec src)"
  using assms coordinates_range [of "nested rec ''geo''"]
  by (auto simp: storable_def location_from_record_def Let_def country_length split: prod.split option.split)

lemma source_lookup_storable: "source_lookup source address st = (Inr (Some l), st') \<Longrightarrow> storable l"
  by (cases source)
     (auto simp: mmdb_lookup_def api_lookup_def api_result_def Let_def location_storable
       split: option.splits json.splits if_splits prod.splits sum.splits)

interpretation ipinfo: geo_sources source_lookup provides_anycast storable
  by unfold_locales (auto simp: merge_anycast_def storable_def dest: source_lookup_storable)

lemma locate_storable: "locate is_global geo address st = (Inr (Some l), st') \<Longrightarrow> storable l"
  by (auto simp: locate_def split: option.splits if_splits intro: ipinfo.locate_loop_good)


section \<open>Layouts\<close>

text \<open>The same facts in the layouts of the Core database, the API and the legacy API.\<close>

definition core_layout :: "rat \<Rightarrow> rat \<Rightarrow> string \<Rightarrow> string \<Rightarrow> string \<Rightarrow> bool \<Rightarrow> dict" where
  "core_layout lat lon city cc asn anycast =
     [(''latitude'', JFloat lat), (''longitude'', JFloat lon), (''city'', JStr city),
      (''country_code'', JStr cc), (''asn'', JStr asn), (''is_anycast'', JBool anycast)]"

definition api_layout :: "rat \<Rightarrow> rat \<Rightarrow> string \<Rightarrow> string \<Rightarrow> string \<Rightarrow> bool \<Rightarrow> dict" where
  "api_layout lat lon city cc asn anycast =
     [(''geo'', JObj [(''city'', JStr city), (''country_code'', JStr cc), (''latitude'', JFloat lat),
                      (''longitude'', JFloat lon)]),
      (''as'', JObj [(''asn'', JStr asn)]), (''is_anycast'', JBool anycast)]"

definition legacy_layout :: "string \<Rightarrow> string \<Rightarrow> string \<Rightarrow> string \<Rightarrow> string \<Rightarrow> bool \<Rightarrow> dict" where
  "legacy_layout loc city cc asn name anycast =
     [(''city'', JStr city), (''country'', JStr cc), (''loc'', JStr loc),
      (''org'', JStr (asn @ '' '' @ name)), (''anycast'', JBool anycast)]"

lemma not_digit_space: "is_digit c \<Longrightarrow> c \<noteq> CHR '' ''"
  by (auto simp: is_digit_def)

lemma asn_of_text:
  "n \<noteq> [] \<Longrightarrow> list_all is_digit n \<Longrightarrow> asn_of (JStr (''AS'' @ n)) = Some (int (digits_value (map digit_value n)))"
  by (simp add: upper_def upper_char_def)

lemma partition_comma_append:
  "CHR '','' \<notin> set a \<Longrightarrow> partition_comma (a @ CHR '','' # b) = (a, b)"
  by (simp add: partition_comma_def takeWhile_append dropWhile_append)

lemma hd_split_space: "CHR '' '' \<notin> set a \<Longrightarrow> hd (split_on (CHR '' '') (a @ CHR '' '' # b)) = a"
  by (simp add: split_on_append_sep)

text \<open>
  The three layouts of IPinfo mean the same. Coordinates in range, a city, a country
  code, an AS number and an anycast flag are read as the same location whether they come flat
  from the Core database, nested from the API, or from the legacy API with its coordinates in
  one text and the AS number in front of the organisation's name.
\<close>

theorem layouts_agree:
  assumes "in_range lat lon" and "city \<noteq> []" and "length cc = 2"
    and "n \<noteq> []" and "list_all is_digit n"
    and "py_float lat_text = Some lat" and "py_float lon_text = Some lon" and "CHR '','' \<notin> set lat_text"
  shows "location_from_record (core_layout lat lon city cc (''AS'' @ n) anycast) src =
       \<lparr>lc_source = src, lc_lat = Some lat, lc_lon = Some lon, lc_city = Some city, lc_country = Some (upper cc),
        lc_asn = Some (int (digits_value (map digit_value n))), lc_is_anycast = anycast, lc_anycast_known = True\<rparr> \<and>
     location_from_record (api_layout lat lon city cc (''AS'' @ n) anycast) src =
       location_from_record (core_layout lat lon city cc (''AS'' @ n) anycast) src \<and>
     location_from_record (legacy_layout (lat_text @ '','' @ lon_text) city cc (''AS'' @ n) name anycast) src =
       location_from_record (core_layout lat lon city cc (''AS'' @ n) anycast) src"
proof -
  note asn = asn_of_text [OF assms(4,5)]
  have nonempty: "lat_text \<noteq> []" "lon_text \<noteq> []"
    using assms(6,7) by (auto simp: py_float_def strip_def sign_def digits_def)
  have "CHR '' '' \<notin> set (''AS'' @ n)"
    using assms(5) not_digit_space by (auto simp: list_all_iff)
  from hd_split_space [OF this, of name]
  have org: "hd (split_on (CHR '' '') (''AS'' @ n @ CHR '' '' # name)) = ''AS'' @ n" by simp
  have core: "location_from_record (core_layout lat lon city cc (''AS'' @ n) anycast) src =
       \<lparr>lc_source = src, lc_lat = Some lat, lc_lon = Some lon, lc_city = Some city, lc_country = Some (upper cc),
        lc_asn = Some (int (digits_value (map digit_value n))), lc_is_anycast = anycast, lc_anycast_known = True\<rparr>"
    using assms(1-3) asn
    by (simp add: location_from_record_def core_layout_def nested_def dict_get_def coordinates_def float_or_none_def Let_def
        del: asn_of.simps(3))
  moreover have "location_from_record (api_layout lat lon city cc (''AS'' @ n) anycast) src =
       location_from_record (core_layout lat lon city cc (''AS'' @ n) anycast) src"
    unfolding core using assms(1-3) asn
    by (simp add: location_from_record_def api_layout_def nested_def dict_get_def coordinates_def float_or_none_def Let_def
        del: asn_of.simps(3))
  moreover have "location_from_record (legacy_layout (lat_text @ '','' @ lon_text) city cc (''AS'' @ n) name anycast) src =
       location_from_record (core_layout lat lon city cc (''AS'' @ n) anycast) src"
    unfolding core using assms asn org nonempty partition_comma_append [OF assms(8), of lon_text]
    by (simp add: location_from_record_def legacy_layout_def nested_def dict_get_def coordinates_def float_or_none_def Let_def
        del: asn_of.simps(3) split_on.simps)
  ultimately show ?thesis by blast
qed

theorem layouts_agree_witness:
  "location_from_record (legacy_layout ''37.5,-122.5'' ''Palo Alto'' ''us'' ''AS15169'' ''Google LLC'' False) ''ipinfo_api'' =
   location_from_record (core_layout (75 / 2) (- 245 / 2) ''Palo Alto'' ''us'' ''AS15169'' False) ''ipinfo_api''"
proof -
  have "py_float ''37.5'' = Some (75 / 2)" "py_float ''-122.5'' = Some (- 245 / 2)" "list_all is_digit ''15169''"
    by code_simp+
  then show ?thesis
    using layouts_agree [of "75 / 2" "- 245 / 2" "''Palo Alto''" "''us''" "''15169''" "''37.5''" "''-122.5''" False
        "''ipinfo_api''" "''Google LLC''"]
    by (simp add: in_range_def)
qed

end
