(* ===== verification/Carbon_Watttime.thy ===== *)
theory Carbon_Watttime
  imports Json
begin

text \<open>
  The WattTime client (\<open>carbon/watttime.py\<close>): tokens, the client-side rate limit, retries, and
  the two calls. The state of the client is a record that includes the monotonic clock and,
  as a history variable, the requests sent so far with their times, newest first. What is
  outside is a record of parameters: the transport, a function of all requests up to this one
  that gives a response (or none, an \<open>httpx.HTTPError\<close>) and the time it took; how much longer
  than asked a sleep takes; and \<open>datetime.fromisoformat\<close>. Calls of concurrent tasks run one
  after the other. Fields that WattTime documents as text are text: another JSON type there
  raises \<open>TypeError\<close> in the model.
\<close>

section \<open>Data\<close>

definition TOKEN_LIFETIME_SECONDS :: rat where
  "TOKEN_LIFETIME_SECONDS = 25 * 60"

definition MAX_RETRIES :: nat where
  "MAX_RETRIES = 3"

definition unit_factors :: "(string \<times> rat) list" where
  "unit_factors =
     [(''lbs_co2_per_mwh'', 453.59237 / 1000), (''lbs_co2e_per_mwh'', 453.59237 / 1000),
      (''g_co2_per_kwh'', 1), (''g_co2e_per_kwh'', 1), (''kg_co2_per_mwh'', 1), (''kg_co2e_per_mwh'', 1)]"

record Region =
  rg_code :: string
  rg_name :: "string option"

record Signal =
  sg_region :: string
  sg_point_time :: timestamp
  sg_moer :: rat

datatype WattTimeError =
    UnsupportedUnits string
  | LoginFailed
  | LoginStatus int
  | RequestFailed
  | HttpStatus int

text \<open>What a call raises: the client's own exception, or one of the JSON it was sent.\<close>

datatype client_error = WattTime WattTimeError | Unexpected py_error

definition to_g_per_kwh :: "rat \<Rightarrow> string \<Rightarrow> client_error + rat" where
  "to_g_per_kwh val units = (case map_of unit_factors (lower units) of
      None \<Rightarrow> Inl (WattTime (UnsupportedUnits units)) | Some f \<Rightarrow> Inr (val * f))"

section \<open>Requests\<close>

datatype params =
    P_Location rat rat string
  | P_Region string string

datatype request = Login | Get string params string

record WattTimeClient =
  signal_type :: string
  wt_interval :: rat
  next_slot :: rat
  wt_token :: "string option"
  token_expires :: rat
  wt_clock :: rat
  wt_sent :: "(rat \<times> request) list"

record environment =
  transport :: "(rat \<times> request) list \<Rightarrow> http_response option \<times> rat"
  oversleep :: "rat \<Rightarrow> rat"
  fromisoformat :: "string \<Rightarrow> timestamp option"

definition new_client :: "string \<Rightarrow> rat \<Rightarrow> rat \<Rightarrow> WattTimeClient" where
  "new_client signal requests_per_second start =
     \<lparr>signal_type = signal, wt_interval = 1 / requests_per_second, next_slot = 0, wt_token = None,
      token_expires = 0, wt_clock = start, wt_sent = []\<rparr>"

text \<open>\<open>asyncio.sleep(d)\<close>: at least \<open>d\<close> seconds pass.\<close>

definition wt_sleep :: "environment \<Rightarrow> rat \<Rightarrow> WattTimeClient \<Rightarrow> WattTimeClient" where
  "wt_sleep env d w = w\<lparr>wt_clock := wt_clock w + d + oversleep env (wt_clock w + d)\<rparr>"

text \<open>\<open>RateLimiter.wait\<close>.\<close>

definition limiter_wait :: "environment \<Rightarrow> WattTimeClient \<Rightarrow> WattTimeClient" where
  "limiter_wait env w =
     (let now = wt_clock w in
      if next_slot w > now
      then (wt_sleep env (next_slot w - now) w)\<lparr>next_slot := next_slot w + wt_interval w\<rparr>
      else w\<lparr>next_slot := now + wt_interval w\<rparr>)"

definition wt_send :: "environment \<Rightarrow> request \<Rightarrow> WattTimeClient \<Rightarrow> http_response option \<times> WattTimeClient" where
  "wt_send env r w =
     (let log = (wt_clock w, r) # wt_sent w; (response, d) = transport env log
      in (response, w\<lparr>wt_sent := log, wt_clock := wt_clock w + d\<rparr>))"

text \<open>A field whose value is text.\<close>

definition text_item :: "json \<Rightarrow> string \<Rightarrow> py_error + string" where
  "text_item j key = (case item j key of
      Inl e \<Rightarrow> Inl e | Inr (JStr s) \<Rightarrow> Inr s | Inr _ \<Rightarrow> Inl TypeError)"

definition wt_login :: "environment \<Rightarrow> WattTimeClient \<Rightarrow> (client_error + string) \<times> WattTimeClient" where
  "wt_login env w =
     (if wt_token w \<noteq> None \<and> wt_clock w < token_expires w then (Inr (the (wt_token w)), w)
      else
        case wt_send env Login (limiter_wait env w) of
          (None, w') \<Rightarrow> (Inl (WattTime LoginFailed), w')
        | (Some r, w') \<Rightarrow>
            if status_code r \<noteq> 200 then (Inl (WattTime (LoginStatus (status_code r))), w')
            else
              (case resp_body r of
                 None \<Rightarrow> (Inl (Unexpected ValueError), w')
               | Some j \<Rightarrow>
                   (case text_item j ''token'' of
                      Inl e \<Rightarrow> (Inl (Unexpected e), w')
                    | Inr tok \<Rightarrow> (Inr tok, w'\<lparr>wt_token := Some tok,
                                               token_expires := wt_clock w' + TOKEN_LIFETIME_SECONDS\<rparr>))))"

definition retry_after_delay :: "http_response \<Rightarrow> rat \<Rightarrow> rat" where
  "retry_after_delay r fallback =
     (case retry_after_header r of
        None \<Rightarrow> fallback
      | Some h \<Rightarrow> (case py_float h of None \<Rightarrow> fallback | Some d \<Rightarrow> min 60 (max 0 d)))"

text \<open>
  The loop over the attempts of \<open>_get\<close>; \<open>resp\<close> is the response of the attempt before, which is
  returned after the last one.
\<close>

fun get_loop ::
  "environment \<Rightarrow> string \<Rightarrow> params \<Rightarrow> nat list \<Rightarrow> bool \<Rightarrow> http_response option \<Rightarrow> WattTimeClient \<Rightarrow>
   (client_error + http_response) \<times> WattTimeClient" where
  "get_loop env path ps [] relogged resp w =
     (case resp of None \<Rightarrow> Inl (Unexpected ValueError) | Some r \<Rightarrow> Inr r, w)"
| "get_loop env path ps (attempt # attempts) relogged resp w =
     (case wt_login env w of
        (Inl e, w1) \<Rightarrow> (Inl e, w1)
      | (Inr tok, w1) \<Rightarrow>
          (case wt_send env (Get path ps tok) (limiter_wait env w1) of
             (None, w2) \<Rightarrow> (Inl (WattTime RequestFailed), w2)
           | (Some r, w2) \<Rightarrow>
               if status_code r = 401 \<and> \<not> relogged then
                 get_loop env path ps attempts True (Some r) (w2\<lparr>wt_token := None\<rparr>)
               else if status_code r = 429 \<and> attempt < MAX_RETRIES then
                 get_loop env path ps attempts relogged (Some r)
                   (wt_sleep env (retry_after_delay r (2 ^ attempt)) w2)
               else (Inr r, w2)))"

definition wt_get ::
  "environment \<Rightarrow> string \<Rightarrow> params \<Rightarrow> WattTimeClient \<Rightarrow> (client_error + http_response) \<times> WattTimeClient" where
  "wt_get env path ps w = get_loop env path ps [0..<MAX_RETRIES + 1] False None w"

section \<open>Calls\<close>

definition raise_for_status :: "http_response \<Rightarrow> client_error option" where
  "raise_for_status r = (if status_code r \<noteq> 200 then Some (WattTime (HttpStatus (status_code r))) else None)"

definition read_region :: "json \<Rightarrow> py_error + Region" where
  "read_region j = (case text_item j ''region'' of
      Inl e \<Rightarrow> Inl e
    | Inr code \<Rightarrow> (case json_get j ''region_full_name'' of
        Inl e \<Rightarrow> Inl e
      | Inr JNull \<Rightarrow> Inr \<lparr>rg_code = code, rg_name = None\<rparr>
      | Inr (JStr n) \<Rightarrow> Inr \<lparr>rg_code = code, rg_name = Some n\<rparr>
      | Inr _ \<Rightarrow> Inl TypeError))"

definition region_for ::
  "environment \<Rightarrow> rat \<Rightarrow> rat \<Rightarrow> WattTimeClient \<Rightarrow> (client_error + Region option) \<times> WattTimeClient" where
  "region_for env lat lon w =
     (case wt_get env ''/v3/region-from-loc'' (P_Location lat lon (signal_type w)) w of
        (Inl e, w') \<Rightarrow> (Inl e, w')
      | (Inr r, w') \<Rightarrow>
          (if status_code r = 400 \<or> status_code r = 404 then Inr None
           else case raise_for_status r of
             Some e \<Rightarrow> Inl e
           | None \<Rightarrow> (case resp_body r of
               None \<Rightarrow> Inl (Unexpected ValueError)
             | Some j \<Rightarrow> (case read_region j of Inl e \<Rightarrow> Inl (Unexpected e) | Inr g \<Rightarrow> Inr (Some g))), w'))"

text \<open>The signal of a forecast that has data, its fields read in the order of the code.\<close>

definition read_signal :: "environment \<Rightarrow> string \<Rightarrow> json \<Rightarrow> json \<Rightarrow> client_error + Signal" where
  "read_signal env region j data =
     (case first_item data of
        Inl e \<Rightarrow> Inl (Unexpected e)
      | Inr point \<Rightarrow>
      case text_item point ''point_time'' of
        Inl e \<Rightarrow> Inl (Unexpected e)
      | Inr stamp \<Rightarrow>
      case fromisoformat env stamp of
        None \<Rightarrow> Inl (Unexpected ValueError)
      | Some pt \<Rightarrow>
      case item point ''value'' of
        Inl e \<Rightarrow> Inl (Unexpected e)
      | Inr v \<Rightarrow>
      case float_of v of
        Inl e \<Rightarrow> Inl (Unexpected e)
      | Inr q \<Rightarrow>
      case item j ''meta'' of
        Inl e \<Rightarrow> Inl (Unexpected e)
      | Inr meta \<Rightarrow>
      case item meta ''units'' of
        Inl e \<Rightarrow> Inl (Unexpected e)
      | Inr (JStr units) \<Rightarrow>
          (case to_g_per_kwh q units of
             Inl e \<Rightarrow> Inl e
           | Inr moer \<Rightarrow> Inr \<lparr>sg_region = region, sg_point_time = pt, sg_moer = moer\<rparr>)
      | Inr _ \<Rightarrow> Inl (Unexpected AttributeError))"

definition read_forecast :: "environment \<Rightarrow> string \<Rightarrow> json \<Rightarrow> client_error + Signal option" where
  "read_forecast env region j =
     (case json_get j ''data'' of
        Inl e \<Rightarrow> Inl (Unexpected e)
      | Inr data \<Rightarrow>
          if \<not> truthy data then Inr None else map_sum id Some (read_signal env region j data))"

definition current_moer ::
  "environment \<Rightarrow> WattTimeClient \<Rightarrow> string \<Rightarrow> (client_error + Signal option) \<times> WattTimeClient" where
  "current_moer env w region =
     (case wt_get env ''/v3/forecast'' (P_Region region (signal_type w)) w of
        (Inl e, w') \<Rightarrow> (Inl e, w')
      | (Inr r, w') \<Rightarrow>
          (if status_code r = 403 then Inr None
           else case raise_for_status r of
             Some e \<Rightarrow> Inl e
           | None \<Rightarrow> (case resp_body r of
               None \<Rightarrow> Inl (Unexpected ValueError) | Some j \<Rightarrow> read_forecast env region j), w'))"


section \<open>Rate limit\<close>

text \<open>
  Times of requests, newest first, that each fall in a slot of their own: slots are \<open>d\<close> apart
  and a request is at most \<open>j\<close> late in its slot. The last argument is when the next slot starts.
\<close>

inductive paced :: "rat \<Rightarrow> rat \<Rightarrow> rat list \<Rightarrow> rat \<Rightarrow> bool" for d j where
  paced_Nil: "paced d j [] n"
| paced_Cons: "paced d j ts n \<Longrightarrow> n \<le> slot \<Longrightarrow> slot \<le> t \<Longrightarrow> t \<le> slot + j \<Longrightarrow> paced d j (t # ts) (slot + d)"

inductive_cases paced_ConsE: "paced d j (t # ts) n"

lemma paced_before_next:
  "paced d j ts n \<Longrightarrow> k < length ts \<Longrightarrow> ts ! k \<le> n - of_nat (k + 1) * d + j"
proof (induction arbitrary: k rule: paced.induct)
  case (paced_Cons ts n slot t)
  show ?case
  proof (cases k)
    case 0
    then show ?thesis using paced_Cons by simp
  next
    case (Suc m)
    then have "ts ! m \<le> n - of_nat (m + 1) * d + j" using paced_Cons by simp
    then show ?thesis using Suc paced_Cons.hyps(2) by (simp add: algebra_simps)
  qed
qed simp

lemma paced_spacing:
  "paced d j ts n \<Longrightarrow> i < k \<Longrightarrow> k < length ts \<Longrightarrow> of_nat (k - i) * d - j \<le> ts ! i - ts ! k"
proof (induction arbitrary: i k rule: paced.induct)
  case (paced_Cons ts n slot t)
  obtain m where k: "k = Suc m" using paced_Cons.prems(1) by (cases k) auto
  show ?case
  proof (cases i)
    case 0
    have "ts ! m \<le> n - of_nat (m + 1) * d + j"
      using paced_Cons.prems(2) k by (intro paced_before_next [OF paced_Cons.hyps(1)]) simp
    then show ?thesis using 0 k paced_Cons.hyps(2,3) by (simp add: algebra_simps)
  next
    case (Suc l)
    then show ?thesis using paced_Cons.IH [of l m] paced_Cons.prems k by simp
  qed
qed simp

text \<open>What every step of the client keeps.\<close>

definition client_paced :: "rat \<Rightarrow> rat \<Rightarrow> WattTimeClient \<Rightarrow> bool" where
  "client_paced d j w \<longleftrightarrow> wt_interval w = d \<and> paced d j (map fst (wt_sent w)) (next_slot w)"

definition slow_sleep :: "environment \<Rightarrow> rat \<Rightarrow> bool" where
  "slow_sleep env j \<longleftrightarrow> 0 \<le> j \<and> (\<forall>t. 0 \<le> oversleep env t \<and> oversleep env t \<le> j)"

lemma client_paced_cong:
  "wt_interval w' = wt_interval w \<Longrightarrow> wt_sent w' = wt_sent w \<Longrightarrow> next_slot w' = next_slot w \<Longrightarrow>
   client_paced d j w' = client_paced d j w"
  by (simp add: client_paced_def)

lemma client_paced_update [simp]:
  "client_paced d j (w\<lparr>wt_token := tok\<rparr>) = client_paced d j w"
  "client_paced d j (w\<lparr>wt_token := tok, token_expires := e\<rparr>) = client_paced d j w"
  "client_paced d j (wt_sleep env x w) = client_paced d j w"
  by (simp_all add: client_paced_def wt_sleep_def)

lemma client_paced_request:
  assumes "client_paced d j w" and "slow_sleep env j"
    and "wt_send env r (limiter_wait env w) = (response, w')"
  shows "client_paced d j w'"
proof -
  let ?slot = "max (wt_clock w) (next_slot w)"
  have "next_slot (limiter_wait env w) = ?slot + d" "wt_interval (limiter_wait env w) = d"
    "wt_sent (limiter_wait env w) = wt_sent w"
    using assms(1) by (auto simp: limiter_wait_def Let_def client_paced_def wt_sleep_def max_def)
  moreover have "?slot \<le> wt_clock (limiter_wait env w)" "wt_clock (limiter_wait env w) \<le> ?slot + j"
  proof -
    have o: "0 \<le> oversleep env (next_slot w)" "oversleep env (next_slot w) \<le> j" "0 \<le> j"
      using assms(2) by (simp_all add: slow_sleep_def)
    have "wt_clock (limiter_wait env w) =
        (if wt_clock w < next_slot w then next_slot w + oversleep env (next_slot w) else wt_clock w)"
      by (simp add: limiter_wait_def wt_sleep_def Let_def)
    with o show "?slot \<le> wt_clock (limiter_wait env w)" "wt_clock (limiter_wait env w) \<le> ?slot + j"
      by (simp_all add: max_def)
  qed
  ultimately show ?thesis
    using assms(1,3) by (auto simp: wt_send_def Let_def client_paced_def split: prod.splits intro!: paced_Cons)
qed

lemma client_paced_login:
  assumes "client_paced d j w" and "slow_sleep env j" and "wt_login env w = (r, w')"
  shows "client_paced d j w'"
  using assms(1,3) client_paced_request [OF assms(1,2)]
  by (auto simp: wt_login_def split: if_splits prod.splits option.splits sum.splits)

lemma client_paced_get_loop:
  "get_loop env path ps attempts relogged resp w = (r, w') \<Longrightarrow> client_paced d j w \<Longrightarrow> slow_sleep env j \<Longrightarrow>
   client_paced d j w'"
proof (induction env path ps attempts relogged resp w arbitrary: r w' rule: get_loop.induct)
  case (2 env path ps attempt attempts relogged resp w)
  obtain l w1 where l: "wt_login env w = (l, w1)" by (cases "wt_login env w")
  have p1: "client_paced d j w1" using client_paced_login [OF 2(4,5) l] .
  show ?case
  proof (cases l)
    case (Inl e)
    then show ?thesis using 2(3) l p1 by simp
  next
    case (Inr tok)
    obtain a w2 where s: "wt_send env (Get path ps tok) (limiter_wait env w1) = (a, w2)"
      by (cases "wt_send env (Get path ps tok) (limiter_wait env w1)")
    have p2: "client_paced d j w2" using client_paced_request [OF p1 2(5) s] .
    show ?thesis
    proof (cases a)
      case None
      then show ?thesis using 2(3) l Inr s p2 by simp
    next
      case (Some x)
      note ih = "2.IH" [OF l [symmetric] Inr s [symmetric] Some]
      show ?thesis
        using 2(3,5) l Inr s Some p2 ih by (auto split: if_splits)
    qed
  qed
qed simp


text \<open>The calls the rest of the program makes, in any order.\<close>

datatype call = Region_for rat rat | Current_moer string

fun do_call :: "environment \<Rightarrow> call \<Rightarrow> WattTimeClient \<Rightarrow> WattTimeClient" where
  "do_call env (Region_for lat lon) w = snd (region_for env lat lon w)"
| "do_call env (Current_moer region) w = snd (current_moer env w region)"

lemma snd_calls:
  "snd (region_for env lat lon w) = snd (wt_get env ''/v3/region-from-loc'' (P_Location lat lon (signal_type w)) w)"
  "snd (current_moer env w region) = snd (wt_get env ''/v3/forecast'' (P_Region region (signal_type w)) w)"
  by (simp_all add: region_for_def current_moer_def split: prod.split sum.split)

lemma client_paced_calls:
  "client_paced d j w \<Longrightarrow> slow_sleep env j \<Longrightarrow> client_paced d j (fold (do_call env) calls w)"
proof (induction calls arbitrary: w)
  case (Cons c calls)
  have "client_paced d j (snd (wt_get env path ps w))" for path ps
    using client_paced_get_loop [OF _ Cons.prems] unfolding wt_get_def by (metis prod.collapse)
  then show ?case using Cons by (cases c) (simp_all add: snd_calls)
qed simp

text \<open>
  C37: The client keeps its rate limit. Whatever calls are made and however the API behaves,
  any two of the requests it sends, log-ins included, are as far apart as the requests in
  between ask for, up to the lateness of one sleep: bursts cannot accumulate, not even after
  an idle period.
\<close>

theorem requests_are_spaced:
  assumes "slow_sleep env j"
    and "w = fold (do_call env) calls (new_client signal per_second start)"
    and "i < k" and "k < length (wt_sent w)"
  shows "of_nat (k - i) / per_second - j \<le> fst (wt_sent w ! i) - fst (wt_sent w ! k)"
proof -
  have "client_paced (1 / per_second) j (new_client signal per_second start)"
    by (simp add: client_paced_def new_client_def paced_Nil)
  then have "client_paced (1 / per_second) j w"
    unfolding assms(2) by (rule client_paced_calls [OF _ assms(1)])
  then have "paced (1 / per_second) j (map fst (wt_sent w)) (next_slot w)"
    by (simp add: client_paced_def)
  from paced_spacing [OF this assms(3)] show ?thesis using assms(3,4) by simp
qed


text \<open>An API for the examples: it hands out a token and answers a forecast.\<close>

definition forecast_body :: json where
  "forecast_body = JObj [(''data'', JList [JObj [(''point_time'', JStr ''2026-09-15T12:05:00Z''), (''value'', JFloat 850)]]),
     (''meta'', JObj [(''units'', JStr ''lbs_co2_per_mwh'')])]"

definition sample_env :: environment where
  "sample_env = \<lparr>transport = (\<lambda>log. (Some \<lparr>status_code = 200,
       resp_body = Some (case snd (hd log) of Login \<Rightarrow> JObj [(''token'', JStr ''t'')] | Get _ _ _ \<Rightarrow> forecast_body),
       retry_after_header = None\<rparr>, 1 / 50)),
     oversleep = (\<lambda>_. 0),
     fromisoformat = (\<lambda>s. if s = ''2026-09-15T12:05:00Z'' then Some (secs 1789473900) else None)\<rparr>"

lemma sample_calls:
  "wt_sent (fold (do_call sample_env) [Current_moer ''DE'', Current_moer ''FR''] (new_client ''co2_moer'' 10 5)) =
     [(52 / 10, Get ''/v3/forecast'' (P_Region ''FR'' ''co2_moer'') ''t''),
      (51 / 10, Get ''/v3/forecast'' (P_Region ''DE'' ''co2_moer'') ''t''), (5, Login)]"
  by code_simp

theorem requests_are_spaced_witness:
  "2 / 10 - 0 \<le> (52 / 10 :: rat) - 5 \<and>
   map fst (wt_sent (fold (do_call sample_env) [Current_moer ''DE'', Current_moer ''FR''] (new_client ''co2_moer'' 10 5)))
     = [52 / 10, 51 / 10, 5]"
proof -
  have "slow_sleep sample_env 0" by (simp add: slow_sleep_def sample_env_def)
  from requests_are_spaced [OF this refl, of 0 2 "[Current_moer ''DE'', Current_moer ''FR'']" "''co2_moer''" 10 5]
  show ?thesis unfolding sample_calls by simp
qed

section \<open>Retries\<close>

fun is_get :: "rat \<times> request \<Rightarrow> bool" where
  "is_get (t, Get _ _ _) = True"
| "is_get (t, Login) = False"

definition gets :: "(rat \<times> request) list \<Rightarrow> nat" where
  "gets rs = length (filter is_get rs)"

lemma gets_simps [simp]:
  "gets [] = 0" "gets (xs @ ys) = gets xs + gets ys"
  "gets ((t, Login) # xs) = gets xs" "gets ((t, Get a b c) # xs) = Suc (gets xs)"
  by (simp_all add: gets_def)

lemma limiter_wait_sent [simp]: "wt_sent (limiter_wait env w) = wt_sent w"
  by (simp add: limiter_wait_def wt_sleep_def Let_def)

lemma send_sent: "wt_send env r w = (a, w') \<Longrightarrow> wt_sent w' = (wt_clock w, r) # wt_sent w"
  by (auto simp: wt_send_def Let_def split: prod.splits)

lemma login_sent:
  assumes "wt_login env w = (r, w')"
  shows "\<exists>new. wt_sent w' = new @ wt_sent w \<and> length new \<le> 1 \<and> gets new = 0"
proof (cases "wt_token w \<noteq> None \<and> wt_clock w < token_expires w")
  case True
  then show ?thesis using assms by (auto simp: wt_login_def intro!: exI [of _ "[]"])
next
  case False
  obtain a v where s: "wt_send env Login (limiter_wait env w) = (a, v)"
    by (cases "wt_send env Login (limiter_wait env w)")
  have "wt_sent w' = wt_sent v"
    using assms False s
    by (auto simp: wt_login_def split: if_splits option.splits sum.splits)
  then show ?thesis
    using send_sent [OF s] by (auto intro!: exI [of _ "[(wt_clock (limiter_wait env w), Login)]"])
qed


text \<open>
  The requests \<open>new\<close> that the loop sends from attempt \<open>a\<close> on, and what it then returns. It returns
  the response it was started with only when no attempt is left.
\<close>

definition retried ::
  "nat \<Rightarrow> http_response option \<Rightarrow> client_error + http_response \<Rightarrow> (rat \<times> request) list \<Rightarrow> bool" where
  "retried a resp res new \<longleftrightarrow> a + gets new \<le> MAX_RETRIES + 1 \<and> length new \<le> 2 * (MAX_RETRIES + 1 - a) \<and>
     (\<forall>r. res = Inr r \<longrightarrow> a = MAX_RETRIES + 1 \<and> resp = Some r \<or>
       1 \<le> gets new \<and> (status_code r = 429 \<longrightarrow> a + gets new = MAX_RETRIES + 1) \<and>
       (status_code r = 401 \<longrightarrow> 2 \<le> a + gets new))"

lemma retried_error: "a + gets n \<le> MAX_RETRIES + 1 \<Longrightarrow> length n \<le> 2 \<Longrightarrow> a \<le> MAX_RETRIES \<Longrightarrow> retried a resp (Inl e) n"
  by (simp add: retried_def)

lemma retried_return:
  "gets n = 1 \<Longrightarrow> length n \<le> 2 \<Longrightarrow> a \<le> MAX_RETRIES \<Longrightarrow> (status_code r = 429 \<Longrightarrow> a = MAX_RETRIES) \<Longrightarrow>
   (status_code r = 401 \<Longrightarrow> 1 \<le> a) \<Longrightarrow> retried a resp (Inr r) n"
  by (auto simp: retried_def)

lemma retried_again:
  assumes "retried (Suc a) (Some r) res m" and "gets n = 1" and "length n \<le> 2" and "a \<le> MAX_RETRIES"
    and "a = MAX_RETRIES \<Longrightarrow> status_code r \<noteq> 429"
  shows "retried a resp res (m @ n)"
proof -
  have "1 \<le> gets (m @ n) \<and> (status_code x = 429 \<longrightarrow> a + gets (m @ n) = MAX_RETRIES + 1) \<and>
      (status_code x = 401 \<longrightarrow> 2 \<le> a + gets (m @ n))" if "res = Inr x" for x
  proof -
    have three: "MAX_RETRIES = 3" by (simp add: MAX_RETRIES_def)
    have "a = MAX_RETRIES \<and> r = x \<or> 1 \<le> gets m \<and> (status_code x = 429 \<longrightarrow> Suc a + gets m = MAX_RETRIES + 1)"
      using assms(1) that by (auto simp: retried_def)
    then show ?thesis using assms(2,5) three by auto
  qed
  moreover have "length (m @ n) \<le> 2 * (MAX_RETRIES + 1 - a)"
  proof -
    have "length m \<le> 2 * (MAX_RETRIES - a)" using assms(1) by (simp add: retried_def)
    then show ?thesis using assms(3,4) by (simp add: Suc_diff_le)
  qed
  ultimately show ?thesis using assms(1,2) by (simp add: retried_def)
qed

lemma get_loop_sent:
  assumes "get_loop env path ps [a..<MAX_RETRIES + 1] relogged resp w = (res, w')"
    and "a \<le> MAX_RETRIES + 1" and "relogged \<longrightarrow> 1 \<le> a"
  shows "\<exists>new. wt_sent w' = new @ wt_sent w \<and> retried a resp res new"
  using assms
proof (induction "MAX_RETRIES + 1 - a" arbitrary: a relogged resp w)
  case 0
  then have "a = MAX_RETRIES + 1" by simp
  with 0 show ?case by (auto simp: retried_def split: option.splits intro!: exI [of _ "[]"])
next
  case (Suc m)
  then have le: "a \<le> MAX_RETRIES" and m: "m = MAX_RETRIES + 1 - Suc a" by simp_all
  then have cons: "[a..<MAX_RETRIES + 1] = a # [Suc a..<MAX_RETRIES + 1]" by (simp add: upt_conv_Cons)
  obtain l w1 where l: "wt_login env w = (l, w1)" by (cases "wt_login env w")
  obtain n1 where n1: "wt_sent w1 = n1 @ wt_sent w" "length n1 \<le> 1" "gets n1 = 0"
    using login_sent [OF l] by blast
  show ?case
  proof (cases l)
    case (Inl e)
    then have "retried a resp res n1" "w' = w1"
      using Suc.prems(1) l n1 le unfolding cons by (auto intro: retried_error)
    then show ?thesis using n1(1) by blast
  next
    case (Inr tok)
    obtain b w2 where s: "wt_send env (Get path ps tok) (limiter_wait env w1) = (b, w2)"
      by (cases "wt_send env (Get path ps tok) (limiter_wait env w1)")
    define n2 where "n2 = (wt_clock (limiter_wait env w1), Get path ps tok) # n1"
    have n2: "wt_sent w2 = n2 @ wt_sent w" "gets n2 = 1" "length n2 \<le> 2"
      using send_sent [OF s] n1 by (simp_all add: n2_def)
    have more: ?thesis
      if loop: "get_loop env path ps [Suc a..<MAX_RETRIES + 1] rl (Some r) v = (res, w')"
        and v: "wt_sent v = wt_sent w2" and last: "a = MAX_RETRIES \<Longrightarrow> status_code r \<noteq> 429" for r rl v
    proof -
      obtain n3 where "wt_sent w' = n3 @ wt_sent v" and n3: "retried (Suc a) (Some r) res n3"
        using Suc.hyps(1) [OF m loop] le by auto
      then have "wt_sent w' = (n3 @ n2) @ wt_sent w" using v n2(1) by simp
      moreover have "retried a resp res (n3 @ n2)" using n3 n2(2,3) le last by (rule retried_again)
      ultimately show ?thesis by blast
    qed
    show ?thesis
    proof (cases b)
      case None
      then show ?thesis
        using Suc.prems(1) l Inr s n2 le unfolding cons by (auto intro!: exI [of _ n2] retried_error)
    next
      case (Some r)
      consider (relog) "status_code r = 401" "\<not> relogged" | (wait) "status_code r = 429" "a < MAX_RETRIES"
        | (return) "\<not> (status_code r = 401 \<and> \<not> relogged)" "\<not> (status_code r = 429 \<and> a < MAX_RETRIES)"
        by blast
      then show ?thesis
      proof cases
        case relog
        then show ?thesis
          using Suc.prems(1) l Inr s Some unfolding cons by (intro more [of True r "w2\<lparr>wt_token := None\<rparr>"]) simp_all
      next
        case wait
        then show ?thesis
          using Suc.prems(1) l Inr s Some unfolding cons
          by (intro more [of relogged r "wt_sleep env (retry_after_delay r (2 ^ a)) w2"]) (simp_all add: wt_sleep_def)
      next
        case return
        then have "res = Inr r" "w' = w2" using Suc.prems(1) l Inr s Some unfolding cons by auto
        then show ?thesis
          using return Suc.prems(3) n2 le by (auto intro!: exI [of _ n2] retried_return)
      qed
    qed
  qed
qed



section \<open>What the calls return\<close>

text \<open>
  The contract of a source of signals: a signal it returns is for the region it was asked about.
\<close>

locale moer_source =
  fixes moer :: "'w \<Rightarrow> string \<Rightarrow> (client_error + Signal option) \<times> 'w"
  assumes moer_region: "moer w region = (Inr (Some signal), w') \<Longrightarrow> sg_region signal = region"

lemma read_signal_region: "read_signal env region j d = Inr s \<Longrightarrow> sg_region s = region"
  by (auto simp: read_signal_def split: sum.splits option.splits json.splits)

interpretation watttime: moer_source "current_moer env" for env
proof
  fix w region signal w'
  assume "current_moer env w region = (Inr (Some signal), w')"
  then obtain j d where "read_signal env region j d = Inr signal"
    by (auto simp: current_moer_def read_forecast_def map_sum_def
        split: prod.splits sum.splits if_splits option.splits)
  then show "sg_region signal = region" by (rule read_signal_region)
qed

end
