(* ===== verification/Store.thy ===== *)
theory Store
  imports Database Carbon_Watttime
begin

text \<open>
  The SQL of the measurement pipeline (\<open>worker/store.py\<close>). Every function runs at a time
  \<open>now\<close>, the transaction timestamp, and returns a database error or the new database: a
  transaction that fails leaves nothing behind.
\<close>

section \<open>Records and keys\<close>

definition PROVIDER :: string where
  "PROVIDER = ''watttime''"

record Record =
  rc_rtype :: rtype
  rc_address :: string
  rc_resolver :: string
  rc_ttl :: int

text \<open>\<open>Endpoint(address)\<close>, all other fields at their defaults.\<close>

definition bare_endpoint :: "string \<Rightarrow> endpoint" where
  "bare_endpoint address =
     \<lparr>e_address = address, e_lat = None, e_lon = None, e_city = None, e_country = None,
      e_asn = None, e_is_anycast = False, e_region_code = None, e_geo_source = None,
      e_geo_updated_at = None\<rparr>"

definition location_key :: "rat \<Rightarrow> rat \<Rightarrow> int \<times> int" where
  "location_key lat lon = (py_round (lat * 100), py_round (lon * 100))"

section \<open>Reading\<close>

definition fresh_endpoints :: "timestamp \<Rightarrow> string set \<Rightarrow> int \<Rightarrow> db \<Rightarrow> (string \<times> endpoint) list" where
  "fresh_endpoints now addresses max_age_days db =
     map (\<lambda>e. (e_address e, e))
       (filter (\<lambda>e. e_address e \<in> addresses \<and>
                    (case e_geo_updated_at e of None \<Rightarrow> False | Some t \<Rightarrow> t > now - days max_age_days))
         (endpoints db))"

definition cached_regions ::
  "timestamp \<Rightarrow> (int \<times> int) set \<Rightarrow> int \<Rightarrow> db \<Rightarrow> ((int \<times> int) \<times> string option) list" where
  "cached_regions now keys negative_days db =
     (if keys = {} then []
      else map (\<lambda>l. ((l_lat_e2 l, l_lon_e2 l), l_region_code l))
             (filter (\<lambda>l. (l_lat_e2 l, l_lon_e2 l) \<in> keys \<and> l_provider l = PROVIDER \<and>
                          (l_region_code l \<noteq> None \<or> l_looked_up_at l > now - days negative_days))
               (location_regions db)))"

definition regions_needing_signal :: "timestamp \<Rightarrow> string set \<Rightarrow> int \<Rightarrow> db \<Rightarrow> string set" where
  "regions_needing_signal now codes max_age_seconds db =
     (if codes = {} then {}
      else codes - set (map s_region_code
             (filter (\<lambda>s. s_region_code s \<in> codes \<and> s_fetched_at s > now - secs max_age_seconds)
               (carbon_signals db))))"

section \<open>Caches\<close>

definition put_region :: "Region \<Rightarrow> db \<Rightarrow> db" where
  "put_region region db =
     db\<lparr>grid_regions := upsert g_code
          \<lparr>g_code = rg_code region, g_name = rg_name region, g_provider = PROVIDER\<rparr>
          (\<lambda>g. g\<lparr>g_name := (case rg_name region of None \<Rightarrow> g_name g | Some n \<Rightarrow> Some n)\<rparr>)
          (grid_regions db)\<rparr>"

definition location_ok :: "location_row \<Rightarrow> bool" where
  "location_ok l \<longleftrightarrow>
     -9000 \<le> l_lat_e2 l \<and> l_lat_e2 l \<le> 9000 \<and> -18000 \<le> l_lon_e2 l \<and> l_lon_e2 l \<le> 18000"

definition save_region :: "timestamp \<Rightarrow> int \<times> int \<Rightarrow> Region option \<Rightarrow> db \<Rightarrow> db_error + db" where
  "save_region now key region db =
     (let db1 = (case region of None \<Rightarrow> db | Some r \<Rightarrow> put_region r db);
          row = \<lparr>l_provider = PROVIDER, l_lat_e2 = fst key, l_lon_e2 = snd key,
                 l_region_code = map_option rg_code region, l_looked_up_at = now\<rparr>
      in if \<not> location_ok row then Inl CheckViolation
         else Inr (db1\<lparr>location_regions := upsert location_key_of row
                 (\<lambda>l. l\<lparr>l_region_code := l_region_code row, l_looked_up_at := now\<rparr>)
                 (location_regions db1)\<rparr>))"

abbreviation signal_key :: "signal_row \<Rightarrow> string \<times> timestamp" where
  "signal_key s \<equiv> (s_region_code s, s_point_time s)"

definition save_signal :: "timestamp \<Rightarrow> Signal \<Rightarrow> db \<Rightarrow> db_error + db" where
  "save_signal now signal db =
     (if sg_moer signal < 0 then Inl CheckViolation
      else if sg_region signal \<notin> g_code ` set (grid_regions db) then Inl ForeignKeyViolation
      else Inr (db\<lparr>carbon_signals := upsert signal_key
              \<lparr>s_region_code = sg_region signal, s_point_time = sg_point_time signal,
               s_moer = sg_moer signal, s_fetched_at = now\<rparr>
              (\<lambda>s. s\<lparr>s_moer := sg_moer signal, s_fetched_at := now\<rparr>)
              (carbon_signals db)\<rparr>))"

section \<open>Storing a measurement\<close>

definition measured_domain ::
  "timestamp \<Rightarrow> string \<Rightarrow> status \<Rightarrow> int option \<Rightarrow> nat \<Rightarrow> domain_row" where
  "measured_domain now domain st retry i =
     \<lparr>d_id = i, d_name = domain, d_status = st, d_first_seen_at = now, d_measured_at = Some now,
      d_last_queried_at = None, d_hit_count = 0,
      d_retry_after = map_option (\<lambda>s. now + secs s) retry\<rparr>"

definition remeasured ::
  "timestamp \<Rightarrow> status \<Rightarrow> int option \<Rightarrow> domain_row \<Rightarrow> domain_row" where
  "remeasured now st retry d =
     d\<lparr>d_status := st, d_measured_at := Some now,
       d_retry_after := map_option (\<lambda>s. now + secs s) retry\<rparr>"

definition put_domain :: "timestamp \<Rightarrow> string \<Rightarrow> status \<Rightarrow> int option \<Rightarrow> db \<Rightarrow> db" where
  "put_domain now domain st retry =
     upsert_domain (measured_domain now domain st retry) (remeasured now st retry)"

text \<open>One row of \<open>executemany\<close> each; the first error ends the statement.\<close>

fun each :: "('a \<Rightarrow> 's \<Rightarrow> 'e + 's) \<Rightarrow> 'a list \<Rightarrow> 's \<Rightarrow> 'e + 's" where
  "each f [] s = Inr s"
| "each f (a # as) s = (case f a s of Inl e \<Rightarrow> Inl e | Inr s' \<Rightarrow> each f as s')"

definition put_located :: "endpoint \<Rightarrow> db \<Rightarrow> db_error + db" where
  "put_located e db =
     (if (case e_country e of None \<Rightarrow> False | Some c \<Rightarrow> length c > 2) then Inl DataError
      else if \<not> endpoint_ok e then Inl CheckViolation
      else if \<not> region_known db (e_region_code e) then Inl ForeignKeyViolation
      else Inr (db\<lparr>endpoints := upsert e_address e (\<lambda>old. e\<lparr>e_address := e_address old\<rparr>) (endpoints db)\<rparr>))"

definition put_unlocated :: "endpoint \<Rightarrow> db \<Rightarrow> db_error + db" where
  "put_unlocated e db =
     Inr (db\<lparr>endpoints := upsert e_address (bare_endpoint (e_address e)) (\<lambda>old. old) (endpoints db)\<rparr>)"

definition record_row :: "timestamp \<Rightarrow> nat \<Rightarrow> int \<Rightarrow> Record \<Rightarrow> rrset_row" where
  "record_row now domain_id min_ttl r =
     \<lparr>r_domain_id = domain_id, r_rtype = rc_rtype r, r_address = rc_address r,
      r_resolver = rc_resolver r, r_ttl = rc_ttl r, r_resolved_at = now,
      r_expires_at = now + secs (max (rc_ttl r) min_ttl)\<rparr>"

definition put_record :: "rrset_row \<Rightarrow> db \<Rightarrow> db_error + db" where
  "put_record row db =
     (if \<not> rrset_ok row then Inl CheckViolation
      else if rrset_key row \<in> rrset_key ` set (rrset_records db) then Inl UniqueViolation
      else if r_address row \<notin> e_address ` set (endpoints db) then Inl ForeignKeyViolation
      else Inr (db\<lparr>rrset_records := rrset_records db @ [row]\<rparr>))"

definition delete_records :: "nat \<Rightarrow> db \<Rightarrow> db" where
  "delete_records i db =
     db\<lparr>rrset_records := delete_where (\<lambda>r. r_domain_id r = i) (rrset_records db)\<rparr>"

definition store_measurement ::
  "timestamp \<Rightarrow> string \<Rightarrow> status \<Rightarrow> int option \<Rightarrow> endpoint list \<Rightarrow> Record list \<Rightarrow> db \<Rightarrow> db_error + db" where
  "store_measurement now domain st retry eps records db =
     (if domain = [] \<or> \<not> canonical domain then Inl CheckViolation
      else
        let db1 = put_domain now domain st retry db in
        case find_row d_name domain (domains db1) of
          None \<Rightarrow> Inl OperationalError
        | Some d \<Rightarrow>
            if st = Failed then Inr db1
            else
              case each put_located (filter (\<lambda>e. e_geo_updated_at e \<noteq> None) eps) db1 of
                Inl e \<Rightarrow> Inl e
              | Inr db2 \<Rightarrow>
                  case each put_unlocated (filter (\<lambda>e. e_geo_updated_at e = None) eps) db2 of
                    Inl e \<Rightarrow> Inl e
                  | Inr db3 \<Rightarrow>
                      let db4 = delete_records (d_id d) db3
                      in each (\<lambda>r. put_record (record_row now (d_id d) (min_record_ttl (settings db4)) r))
                           records db4)"


section \<open>Statements that run row by row\<close>

lemma each_invariant:
  assumes "each f as s = Inr s'" and "P s"
    and "\<And>a t t'. a \<in> set as \<Longrightarrow> P t \<Longrightarrow> f a t = Inr t' \<Longrightarrow> P t'"
  shows "P s'"
  using assms
proof (induction as arbitrary: s)
  case (Cons a as)
  then obtain t where t: "f a s = Inr t" "each f as t = Inr s'" by (auto split: sum.splits)
  show ?case
  proof (rule Cons.IH [OF t(2)])
    show "P t" using Cons.prems(2,3) t(1) by auto
    show "\<And>b u u'. b \<in> set as \<Longrightarrow> P u \<Longrightarrow> f b u = Inr u' \<Longrightarrow> P u'" using Cons.prems(3) by auto
  qed
qed simp

lemma each_total:
  assumes "P s" and "\<And>a t. a \<in> set as \<Longrightarrow> P t \<Longrightarrow> \<exists>t'. f a t = Inr t' \<and> P t'"
  shows "\<exists>s'. each f as s = Inr s' \<and> P s'"
  using assms
proof (induction as arbitrary: s)
  case (Cons a as)
  then obtain t where t: "f a s = Inr t" "P t" by force
  then show ?case using Cons.IH [OF t(2)] Cons.prems(2) by auto
qed simp

lemma each_Inr_fold:
  assumes "each f as s = Inr s'" and "\<And>a t t'. a \<in> set as \<Longrightarrow> f a t = Inr t' \<Longrightarrow> t' = g a t"
  shows "s' = fold g as s"
  using assms
proof (induction as arbitrary: s)
  case (Cons a as)
  then obtain t where t: "f a s = Inr t" "each f as t = Inr s'" by (auto split: sum.splits)
  then show ?case using Cons.IH [OF t(2)] Cons.prems(2) by force
qed simp

subsection \<open>Endpoints\<close>

definition put_endpoint :: "endpoint \<Rightarrow> endpoint list \<Rightarrow> endpoint list" where
  "put_endpoint e = (if e_geo_updated_at e = None
     then upsert e_address (bare_endpoint (e_address e)) (\<lambda>old. old)
     else upsert e_address e (\<lambda>old. e\<lparr>e_address := e_address old\<rparr>))"

interpretation endpoint_rows: keyed_rows e_address e_address
  "\<lambda>e. if e_geo_updated_at e = None then bare_endpoint (e_address e) else e"
  "\<lambda>e old. if e_geo_updated_at e = None then old else e\<lparr>e_address := e_address old\<rparr>"
  by unfold_locales (simp_all add: bare_endpoint_def)

lemma put_endpoint_eq:
  "put_endpoint = (\<lambda>e. upsert e_address
     (if e_geo_updated_at e = None then bare_endpoint (e_address e) else e)
     (\<lambda>old. if e_geo_updated_at e = None then old else e\<lparr>e_address := e_address old\<rparr>))"
proof
  show "put_endpoint e = upsert e_address
     (if e_geo_updated_at e = None then bare_endpoint (e_address e) else e)
     (\<lambda>old. if e_geo_updated_at e = None then old else e\<lparr>e_address := e_address old\<rparr>)" for e
    by (cases "e_geo_updated_at e") (simp_all add: put_endpoint_def)
qed

lemma put_located_Inr:
  "put_located e db = Inr db' \<longleftrightarrow> endpoint_ok e \<and> region_known db (e_region_code e) \<and>
     db' = db\<lparr>endpoints := upsert e_address e (\<lambda>old. e\<lparr>e_address := e_address old\<rparr>) (endpoints db)\<rparr>"
  by (auto simp: put_located_def endpoint_ok_def split: option.splits)

text \<open>Both statements for the endpoints of a measurement, as one batch of upserts.\<close>

lemma put_endpoints:
  assumes "each put_located (filter (\<lambda>e. e_geo_updated_at e \<noteq> None) eps) db1 = Inr db2"
    and "each put_unlocated (filter (\<lambda>e. e_geo_updated_at e = None) eps) db2 = Inr db3"
  shows "db3 = db1\<lparr>endpoints := fold put_endpoint
      (filter (\<lambda>e. e_geo_updated_at e \<noteq> None) eps @ filter (\<lambda>e. e_geo_updated_at e = None) eps) (endpoints db1)\<rparr>"
    and "\<forall>e \<in> set eps. e_geo_updated_at e \<noteq> None \<longrightarrow> endpoint_ok e \<and> region_known db1 (e_region_code e)"
proof -
  let ?g = "\<lambda>e db. db\<lparr>endpoints := put_endpoint e (endpoints db)\<rparr>"
  have "db2 = fold ?g (filter (\<lambda>e. e_geo_updated_at e \<noteq> None) eps) db1"
    using assms(1) by (rule each_Inr_fold) (auto simp: put_located_Inr put_endpoint_def)
  moreover have "db3 = fold ?g (filter (\<lambda>e. e_geo_updated_at e = None) eps) db2"
    using assms(2) by (rule each_Inr_fold) (auto simp: put_unlocated_def put_endpoint_def)
  ultimately have "db3 = fold ?g (filter (\<lambda>e. e_geo_updated_at e \<noteq> None) eps @
      filter (\<lambda>e. e_geo_updated_at e = None) eps) db1" by simp
  also have "fold ?g es db = db\<lparr>endpoints := fold put_endpoint es (endpoints db)\<rparr>" for es db
    by (induction es arbitrary: db) simp_all
  finally show "db3 = db1\<lparr>endpoints := fold put_endpoint
      (filter (\<lambda>e. e_geo_updated_at e \<noteq> None) eps @ filter (\<lambda>e. e_geo_updated_at e = None) eps) (endpoints db1)\<rparr>" .
  have "\<forall>e \<in> set es. endpoint_ok e \<and> region_known db1 (e_region_code e)"
    if "each put_located es db = Inr db'" "grid_regions db = grid_regions db1" for es db db'
    using that
  proof (induction es arbitrary: db)
    case (Cons e es)
    from Cons.prems(1) obtain t where t: "put_located e db = Inr t" "each put_located es t = Inr db'"
      by (auto split: sum.splits)
    then have "grid_regions t = grid_regions db" "endpoint_ok e" "region_known db (e_region_code e)"
      by (auto simp: put_located_Inr)
    then show ?case
      using Cons.IH [OF t(2)] Cons.prems(2) by (auto simp: region_known_def split: option.splits)
  qed simp
  then show "\<forall>e \<in> set eps. e_geo_updated_at e \<noteq> None \<longrightarrow> endpoint_ok e \<and> region_known db1 (e_region_code e)"
    using assms(1) by auto
qed

subsection \<open>Records\<close>

lemma put_record_Inr:
  "put_record row db = Inr db' \<longleftrightarrow> rrset_ok row \<and> rrset_key row \<notin> rrset_key ` set (rrset_records db) \<and>
     r_address row \<in> e_address ` set (endpoints db) \<and> db' = db\<lparr>rrset_records := rrset_records db @ [row]\<rparr>"
  by (auto simp: put_record_def)

lemma put_records:
  "each (\<lambda>r. put_record (row r)) rs db = Inr db' \<Longrightarrow>
   db' = db\<lparr>rrset_records := rrset_records db @ map row rs\<rparr> \<and>
   (\<forall>r \<in> set rs. rrset_ok (row r) \<and> r_address (row r) \<in> e_address ` set (endpoints db)) \<and>
   (unique_key rrset_key (rrset_records db) \<longrightarrow> unique_key rrset_key (rrset_records db'))"
proof (induction rs arbitrary: db)
  case (Cons r rs)
  then obtain t where t: "put_record (row r) db = Inr t" "each (\<lambda>r. put_record (row r)) rs t = Inr db'"
    by (auto split: sum.splits)
  have t': "t = db\<lparr>rrset_records := rrset_records db @ [row r]\<rparr>" "rrset_ok (row r)"
      "rrset_key (row r) \<notin> rrset_key ` set (rrset_records db)"
      "r_address (row r) \<in> e_address ` set (endpoints db)"
    using t(1) by (simp_all add: put_record_Inr)
  then have "unique_key rrset_key (rrset_records db) \<longrightarrow> unique_key rrset_key (rrset_records t)"
    by (simp add: unique_key_def)
  with Cons.IH [OF t(2)] t' show ?case by auto
qed simp

lemma record_row_ok:
  "0 \<le> min_ttl \<Longrightarrow> rrset_ok (record_row now i min_ttl r) \<longleftrightarrow> 0 \<le> rc_ttl r \<and> family_ok (rc_rtype r) (rc_address r)"
  by (auto simp: rrset_ok_def record_row_def secs_def)


section \<open>Integrity\<close>

lemma put_domain_ok:
  assumes "db_ok db" and "domain \<noteq> []" and "canonical domain"
  shows "db_ok (put_domain now domain st retry db)"
proof -
  let ?db = "put_domain now domain st retry db"
  have "domains_ok ?db"
    unfolding put_domain_def using assms
    by (intro domains_ok_upsert_domain)
       (simp_all add: db_ok_def measured_domain_def remeasured_def domain_ok_def)
  moreover have "d_id ` set (domains db) \<subseteq> d_id ` set (domains ?db)"
    unfolding put_domain_def by (rule ids_upsert_domain) (simp add: remeasured_def)
  moreover have "records_ok ?db"
    using assms(1) \<open>d_id ` set (domains db) \<subseteq> _\<close>
    by (auto simp: db_ok_def records_ok_def put_domain_def)
  moreover have "settings_ok ?db" "signals_ok ?db" "endpoints_ok ?db" "queue_ok ?db" "locations_ok ?db"
      "unique_key g_code (grid_regions ?db)"
    using assms(1) region_known_cong [of ?db db]
    by (simp_all add: db_ok_def settings_ok_def signals_ok_def endpoints_ok_def queue_ok_def
        locations_ok_def put_domain_def)
  ultimately show ?thesis by (simp add: db_ok_def)
qed

lemma bare_endpoint_ok: "endpoint_ok (bare_endpoint a)"
  by (simp add: endpoint_ok_def bare_endpoint_def)

lemma bare_endpoint_region: "e_region_code (bare_endpoint a) = None"
  by (simp add: bare_endpoint_def)

lemma endpoint_ok_readdress [simp]: "endpoint_ok (e\<lparr>e_address := a\<rparr>) = endpoint_ok e"
  by (simp add: endpoint_ok_def)

lemma put_endpoints_ok:
  assumes "db_ok db"
    and "\<forall>e \<in> set es. e_geo_updated_at e \<noteq> None \<longrightarrow> endpoint_ok e \<and> region_known db (e_region_code e)"
  shows "db_ok (db\<lparr>endpoints := fold put_endpoint es (endpoints db)\<rparr>)"
proof -
  let ?t = "fold put_endpoint es (endpoints db)"
  have known: "region_known db None" "region_known (db\<lparr>endpoints := t\<rparr>) = region_known db" for t
    by (simp add: region_known_def) (rule region_known_cong, simp)
  have "\<forall>e \<in> set ?t. endpoint_ok e \<and> region_known db (e_region_code e)"
    unfolding put_endpoint_eq using assms known(1)
    by (intro endpoint_rows.rows_fold_put)
       (auto simp: db_ok_def endpoints_ok_def bare_endpoint_ok bare_endpoint_region)
  moreover have "unique_key e_address ?t"
    unfolding put_endpoint_eq using assms(1)
    by (intro endpoint_rows.invar_fold_put) (simp add: db_ok_def endpoints_ok_def)
  moreover have "e_address ` set (endpoints db) \<subseteq> e_address ` set ?t"
    unfolding put_endpoint_eq endpoint_rows.keys_fold_put by blast
  ultimately show ?thesis
    using assms(1)
    by (auto simp: db_ok_def settings_ok_def domains_ok_def signals_ok_def endpoints_ok_def
        records_ok_def queue_ok_def locations_ok_def known)
qed

lemma new_records_ok:
  assumes "db_ok db" and "unique_key rrset_key t"
    and "\<forall>r \<in> set t. rrset_ok r \<and> r_domain_id r \<in> d_id ` set (domains db) \<and>
      r_address r \<in> e_address ` set (endpoints db)"
  shows "db_ok (db\<lparr>rrset_records := t\<rparr>)"
  using assms region_known_cong [of "db\<lparr>rrset_records := t\<rparr>" db]
  by (simp add: db_ok_def settings_ok_def domains_ok_def signals_ok_def endpoints_ok_def
      records_ok_def queue_ok_def locations_ok_def)

lemma delete_records_ok: "db_ok db \<Longrightarrow> db_ok (delete_records i db)"
  unfolding delete_records_def
  by (rule new_records_ok) (auto simp: db_ok_def records_ok_def unique_key_delete_where set_delete_where)

text \<open>The stages of a stored measurement that is not \<open>Failed\<close>.\<close>

lemma store_measurement_stages:
  assumes "store_measurement now domain st retry eps records db = Inr db'"
  obtains (failed) "st = Failed" "db' = put_domain now domain st retry db" "domain \<noteq> []" "canonical domain"
  | (stored) d db3 where "st \<noteq> Failed" "domain \<noteq> []" "canonical domain"
      "find_row d_name domain (domains (put_domain now domain st retry db)) = Some d"
      "db3 = (put_domain now domain st retry db)\<lparr>endpoints := fold put_endpoint
        (filter (\<lambda>e. e_geo_updated_at e \<noteq> None) eps @ filter (\<lambda>e. e_geo_updated_at e = None) eps) (endpoints db)\<rparr>"
      "\<forall>e \<in> set eps. e_geo_updated_at e \<noteq> None \<longrightarrow> endpoint_ok e \<and> region_known db (e_region_code e)"
      "each (\<lambda>r. put_record (record_row now (d_id d) (min_record_ttl (settings db)) r)) records
         (delete_records (d_id d) db3) = Inr db'"
proof -
  let ?db1 = "put_domain now domain st retry db"
  have ok: "domain \<noteq> []" "canonical domain"
    using assms by (auto simp: store_measurement_def split: if_splits)
  obtain d where d: "find_row d_name domain (domains ?db1) = Some d"
    using assms by (auto simp: store_measurement_def Let_def split: if_splits option.splits)
  show ?thesis
  proof (cases "st = Failed")
    case True
    then show ?thesis using assms d ok failed by (simp add: store_measurement_def Let_def)
  next
    case False
    then obtain db2 db3 where
      s: "each put_located (filter (\<lambda>e. e_geo_updated_at e \<noteq> None) eps) ?db1 = Inr db2"
      "each put_unlocated (filter (\<lambda>e. e_geo_updated_at e = None) eps) db2 = Inr db3"
      "each (\<lambda>r. put_record (record_row now (d_id d) (min_record_ttl (settings (delete_records (d_id d) db3))) r))
         records (delete_records (d_id d) db3) = Inr db'"
      using assms d ok by (auto simp: store_measurement_def Let_def split: sum.splits)
    note e = put_endpoints [OF s(1,2)]
    have same: "endpoints ?db1 = endpoints db" "region_known ?db1 = region_known db"
      "settings (delete_records (d_id d) db3) = settings db"
      using e(1) region_known_cong [of ?db1 db] by (simp_all add: put_domain_def delete_records_def)
    show ?thesis
      by (rule stored [OF False ok d e(1) [unfolded same(1)] e(2) [unfolded same(2)] s(3) [unfolded same(3)]])
  qed
qed


lemma store_measurement_ok:
  assumes "store_measurement now domain st retry eps records db = Inr db'" and "db_ok db"
  shows "db_ok db'"
  using assms(1)
proof (cases rule: store_measurement_stages)
  case failed
  then show ?thesis using assms(2) by (simp add: put_domain_ok)
next
  case (stored d db3)
  let ?db1 = "put_domain now domain st retry db"
  have ok1: "db_ok ?db1" using assms(2) stored by (intro put_domain_ok)
  have same: "endpoints ?db1 = endpoints db" "region_known ?db1 = region_known db"
    using region_known_cong [of ?db1 db] by (simp_all add: put_domain_def)
  have "db_ok db3"
    unfolding stored(5) same(1) [symmetric]
    using stored(6) by (intro put_endpoints_ok [OF ok1]) (auto simp: same(2))
  then have ok4: "db_ok (delete_records (d_id d) db3)" by (rule delete_records_ok)
  have "d \<in> set (domains db3)" using find_row_SomeD [OF stored(4)] by (simp add: stored(5))
  then have "\<And>r. r_domain_id (record_row now (d_id d) (min_record_ttl (settings db)) r) \<in>
      d_id ` set (domains (delete_records (d_id d) db3))"
    by (simp add: delete_records_def record_row_def)
  moreover have "records_ok (delete_records (d_id d) db3)" using ok4 by (simp add: db_ok_def)
  moreover note p = put_records [OF stored(7)]
  ultimately have "unique_key rrset_key (rrset_records db')"
    and "\<forall>r \<in> set (rrset_records db'). rrset_ok r \<and>
      r_domain_id r \<in> d_id ` set (domains (delete_records (d_id d) db3)) \<and>
      r_address r \<in> e_address ` set (endpoints (delete_records (d_id d) db3))"
    by (auto simp: records_ok_def)
  from new_records_ok [OF ok4 this] p show ?thesis by simp
qed

section \<open>What a stored measurement changes\<close>

lemma about_put_domain:
  "about (put_domain now domain st retry db) n =
     (if n = domain
      then Some (case about db domain of
          None \<Rightarrow> measured_domain now domain st retry 0 | Some d \<Rightarrow> remeasured now st retry d)
      else about db n)"
  by (auto simp: about_def put_domain_def find_upsert_domain [where name = domain]
      measured_domain_def remeasured_def split: option.split)

text \<open>The records of a domain, without the surrogate key.\<close>

definition records_of :: "db \<Rightarrow> string \<Rightarrow> rrset_row list" where
  "records_of db name = (case find_row d_name name (domains db) of
      None \<Rightarrow> []
    | Some d \<Rightarrow> map (\<lambda>r. r\<lparr>r_domain_id := 0\<rparr>) (filter (\<lambda>r. r_domain_id r = d_id d) (rrset_records db)))"

lemma records_of_cong:
  "domains db' = domains db \<Longrightarrow> rrset_records db' = rrset_records db \<Longrightarrow> records_of db' n = records_of db n"
  by (simp add: records_of_def split: option.split)

lemma find_put_domain_other:
  "n \<noteq> domain \<Longrightarrow> find_row d_name n (domains (put_domain now domain st retry db)) =
   find_row d_name n (domains db)"
  by (simp add: put_domain_def find_upsert_domain [where name = domain] measured_domain_def remeasured_def)

lemma put_domain_id:
  assumes "find_row d_name domain (domains (put_domain now domain st retry db)) = Some d"
  shows "d_id d = (case find_row d_name domain (domains db) of None \<Rightarrow> next_domain_id db | Some d \<Rightarrow> d_id d)"
  using assms
  by (auto simp: put_domain_def find_upsert_domain [where name = domain] measured_domain_def
      remeasured_def split: option.split)

lemma records_of_put_domain:
  assumes "db_ok db"
  shows "records_of (put_domain now domain st retry db) n = records_of db n"
proof (cases "n = domain")
  case False
  then have "find_row d_name n (domains (put_domain now domain st retry db)) = find_row d_name n (domains db)"
    by (rule find_put_domain_other)
  moreover have "rrset_records (put_domain now domain st retry db) = rrset_records db"
    by (simp add: put_domain_def)
  ultimately show ?thesis unfolding records_of_def by (simp split: option.split)
next
  case True
  have rows: "rrset_records (put_domain now domain st retry db) = rrset_records db"
    by (simp add: put_domain_def)
  have fresh: "filter (\<lambda>r. r_domain_id r = next_domain_id db) (rrset_records db) = []"
    using assms by (fastforce simp: db_ok_def records_ok_def domains_ok_def filter_empty_conv)
  show ?thesis
    using True
    by (auto simp: records_of_def rows fresh put_domain_def find_upsert_domain [where name = domain]
        measured_domain_def remeasured_def split: option.splits)
qed


lemma stored_records:
  assumes "db_ok db" and "find_row d_name domain (domains db) = Some d"
    and "each (\<lambda>r. put_record (record_row now (d_id d) m r)) records (delete_records (d_id d) db) = Inr db'"
  shows "records_of db' n =
    (if n = domain then map (record_row now 0 m) records else records_of db n)"
proof -
  have p: "db' = (delete_records (d_id d) db)\<lparr>rrset_records :=
      rrset_records (delete_records (d_id d) db) @ map (record_row now (d_id d) m) records\<rparr>"
    using put_records [OF assms(3)] by blast
  then have doms: "domains db' = domains db"
    and rows: "rrset_records db' = delete_where (\<lambda>r. r_domain_id r = d_id d) (rrset_records db) @
      map (record_row now (d_id d) m) records"
    by (simp_all add: delete_records_def)
  have id: "r_domain_id (record_row now i m r) = i"
    "(record_row now i m r)\<lparr>r_domain_id := 0\<rparr> = record_row now 0 m r" for i r
    by (simp_all add: record_row_def)
  show ?thesis
  proof (cases "n = domain")
    case True
    then show ?thesis
      using assms(2) by (simp add: records_of_def doms rows delete_where_def id filter_map comp_def)
  next
    case False
    have "d_id e \<noteq> d_id d" if "find_row d_name n (domains db) = Some e" for e
    proof
      assume "d_id e = d_id d"
      then have "e = d"
        using find_row_SomeD [OF that] find_row_SomeD [OF assms(2)] assms(1)
        by (auto simp: db_ok_def domains_ok_def dest: unique_keyD)
      then show False using False find_row_SomeD [OF that] find_row_SomeD [OF assms(2)] by simp
    qed
    moreover have "filter (\<lambda>r. r_domain_id r = i) (rrset_records db') =
        filter (\<lambda>r. r_domain_id r = i) (rrset_records db)" if "i \<noteq> d_id d" for i
      using that unfolding rows
      by (simp add: delete_where_def filter_map comp_def id) (rule filter_cong, auto)
    ultimately show ?thesis
      using False by (auto simp: records_of_def doms split: option.split)
  qed
qed

lemma look_put_endpoints:
  assumes "unique_key e_address t" and "distinct (map e_address eps)"
  shows "find_row e_address a (fold put_endpoint
      (filter (\<lambda>e. e_geo_updated_at e \<noteq> None) eps @ filter (\<lambda>e. e_geo_updated_at e = None) eps) t) =
    (case find (\<lambda>e. e_address e = a) eps of
       None \<Rightarrow> find_row e_address a t
     | Some e \<Rightarrow> if e_geo_updated_at e \<noteq> None then Some e
         else Some (case find_row e_address a t of None \<Rightarrow> bare_endpoint a | Some old \<Rightarrow> old))"
    (is "_ = ?rhs")
proof -
  define es where
    "es = filter (\<lambda>e. e_geo_updated_at e \<noteq> None) eps @ filter (\<lambda>e. e_geo_updated_at e = None) eps"
  have set: "set es = set eps" by (auto simp: es_def)
  have "distinct eps" "inj_on e_address (set eps)" using assms(2) by (simp_all add: distinct_map)
  then have d: "distinct (map e_address es)" unfolding distinct_map set by (auto simp: es_def)
  have "find_row e_address a (fold put_endpoint es t) = ?rhs"
  proof (cases "find (\<lambda>e. e_address e = a) eps")
    case None
    then have "a \<notin> e_address ` set es" by (auto simp: set find_None_iff)
    then show ?thesis
      using None endpoint_rows.look_fold_put_other [OF assms(1), of a es] by (simp add: put_endpoint_eq)
  next
    case (Some e)
    then have e: "e \<in> set es" "e_address e = a" unfolding set by (auto simp: find_Some_iff)
    have same: "e\<lparr>e_address := e_address old\<rparr> = e" if "find_row e_address a t = Some old" for old
      using find_row_SomeD [OF that] e(2) by (cases e) simp
    show ?thesis
      using endpoint_rows.look_fold_put_mem [OF assms(1) d e(1)] e(2) Some same
      by (cases "find_row e_address a t") (simp_all add: put_endpoint_eq)
  qed
  then show ?thesis by (simp only: es_def)
qed

text \<open>The rows of domains and records after a measurement was stored.\<close>

lemma store_measurement_rows:
  assumes "db_ok db" and "store_measurement now domain st retry eps records db = Inr db'"
  shows "about db' n = (if n = domain then Some (case about db domain of
        None \<Rightarrow> measured_domain now domain st retry 0 | Some d \<Rightarrow> remeasured now st retry d) else about db n)"
    and "records_of db' n = (if n = domain \<and> st \<noteq> Failed
      then map (record_row now 0 (min_record_ttl (settings db))) records else records_of db n)"
proof -
  have "about db' n = about (put_domain now domain st retry db) n \<and>
    records_of db' n = (if n = domain \<and> st \<noteq> Failed
      then map (record_row now 0 (min_record_ttl (settings db))) records else records_of db n)"
    using assms(2)
  proof (cases rule: store_measurement_stages)
    case failed
    then show ?thesis using records_of_put_domain [OF assms(1)] by simp
  next
    case (stored d db3)
    let ?db1 = "put_domain now domain st retry db"
    have ok1: "db_ok ?db1" using assms(1) stored by (intro put_domain_ok)
    have same: "endpoints ?db1 = endpoints db" "region_known ?db1 = region_known db"
      using region_known_cong [of ?db1 db] by (simp_all add: put_domain_def)
    have ok3: "db_ok db3"
      unfolding stored(5) same(1) [symmetric]
      using stored(6) by (intro put_endpoints_ok [OF ok1]) (auto simp: same(2))
    have d3: "find_row d_name domain (domains db3) = Some d" using stored(4,5) by simp
    have r3: "records_of db3 n = records_of db n" for n
      using records_of_put_domain [OF assms(1), of now domain st retry n] records_of_cong [of db3 ?db1 n]
      by (simp add: stored(5))
    have "domains db' = domains ?db1"
      using put_records [OF stored(7)] by (auto simp: delete_records_def stored(5))
    then show ?thesis
      using stored_records [OF ok3 d3 stored(7), of n] r3 stored(1) by (simp add: about_def)
  qed
  then show "about db' n = (if n = domain then Some (case about db domain of
        None \<Rightarrow> measured_domain now domain st retry 0 | Some d \<Rightarrow> remeasured now st retry d) else about db n)"
    and "records_of db' n = (if n = domain \<and> st \<noteq> Failed
      then map (record_row now 0 (min_record_ttl (settings db))) records else records_of db n)"
    by (simp_all add: about_put_domain)
qed

lemma store_measurement_endpoints:
  assumes "db_ok db" and "store_measurement now domain st retry eps records db = Inr db'"
  shows "endpoints db' = (if st = Failed then endpoints db else fold put_endpoint
        (filter (\<lambda>e. e_geo_updated_at e \<noteq> None) eps @ filter (\<lambda>e. e_geo_updated_at e = None) eps) (endpoints db))"
    and "settings db' = settings db" and "carbon_signals db' = carbon_signals db"
    and "measurement_queue db' = measurement_queue db" and "grid_regions db' = grid_regions db"
proof -
  have "endpoints db' = (if st = Failed then endpoints db else fold put_endpoint
        (filter (\<lambda>e. e_geo_updated_at e \<noteq> None) eps @ filter (\<lambda>e. e_geo_updated_at e = None) eps) (endpoints db)) \<and>
      settings db' = settings db \<and> carbon_signals db' = carbon_signals db \<and>
      measurement_queue db' = measurement_queue db \<and> grid_regions db' = grid_regions db"
    using assms(2)
  proof (cases rule: store_measurement_stages)
    case failed
    then show ?thesis by (simp add: put_domain_def)
  next
    case (stored d db3)
    then show ?thesis using put_records [OF stored(7)] by (auto simp: delete_records_def put_domain_def)
  qed
  then show "endpoints db' = (if st = Failed then endpoints db else fold put_endpoint
        (filter (\<lambda>e. e_geo_updated_at e \<noteq> None) eps @ filter (\<lambda>e. e_geo_updated_at e = None) eps) (endpoints db))"
    and "settings db' = settings db" and "carbon_signals db' = carbon_signals db"
    and "measurement_queue db' = measurement_queue db" and "grid_regions db' = grid_regions db" by simp_all
qed



subsection \<open>When storing succeeds\<close>

lemma put_records_iff:
  "(\<exists>db'. each (\<lambda>r. put_record (row r)) rs db = Inr db') \<longleftrightarrow>
   (\<forall>r \<in> set rs. rrset_ok (row r) \<and> r_address (row r) \<in> e_address ` set (endpoints db)) \<and>
   distinct (map (\<lambda>r. rrset_key (row r)) rs) \<and>
   (\<forall>r \<in> set rs. rrset_key (row r) \<notin> rrset_key ` set (rrset_records db))"
proof (induction rs arbitrary: db)
  case (Cons r rs)
  show ?case
  proof (cases "put_record (row r) db")
    case (Inl e)
    then have "\<not> (rrset_ok (row r) \<and> rrset_key (row r) \<notin> rrset_key ` set (rrset_records db) \<and>
        r_address (row r) \<in> e_address ` set (endpoints db))"
      by (auto simp: put_record_def)
    with Inl show ?thesis by auto
  next
    case (Inr t)
    then have t: "rrset_ok (row r)" "rrset_key (row r) \<notin> rrset_key ` set (rrset_records db)"
      "r_address (row r) \<in> e_address ` set (endpoints db)"
      "t = db\<lparr>rrset_records := rrset_records db @ [row r]\<rparr>" by (auto simp: put_record_Inr)
    with Inr show ?thesis by (auto simp: Cons.IH image_iff)
  qed
qed simp

lemma put_endpoints_total:
  assumes "\<forall>e \<in> set eps. e_geo_updated_at e \<noteq> None \<longrightarrow> endpoint_ok e \<and> region_known db (e_region_code e)"
  obtains db2 db3 where "each put_located (filter (\<lambda>e. e_geo_updated_at e \<noteq> None) eps) db = Inr db2"
    "each put_unlocated (filter (\<lambda>e. e_geo_updated_at e = None) eps) db2 = Inr db3"
proof -
  have "\<exists>db2. each put_located (filter (\<lambda>e. e_geo_updated_at e \<noteq> None) eps) db = Inr db2 \<and>
      region_known db2 = region_known db"
  proof (rule each_total)
    fix e t
    assume e: "e \<in> set (filter (\<lambda>e. e_geo_updated_at e \<noteq> None) eps)" "region_known t = region_known db"
    let ?t = "t\<lparr>endpoints := upsert e_address e (\<lambda>old. e\<lparr>e_address := e_address old\<rparr>) (endpoints t)\<rparr>"
    have "put_located e t = Inr ?t" using e assms by (auto simp: put_located_Inr)
    moreover have "region_known ?t = region_known t" by (rule region_known_cong) simp
    ultimately show "\<exists>t'. put_located e t = Inr t' \<and> region_known t' = region_known db" using e(2) by auto
  qed simp
  moreover have "\<exists>db3. each put_unlocated es db2 = Inr db3 \<and> True" for es db2
    by (rule each_total) (simp_all add: put_unlocated_def)
  ultimately show ?thesis using that by blast
qed


text \<open>A stored measurement for the examples.\<close>

definition sample_record :: Record where
  "sample_record = \<lparr>rc_rtype = RT_A, rc_address = ''192.0.2.1'', rc_resolver = ''9.9.9.9'', rc_ttl = 60\<rparr>"




section \<open>Writing the caches\<close>

definition signal_row_of :: "timestamp \<Rightarrow> Signal \<Rightarrow> signal_row" where
  "signal_row_of now signal = \<lparr>s_region_code = sg_region signal, s_point_time = sg_point_time signal,
     s_moer = sg_moer signal, s_fetched_at = now\<rparr>"

lemma save_signal_Inr:
  "save_signal now signal db = Inr db' \<longleftrightarrow>
   0 \<le> sg_moer signal \<and> sg_region signal \<in> g_code ` set (grid_regions db) \<and>
   db' = db\<lparr>carbon_signals := upsert signal_key (signal_row_of now signal)
     (\<lambda>s. s\<lparr>s_moer := sg_moer signal, s_fetched_at := now\<rparr>) (carbon_signals db)\<rparr>"
  by (auto simp: save_signal_def signal_row_of_def not_less)

lemma save_signal_ok:
  assumes "save_signal now signal db = Inr db'" and "db_ok db"
  shows "db_ok db'"
proof -
  note s = assms(1) [unfolded save_signal_Inr]
  have known: "region_known db' = region_known db" using s by (intro region_known_cong) simp
  let ?f = "\<lambda>x. x\<lparr>s_moer := sg_moer signal, s_fetched_at := now\<rparr>"
  have u: "unique_key signal_key (carbon_signals db)" using assms(2) by (simp add: db_ok_def signals_ok_def)
  have ok: "0 \<le> s_moer x \<and> s_region_code x \<in> g_code ` set (grid_regions db)"
    if "x \<in> set (carbon_signals db')" for x
  proof -
    have "x \<in> insert (signal_row_of now signal) (set (carbon_signals db) \<union> ?f ` set (carbon_signals db))"
      using that s set_upsert_subset [of signal_key "signal_row_of now signal" ?f "carbon_signals db"] by auto
    then show ?thesis using assms(2) s by (auto simp: db_ok_def signals_ok_def signal_row_of_def)
  qed
  have "signals_ok db'"
    unfolding signals_ok_def using s u ok by (auto intro!: unique_key_upsert)
  then show ?thesis
    using assms(2) s known
    by (simp add: db_ok_def settings_ok_def domains_ok_def endpoints_ok_def records_ok_def queue_ok_def locations_ok_def)
qed

lemma save_signal_look:
  assumes "save_signal now signal db = Inr db'" and "db_ok db"
  shows "find_row signal_key k (carbon_signals db') =
    (if k = (sg_region signal, sg_point_time signal) then Some (signal_row_of now signal)
     else find_row signal_key k (carbon_signals db))"
proof -
  have "r\<lparr>s_moer := sg_moer signal, s_fetched_at := now\<rparr> = signal_row_of now signal"
    if "signal_key r = (sg_region signal, sg_point_time signal)" for r
    using that by (cases r) (simp add: signal_row_of_def)
  then show ?thesis
    using assms(1) by (auto simp: save_signal_Inr find_row_upsert signal_row_of_def
        split: option.splits dest: find_row_SomeD)
qed

lemma save_signal_set:
  assumes "save_signal now signal db = Inr db'" and "db_ok db"
  shows "set (carbon_signals db') = insert (signal_row_of now signal)
    {s \<in> set (carbon_signals db). signal_key s \<noteq> (sg_region signal, sg_point_time signal)}"
proof -
  have u: "unique_key signal_key (carbon_signals db)" "unique_key signal_key (carbon_signals db')"
    using assms save_signal_ok [OF assms] by (simp_all add: db_ok_def signals_ok_def)
  have "x \<in> set (carbon_signals db') \<longleftrightarrow> find_row signal_key (signal_key x) (carbon_signals db') = Some x" for x
    by (simp add: find_row_unique [OF u(2)])
  also have "\<dots> x \<longleftrightarrow> x \<in> insert (signal_row_of now signal)
    {s \<in> set (carbon_signals db). signal_key s \<noteq> (sg_region signal, sg_point_time signal)}" for x
    unfolding save_signal_look [OF assms] by (auto simp: find_row_unique [OF u(1)] signal_row_of_def)
  finally show ?thesis by blast
qed

lemma unique_regions_put: "unique_key g_code (grid_regions db) \<Longrightarrow> unique_key g_code (grid_regions (put_region r db))"
  unfolding put_region_def by (simp add: unique_key_upsert)

lemma regions_put: "g_code ` set (grid_regions (put_region r db)) = insert (rg_code r) (g_code ` set (grid_regions db))"
  by (auto simp: put_region_def upsert_def keys_update_where)

lemma put_region_ok:
  assumes "db_ok db"
  shows "db_ok (put_region r db)"
proof -
  have "region_known (put_region r db) c" if "region_known db c" for c
    using that by (auto simp: region_known_def regions_put split: option.splits)
  then show ?thesis
    using assms unique_regions_put [of db r] regions_put [of r db]
    by (auto simp: integrity_defs put_region_def)
qed

lemma save_region_ok:
  assumes "save_region now key region db = Inr db'" and "db_ok db"
  shows "db_ok db'"
proof -
  define db1 where "db1 = (case region of None \<Rightarrow> db | Some r \<Rightarrow> put_region r db)"
  define row where "row = \<lparr>l_provider = PROVIDER, l_lat_e2 = fst key, l_lon_e2 = snd key,
                 l_region_code = map_option rg_code region, l_looked_up_at = now\<rparr>"
  let ?f = "\<lambda>l. l\<lparr>l_region_code := l_region_code row, l_looked_up_at := now\<rparr>"
  have ok1: "db_ok db1" using assms(2) put_region_ok by (simp add: db1_def split: option.split)
  have known: "region_known db1 (l_region_code row)"
    by (auto simp: region_known_def row_def db1_def regions_put split: option.splits)
  have s: "location_ok row" "db' = db1\<lparr>location_regions := upsert location_key_of row ?f (location_regions db1)\<rparr>"
    using assms(1) by (auto simp: save_region_def Let_def db1_def row_def split: if_splits)
  have same: "region_known db' = region_known db1" using s(2) by (intro region_known_cong) simp
  have "location_ok l \<and> region_known db1 (l_region_code l)" if "l \<in> set (location_regions db')" for l
  proof -
    have "l \<in> insert row (set (location_regions db1) \<union> ?f ` set (location_regions db1))"
      using that s(2) set_upsert_subset [of location_key_of row ?f "location_regions db1"] by auto
    then show ?thesis using ok1 s(1) known by (auto simp: db_ok_def locations_ok_def location_ok_def)
  qed
  moreover have "unique_key location_key_of (location_regions db')"
    using ok1 s(2) by (simp add: db_ok_def locations_ok_def unique_key_upsert location_key_of_def)
  ultimately have "locations_ok db'" by (auto simp: locations_ok_def location_ok_def same)
  then show ?thesis
    using ok1 s(2) same
    by (simp add: db_ok_def settings_ok_def domains_ok_def signals_ok_def endpoints_ok_def records_ok_def queue_ok_def)
qed

end
