(* ===== verification/Answer_Policy.thy ===== *)
theory Answer_Policy
  imports Store "HOL-Library.Product_Lexorder"
begin

text \<open>
  The answer policy (\<open>db/migrations/0002_dlz_functions.sql\<close>): whether a name is served and
  what is answered for it, greenest addresses first; and the report of the command line on
  the same data. The random numbers that break ties are an argument \<open>rnd\<close>, a number per
  address; the order of PostgreSQL on \<open>inet\<close> is an argument \<open>inet_key\<close>.
\<close>

section \<open>Stored records of a name\<close>

text \<open>The records joined with the domain of that name.\<close>

definition rows_of :: "db \<Rightarrow> string \<Rightarrow> rrset_row list" where
  "rows_of db name = (case find_row d_name name (domains db) of
      None \<Rightarrow> [] | Some d \<Rightarrow> filter (\<lambda>r. r_domain_id r = d_id d) (rrset_records db))"

lemma rows_of_subset: "set (rows_of db name) \<subseteq> set (rrset_records db)"
  by (auto simp: rows_of_def split: option.splits)

definition of_type :: "rtype \<Rightarrow> rrset_row list \<Rightarrow> rrset_row list" where
  "of_type t rows = filter (\<lambda>r. r_rtype r = t) rows"

text \<open>\<open>max(expires_at) GROUP BY rtype\<close>.\<close>

definition per_type :: "rrset_row list \<Rightarrow> timestamp list" where
  "per_type rows = map (\<lambda>t. Max (r_expires_at ` set (of_type t rows))) (remdups (map r_rtype rows))"

definition dlz_findzone :: "timestamp \<Rightarrow> db \<Rightarrow> string \<Rightarrow> bool" where
  "dlz_findzone now db zone_name =
     (let expiries = per_type (rows_of db (normalize_name zone_name))
      in expiries \<noteq> [] \<and> (\<forall>t \<in> set expiries. t > now))"

section \<open>Ranking\<close>

definition latest_signal :: "db \<Rightarrow> string \<Rightarrow> signal_row option" where
  "latest_signal db code =
     (case sort_key (\<lambda>s. - s_point_time s) (filter (\<lambda>s. s_region_code s = code) (carbon_signals db)) of
        [] \<Rightarrow> None | s # _ \<Rightarrow> Some s)"

definition latest_moer :: "db \<Rightarrow> string option \<Rightarrow> rat option" where
  "latest_moer db code = (case code of
      None \<Rightarrow> None | Some c \<Rightarrow> map_option s_moer (latest_signal db c))"

text \<open>The MOER of an address: unknown without an endpoint, for anycast, region or signal.\<close>

definition moer_of :: "db \<Rightarrow> string \<Rightarrow> rat option" where
  "moer_of db address = (case find_row e_address address (endpoints db) of
      None \<Rightarrow> None
    | Some e \<Rightarrow> if e_is_anycast e then None else latest_moer db (e_region_code e))"

text \<open>\<open>ASC NULLS LAST\<close>.\<close>

definition nulls_last :: "rat option \<Rightarrow> nat \<times> rat" where
  "nulls_last m = (case m of None \<Rightarrow> (1, 0) | Some v \<Rightarrow> (0, v))"

record candidate =
  c_address :: string
  c_expires_at :: timestamp
  c_resolved_at :: timestamp

definition candidates :: "timestamp \<Rightarrow> rtype \<Rightarrow> rrset_row list \<Rightarrow> candidate list" where
  "candidates now t rows =
     (let fresh = filter (\<lambda>r. r_expires_at r > now) (of_type t rows)
      in map (\<lambda>a. let rs = filter (\<lambda>r. r_address r = a) fresh
                  in \<lparr>c_address = a, c_expires_at = Max (r_expires_at ` set rs),
                      c_resolved_at = Max (r_resolved_at ` set rs)\<rparr>)
           (remdups (map r_address fresh)))"

definition ranked :: "(string \<Rightarrow> rat) \<Rightarrow> db \<Rightarrow> candidate list \<Rightarrow> candidate list" where
  "ranked rnd db cs =
     sort_key (\<lambda>c. (nulls_last (moer_of db (c_address c)), rnd (c_address c))) cs"

definition chosen :: "timestamp \<Rightarrow> (string \<Rightarrow> rat) \<Rightarrow> db \<Rightarrow> rtype \<Rightarrow> rrset_row list \<Rightarrow> candidate list" where
  "chosen now rnd db t rows = take (answer_k (settings db)) (ranked rnd db (candidates now t rows))"

definition answer_ttl :: "timestamp \<Rightarrow> db \<Rightarrow> candidate list \<Rightarrow> int" where
  "answer_ttl now db cs =
     max 1 (min (max_answer_ttl (settings db)) ((Min (c_expires_at ` set cs) - now) div 1000000))"

section \<open>Answers\<close>

text \<open>The data column: SOA with names, serial and minimum, NS, or an address.\<close>

datatype rdata =
    D_SOA string string int int
  | D_NS string
  | D_Address rtype string

definition rrsets :: "timestamp \<Rightarrow> (string \<Rightarrow> rat) \<Rightarrow> db \<Rightarrow> rrset_row list \<Rightarrow> (int \<times> rdata) list" where
  "rrsets now rnd db rows =
     concat (map (\<lambda>t. let cs = chosen now rnd db t rows
                      in map (\<lambda>c. (answer_ttl now db cs, D_Address t (c_address c))) cs)
       [RT_A, RT_AAAA])"

definition apex_serial :: "timestamp \<Rightarrow> (string \<Rightarrow> rat) \<Rightarrow> db \<Rightarrow> rrset_row list \<Rightarrow> int" where
  "apex_serial now rnd db rows =
     (Max (c_resolved_at ` set (concat (map (\<lambda>t. chosen now rnd db t rows) [RT_A, RT_AAAA]))) div 1000000)
       mod 4294967296"

definition dlz_lookup ::
  "timestamp \<Rightarrow> (string \<Rightarrow> rat) \<Rightarrow> db \<Rightarrow> string \<Rightarrow> string \<Rightarrow> (int \<times> rdata) list" where
  "dlz_lookup now rnd db zone_name record_name =
     (let name = normalize_name zone_name; rows = rows_of db name; answers = rrsets now rnd db rows in
      if (record_name = ''@'' \<or> record_name = [] \<or> normalize_name record_name = name)
         \<and> dlz_findzone now db zone_name \<and> answers \<noteq> []
      then
        let ttl = Min (fst ` set answers); cfg = settings db
        in (ttl, D_SOA (ns_name cfg) (hostmaster cfg) (apex_serial now rnd db rows) ttl)
           # (ttl, D_NS (ns_name cfg)) # answers
      else [])"

text \<open>The rows of the command line's report: endpoint, its latest MOER and the time of that.\<close>

definition endpoint_report ::
  "(string \<Rightarrow> nat) \<Rightarrow> string set \<Rightarrow> db \<Rightarrow> (endpoint \<times> (rat \<times> timestamp) option) list" where
  "endpoint_report inet_key addresses db =
     sort_key (\<lambda>(e, s). (family (e_address e), nulls_last (map_option fst s), inet_key (e_address e)))
       (map (\<lambda>e. (e, case e_region_code e of
                       None \<Rightarrow> None
                     | Some c \<Rightarrow> map_option (\<lambda>s. (s_moer s, s_point_time s)) (latest_signal db c)))
         (filter (\<lambda>e. e_address e \<in> addresses) (endpoints db)))"

definition dlz_answer :: "timestamp \<Rightarrow> (string \<Rightarrow> rat) \<Rightarrow> db \<Rightarrow> string \<Rightarrow> (int \<times> rdata) list" where
  "dlz_answer now rnd db domain = dlz_lookup now rnd db domain ''@''"

section \<open>Freshness\<close>

lemma of_type_nonempty: "t \<in> set (map r_rtype rows) \<longleftrightarrow> of_type t rows \<noteq> []"
  by (auto simp: of_type_def filter_empty_conv)

lemma set_per_type:
  "set (per_type rows) = {Max (r_expires_at ` set (of_type t rows)) | t. of_type t rows \<noteq> []}"
  unfolding per_type_def using of_type_nonempty [of _ rows] by (auto simp: image_iff)

lemma per_type_Nil [simp]: "per_type rows = [] \<longleftrightarrow> rows = []"
  by (simp add: per_type_def)

lemma per_type_of_Nil [simp]: "per_type [] = []"
  by simp

lemma Max_gt_iff':
  "of_type t rows \<noteq> [] \<Longrightarrow>
   now < Max (r_expires_at ` set (of_type t rows)) \<longleftrightarrow> (\<exists>r \<in> set (of_type t rows). now < r_expires_at r)"
  by (simp add: Max_gr_iff)

lemma dlz_findzone_iff:
  "dlz_findzone now db zone \<longleftrightarrow>
   (let rows = rows_of db (normalize_name zone) in rows \<noteq> [] \<and>
    (\<forall>t. of_type t rows \<noteq> [] \<longrightarrow> (\<exists>r \<in> set (of_type t rows). now < r_expires_at r)))"
  by (auto simp: dlz_findzone_def Let_def set_per_type Max_gt_iff')


section \<open>What is answered\<close>

abbreviation fresh_rows :: "timestamp \<Rightarrow> rtype \<Rightarrow> rrset_row list \<Rightarrow> rrset_row list" where
  "fresh_rows now t rows \<equiv> filter (\<lambda>r. r_expires_at r > now) (of_type t rows)"

lemma candidate_addresses:
  "map c_address (candidates now t rows) = remdups (map r_address (fresh_rows now t rows))"
  by (simp add: candidates_def Let_def comp_def)

lemma candidate_expiry:
  assumes "c \<in> set (candidates now t rows)"
  shows "\<exists>r \<in> set (fresh_rows now t rows). r_address r = c_address c \<and> r_expires_at r = c_expires_at c"
proof -
  let ?rs = "filter (\<lambda>r. r_address r = c_address c) (fresh_rows now t rows)"
  have c: "c_expires_at c = Max (r_expires_at ` set ?rs)" "c_address c \<in> r_address ` set (fresh_rows now t rows)"
    using assms by (auto simp: candidates_def Let_def)
  have "?rs \<noteq> []" using c(2) by (auto simp: filter_empty_conv)
  then have "c_expires_at c \<in> r_expires_at ` set ?rs"
    unfolding c(1) by (intro Max_in) (auto simp: filter_empty_conv)
  then show ?thesis by auto
qed

lemma set_chosen: "set (chosen now rnd db t rows) \<subseteq> set (candidates now t rows)"
  by (auto simp: chosen_def ranked_def dest: in_set_takeD)

lemma chosen_nonempty:
  assumes "1 \<le> answer_k (settings db)" and "fresh_rows now t rows \<noteq> []"
  shows "chosen now rnd db t rows \<noteq> []"
proof -
  have "candidates now t rows \<noteq> []"
    using assms(2) candidate_addresses [of now t rows] by (metis list.map_disc_iff remdups_eq_nil_iff)
  then have "ranked rnd db (candidates now t rows) \<noteq> []"
    by (metis ranked_def set_empty set_sort)
  then show ?thesis using assms(1) by (simp add: chosen_def)
qed

lemma card_chosen:
  "card (c_address ` set (chosen now rnd db t rows)) =
     min (answer_k (settings db)) (card (r_address ` set (fresh_rows now t rows)))"
proof -
  let ?c = "candidates now t rows" and ?s = "ranked rnd db (candidates now t rows)"
  have "distinct (map c_address ?c)" by (simp add: candidate_addresses)
  then have "distinct (map c_address ?s)" by (simp add: ranked_def distinct_map)
  then have "distinct (map c_address (take k ?s))" for k by (simp add: take_map [symmetric])
  then have "card (c_address ` set (take k ?s)) = min k (length ?s)" for k
    using distinct_card [of "map c_address (take k ?s)"] by (simp add: min.commute)
  moreover have "length ?s = card (r_address ` set (fresh_rows now t rows))"
    using arg_cong [OF candidate_addresses [of now t rows], of length]
    by (simp add: ranked_def length_remdups_card_conv)
  ultimately show ?thesis by (simp add: chosen_def)
qed

lemma chosen_greenest:
  assumes "c \<in> set (chosen now rnd db t rows)" and "b \<in> r_address ` set (fresh_rows now t rows)"
    and "b \<notin> c_address ` set (chosen now rnd db t rows)"
  shows "nulls_last (moer_of db (c_address c)) \<le> nulls_last (moer_of db b)"
proof -
  let ?key = "\<lambda>c. (nulls_last (moer_of db (c_address c)), rnd (c_address c))"
  have "b \<in> set (map c_address (candidates now t rows))" using assms(2) by (simp add: candidate_addresses)
  then obtain d where d: "d \<in> set (candidates now t rows)" "c_address d = b" by auto
  then have "d \<notin> set (chosen now rnd db t rows)" using assms(3) by auto
  then have "?key c \<le> ?key d"
    using assms(1) d(1) unfolding chosen_def ranked_def by (intro take_sort_key_le) auto
  then show ?thesis using d(2) by auto
qed

lemma set_rrsets:
  "(ttl, d) \<in> set (rrsets now rnd db rows) \<longleftrightarrow>
   (\<exists>t a. d = D_Address t a \<and> ttl = answer_ttl now db (chosen now rnd db t rows) \<and>
     a \<in> c_address ` set (chosen now rnd db t rows))"
proof -
  have all: "(\<exists>t. P t) \<longleftrightarrow> P RT_A \<or> P RT_AAAA" for P by (metis rtype.exhaust)
  show ?thesis unfolding all by (auto simp: rrsets_def Let_def)
qed

lemma lookup_apex:
  "dlz_lookup now rnd db zone ''@'' =
   (let rows = rows_of db (normalize_name zone); answers = rrsets now rnd db rows in
    if dlz_findzone now db zone \<and> answers \<noteq> []
    then let ttl = Min (fst ` set answers)
      in (ttl, D_SOA (ns_name (settings db)) (hostmaster (settings db)) (apex_serial now rnd db rows) ttl)
         # (ttl, D_NS (ns_name (settings db))) # answers
    else [])"
  by (simp add: dlz_lookup_def Let_def)

lemma lookup_address_iff:
  "(ttl, D_Address t a) \<in> set (dlz_lookup now rnd db zone ''@'') \<longleftrightarrow>
   dlz_findzone now db zone \<and>
   (let cs = chosen now rnd db t (rows_of db (normalize_name zone))
    in ttl = answer_ttl now db cs \<and> a \<in> c_address ` set cs)"
proof -
  have "(ttl, D_Address t a) \<in> set (dlz_lookup now rnd db zone ''@'') \<longleftrightarrow>
      dlz_findzone now db zone \<and>
      (ttl, D_Address t a) \<in> set (rrsets now rnd db (rows_of db (normalize_name zone)))"
    by (auto simp: lookup_apex Let_def)
  then show ?thesis by (simp add: set_rrsets Let_def)
qed

text \<open>An answer depends on the records of the name, what is known of their addresses, and the settings.\<close>

lemma chosen_cong:
  assumes "settings db' = settings db" and "\<And>r. r \<in> set rows \<Longrightarrow> moer_of db' (r_address r) = moer_of db (r_address r)"
  shows "chosen now rnd db' t rows = chosen now rnd db t rows"
proof -
  have "moer_of db' (c_address c) = moer_of db (c_address c)" if c: "c \<in> set (candidates now t rows)" for c
  proof -
    obtain r where "r \<in> set rows" "r_address r = c_address c"
      using candidate_expiry [OF c] by (auto simp: of_type_def)
    then show ?thesis using assms(2) [of r] by simp
  qed
  then have "ranked rnd db' (candidates now t rows) = ranked rnd db (candidates now t rows)"
    unfolding ranked_def by (intro sort_key_cong) auto
  then show ?thesis using assms(1) by (simp add: chosen_def)
qed

lemma dlz_lookup_cong:
  assumes "settings db' = settings db"
    and "rows_of db' (normalize_name zone) = rows_of db (normalize_name zone)"
    and "\<And>r. r \<in> set (rows_of db (normalize_name zone)) \<Longrightarrow> moer_of db' (r_address r) = moer_of db (r_address r)"
  shows "dlz_lookup now rnd db' zone rec = dlz_lookup now rnd db zone rec"
proof -
  let ?rows = "rows_of db (normalize_name zone)"
  have c: "chosen now rnd db' t ?rows = chosen now rnd db t ?rows" for t
    using assms(1,3) by (rule chosen_cong)
  have "dlz_findzone now db' zone = dlz_findzone now db zone"
    using assms(2) by (simp add: dlz_findzone_def)
  moreover have "rrsets now rnd db' ?rows = rrsets now rnd db ?rows"
    using assms(1) by (simp add: rrsets_def c answer_ttl_def)
  moreover have "apex_serial now rnd db' ?rows = apex_serial now rnd db ?rows"
    by (simp add: apex_serial_def c)
  ultimately show ?thesis using assms(1,2) by (simp add: dlz_lookup_def Let_def)
qed

text \<open>The latest signal of a region, as a maximum.\<close>

lemma latest_signal_None: "latest_signal db c = None \<longleftrightarrow> (\<forall>s \<in> set (carbon_signals db). s_region_code s \<noteq> c)"
proof -
  let ?f = "filter (\<lambda>s. s_region_code s = c) (carbon_signals db)"
  have "latest_signal db c = None \<longleftrightarrow> sort_key (\<lambda>s. - s_point_time s) ?f = []"
    by (auto simp: latest_signal_def split: list.splits)
  also have "\<dots> \<longleftrightarrow> ?f = []" by (metis set_empty set_sort)
  finally show ?thesis by (auto simp: filter_empty_conv)
qed

lemma latest_signal_Some:
  assumes "unique_key signal_key (carbon_signals db)"
  shows "latest_signal db c = Some s \<longleftrightarrow> s \<in> set (carbon_signals db) \<and> s_region_code s = c \<and>
    (\<forall>s' \<in> set (carbon_signals db). s_region_code s' = c \<longrightarrow> s_point_time s' \<le> s_point_time s)"
    (is "?l = Some s \<longleftrightarrow> ?max s")
proof -
  let ?sorted = "sort_key (\<lambda>s. - s_point_time s) (filter (\<lambda>s. s_region_code s = c) (carbon_signals db))"
  have sound: "?max x" if "?l = Some x" for x
  proof -
    from that obtain xs where x: "?sorted = x # xs" by (auto simp: latest_signal_def split: list.splits)
    have "sorted (map (\<lambda>s. - s_point_time s) (x # xs))" unfolding x [symmetric] by (rule sorted_sort_key)
    moreover have "set (x # xs) = {s \<in> set (carbon_signals db). s_region_code s = c}"
      unfolding x [symmetric] by auto
    ultimately show ?thesis by (auto simp: set_eq_iff)
  qed
  show ?thesis
  proof
    assume m: "?max s"
    then have "?l \<noteq> None" by (auto simp: latest_signal_None)
    then obtain x where x: "?l = Some x" by auto
    then have "s_point_time x = s_point_time s" "s_region_code x = s_region_code s"
      using sound [OF x] m by (auto intro: antisym)
    then have "x = s" using sound [OF x] m by (intro unique_keyD [OF assms]) auto
    with x show "?l = Some s" by simp
  qed (rule sound)
qed

lemma answer_ttl_bounds:
  assumes "settings_ok db" and "c \<in> set cs"
  shows "1 \<le> answer_ttl now db cs \<and> answer_ttl now db cs \<le> max_answer_ttl (settings db) \<and>
    (answer_ttl now db cs = 1 \<or> now + secs (answer_ttl now db cs) \<le> c_expires_at c)"
proof -
  let ?m = "Min (c_expires_at ` set cs)"
  have "?m \<le> c_expires_at c" using assms(2) by simp
  moreover have "answer_ttl now db cs = 1 \<or> answer_ttl now db cs \<le> (?m - now) div 1000000"
    by (auto simp: answer_ttl_def)
  ultimately show ?thesis
    using assms(1) by (auto simp: answer_ttl_def settings_ok_def secs_def)
qed

text \<open>
  C4: The answer is the greenest one. The addresses answered for a type are fresh records of
  the name, as many as the policy asks for or all there are, and no fresh address that was
  left out has a lower carbon intensity than one that is answered, where an unknown intensity
  counts as the highest; and a served name has an address for every type it has records of,
  so that a type never turns into an authoritative NODATA by accident.
\<close>

theorem answers_are_greenest:
  assumes "settings_ok db" and "dlz_findzone now db zone"
  shows "\<forall>t. let rows = rows_of db (normalize_name zone);
          fresh = r_address ` set (fresh_rows now t rows);
          answered = {a. \<exists>ttl. (ttl, D_Address t a) \<in> set (dlz_lookup now rnd db zone ''@'')}
      in answered \<subseteq> fresh \<and> card answered = min (answer_k (settings db)) (card fresh) \<and>
         (of_type t rows \<noteq> [] \<longrightarrow> answered \<noteq> {}) \<and>
         (\<forall>a \<in> answered. \<forall>b \<in> fresh - answered. nulls_last (moer_of db a) \<le> nulls_last (moer_of db b))"
proof
  fix t
  let ?rows = "rows_of db (normalize_name zone)"
  let ?fresh = "r_address ` set (fresh_rows now t ?rows)" and ?cs = "chosen now rnd db t ?rows"
  have a: "{a. \<exists>ttl. (ttl, D_Address t a) \<in> set (dlz_lookup now rnd db zone ''@'')} = c_address ` set ?cs"
    using assms(2) by (auto simp: lookup_address_iff Let_def)
  have "c_address ` set ?cs \<subseteq> ?fresh"
    using set_chosen [of now rnd db t ?rows] candidate_expiry [of _ now t ?rows] by force
  moreover have "?cs \<noteq> []" if "of_type t ?rows \<noteq> []"
  proof (rule chosen_nonempty)
    show "1 \<le> answer_k (settings db)" using assms(1) by (simp add: settings_ok_def)
    show "fresh_rows now t ?rows \<noteq> []"
      using assms(2) that by (auto simp: dlz_findzone_iff Let_def filter_empty_conv)
  qed
  ultimately show "let rows = ?rows; fresh = r_address ` set (fresh_rows now t rows);
          answered = {a. \<exists>ttl. (ttl, D_Address t a) \<in> set (dlz_lookup now rnd db zone ''@'')}
      in answered \<subseteq> fresh \<and> card answered = min (answer_k (settings db)) (card fresh) \<and>
         (of_type t rows \<noteq> [] \<longrightarrow> answered \<noteq> {}) \<and>
         (\<forall>a \<in> answered. \<forall>b \<in> fresh - answered. nulls_last (moer_of db a) \<le> nulls_last (moer_of db b))"
    unfolding Let_def a using card_chosen chosen_greenest by (auto simp: image_iff)
qed

text \<open>
  C36: Answers never outlive their data. Every answered TTL is at least one second and at most
  the configured maximum, and an answered address has a stored record that is valid for the
  whole TTL, unless less than a second was left and the TTL is the minimum of one; the SOA and
  NS records come first, with the smallest of the TTLs, which is also the negative-caching
  minimum of the SOA, and a serial number of 32 bits.
\<close>

theorem answer_ttls_bounded:
  assumes "settings_ok db"
  shows "(\<forall>ttl t a. (ttl, D_Address t a) \<in> set (dlz_lookup now rnd db zone ''@'') \<longrightarrow>
      1 \<le> ttl \<and> ttl \<le> max_answer_ttl (settings db) \<and>
      (\<exists>r \<in> set (of_type t (rows_of db (normalize_name zone))).
        r_address r = a \<and> (ttl = 1 \<or> now + secs ttl \<le> r_expires_at r))) \<and>
    (dlz_lookup now rnd db zone ''@'' = [] \<or>
      (\<exists>serial ttl rest. dlz_lookup now rnd db zone ''@'' =
          (ttl, D_SOA (ns_name (settings db)) (hostmaster (settings db)) serial ttl)
          # (ttl, D_NS (ns_name (settings db))) # rest \<and>
        0 \<le> serial \<and> serial < 2 ^ 32 \<and> ttl \<in> fst ` set rest \<and>
        (\<forall>(ttl', d) \<in> set rest. ttl \<le> ttl' \<and> (\<exists>t a. d = D_Address t a))))"
proof (intro conjI allI impI)
  let ?rows = "rows_of db (normalize_name zone)"
  fix ttl t a
  assume "(ttl, D_Address t a) \<in> set (dlz_lookup now rnd db zone ''@'')"
  then obtain c where c: "c \<in> set (chosen now rnd db t ?rows)" "a = c_address c"
      "ttl = answer_ttl now db (chosen now rnd db t ?rows)"
    by (auto simp: lookup_address_iff Let_def)
  show "1 \<le> ttl" "ttl \<le> max_answer_ttl (settings db)"
    using answer_ttl_bounds [OF assms c(1), of now] c(3) by auto
  have "c \<in> set (candidates now t ?rows)" using c(1) set_chosen [of now rnd db t ?rows] by blast
  from candidate_expiry [OF this]
  obtain r where "r \<in> set (of_type t ?rows)" "r_address r = a" "r_expires_at r = c_expires_at c"
    using c(2) by auto
  then show "\<exists>r \<in> set (of_type t ?rows). r_address r = a \<and> (ttl = 1 \<or> now + secs ttl \<le> r_expires_at r)"
    using answer_ttl_bounds [OF assms c(1), of now] c(3) by auto
next
  let ?rows = "rows_of db (normalize_name zone)"
  let ?rs = "rrsets now rnd db ?rows"
  have "Min (fst ` set ?rs) \<in> fst ` set ?rs" if "?rs \<noteq> []" using that by (intro Min_in) auto
  moreover have "Min (fst ` set ?rs) \<le> ttl" if "(ttl, d) \<in> set ?rs" for ttl d
    using that by (intro Min_le) force+
  ultimately show "dlz_lookup now rnd db zone ''@'' = [] \<or>
      (\<exists>serial ttl rest. dlz_lookup now rnd db zone ''@'' =
          (ttl, D_SOA (ns_name (settings db)) (hostmaster (settings db)) serial ttl)
          # (ttl, D_NS (ns_name (settings db))) # rest \<and>
        0 \<le> serial \<and> serial < 2 ^ 32 \<and> ttl \<in> fst ` set rest \<and>
        (\<forall>(ttl', d) \<in> set rest. ttl \<le> ttl' \<and> (\<exists>t a. d = D_Address t a)))"
    unfolding lookup_apex
    by (auto simp: Let_def apex_serial_def set_rrsets split: if_splits)
qed


subsection \<open>An example\<close>

text \<open>Two regions, three addresses: one in a dirty grid, one in a clean one, one unknown.\<close>

definition sample_rows :: "rrset_row list" where
  "sample_rows = map (\<lambda>(a, ttl). \<lparr>r_domain_id = 1, r_rtype = RT_A, r_address = a, r_resolver = ''9.9.9.9'',
     r_ttl = ttl, r_resolved_at = 0, r_expires_at = secs ttl\<rparr>)
     [(''192.0.2.1'', 600), (''192.0.2.2'', 900), (''192.0.2.3'', 120)]"

definition green_db :: db where
  "green_db = empty_db\<lparr>
     domains := [measured_domain 0 ''a.net'' Resolved None 1], next_domain_id := 2,
     grid_regions := [\<lparr>g_code = ''COAL'', g_name = None, g_provider = PROVIDER\<rparr>,
                      \<lparr>g_code = ''WIND'', g_name = None, g_provider = PROVIDER\<rparr>],
     carbon_signals := [\<lparr>s_region_code = ''COAL'', s_point_time = 0, s_moer = 800, s_fetched_at = 0\<rparr>,
                        \<lparr>s_region_code = ''WIND'', s_point_time = 0, s_moer = 20, s_fetched_at = 0\<rparr>],
     endpoints := [(bare_endpoint ''192.0.2.1'')\<lparr>e_region_code := Some ''COAL''\<rparr>,
                   (bare_endpoint ''192.0.2.2'')\<lparr>e_region_code := Some ''WIND''\<rparr>,
                   bare_endpoint ''192.0.2.3''],
     rrset_records := sample_rows\<rparr>"

lemma green_db_facts:
  "settings_ok green_db" "rows_of green_db (normalize_name ''a.net'') = sample_rows"
  "dlz_findzone 5 green_db ''a.net''"
proof -
  have n: "normalize_name ''a.net'' = ''a.net''" by code_simp
  show "settings_ok green_db"
    using empty_db_ok by (simp add: db_ok_def settings_ok_def green_db_def)
  show rows: "rows_of green_db (normalize_name ''a.net'') = sample_rows"
    by (simp add: n rows_of_def green_db_def measured_domain_def sample_rows_def)
  show "dlz_findzone 5 green_db ''a.net''"
    unfolding dlz_findzone_iff rows Let_def
  proof (intro conjI allI impI)
    show "sample_rows \<noteq> []" by (simp add: sample_rows_def)
    show "\<exists>r \<in> set (of_type t sample_rows). 5 < r_expires_at r" if "of_type t sample_rows \<noteq> []" for t
      using that by (cases t) (simp_all add: sample_rows_def of_type_def secs_def)
  qed
qed

lemma green_db_ok: "db_ok green_db"
proof -
  have c: "canonical ''a.net''" by code_simp
  have "domains_ok green_db"
    using c by (simp add: domains_ok_def green_db_def measured_domain_def domain_ok_def unique_key_def)
  moreover have "signals_ok green_db" "unique_key g_code (grid_regions green_db)"
    by (simp_all add: signals_ok_def green_db_def unique_key_def)
  moreover have "endpoints_ok green_db"
    by (simp add: endpoints_ok_def green_db_def unique_key_def bare_endpoint_def endpoint_ok_def region_known_def)
  moreover have "records_ok green_db"
    by (simp add: records_ok_def green_db_def sample_rows_def unique_key_def bare_endpoint_def rrset_key_def
        rrset_ok_def secs_def family_ok_def family_def measured_domain_def)
  moreover have "queue_ok green_db" "locations_ok green_db"
    by (simp_all add: queue_ok_def locations_ok_def green_db_def empty_db_def)
  ultimately show ?thesis using green_db_facts(1) by (simp add: db_ok_def)
qed

theorem answers_are_greenest_witness:
  "card {a. \<exists>ttl. (ttl, D_Address RT_A a) \<in> set (dlz_lookup 5 (\<lambda>_. 0) green_db ''a.net'' ''@'')} = 1"
proof -
  have "answer_k (settings green_db) = 1" by (simp add: green_db_def empty_db_def default_settings_def)
  moreover have "r_address ` set (fresh_rows 5 RT_A sample_rows) = {''192.0.2.1'', ''192.0.2.2'', ''192.0.2.3''}"
    by (simp add: sample_rows_def of_type_def secs_def)
  ultimately show ?thesis
    using answers_are_greenest [OF green_db_facts(1,3), of "\<lambda>_. 0", THEN spec, of RT_A]
    unfolding green_db_facts(2) Let_def by simp
qed

lemma green_lookup:
  "dlz_lookup 5 (\<lambda>_. 0) green_db ''a.net'' ''@'' =
     [(300, D_SOA ''ns.cadns.invalid.'' ''hostmaster.cadns.invalid.'' 0 300),
      (300, D_NS ''ns.cadns.invalid.''), (300, D_Address RT_A ''192.0.2.2'')]"
  by code_simp

theorem answer_ttls_bounded_witness:
  "(300, D_Address RT_A ''192.0.2.2'') \<in> set (dlz_lookup 5 (\<lambda>_. 0) green_db ''a.net'' ''@'') \<and>
   (\<exists>r \<in> set (of_type RT_A sample_rows). r_address r = ''192.0.2.2'' \<and> 5 + secs 300 \<le> r_expires_at r)"
  using answer_ttls_bounded [OF green_db_facts(1), of 5 "\<lambda>_. 0" "''a.net''", THEN conjunct1,
      THEN spec, THEN spec, THEN spec, of 300 RT_A "''192.0.2.2''"]
  unfolding green_db_facts(2) green_lookup by auto

end
