(* ===== verification/Pipeline.thy ===== *)
theory Pipeline
  imports Config Resolver_Pool Geo_Ipinfo Answer_Policy
begin

text \<open>
  The measurement pipeline (\<open>worker/pipeline.py\<close>): classification of the resolvers' answers,
  and a measurement from the name to the stored records. A measurement changes the database,
  the state of the IPinfo API client and that of the WattTime client, together the record
  \<open>pstate\<close>; what it needs from outside is the record \<open>pipeline\<close>: the settings, dnspython's names
  and the transport of the resolvers, and the optional geolocator and WattTime client. The
  look-ups of \<open>asyncio.gather\<close> run in the order of their arguments, and an exception of one ends
  the measurement. \<open>now\<close> is the time of the measurement, for the database and the wall clock.
\<close>

section \<open>Outcomes\<close>

record Outcome =
  oc_status :: status
  oc_answers :: "Answer list"
  oc_retry_after_seconds :: "int option"

definition outcome_records :: "Outcome \<Rightarrow> Record list" where
  "outcome_records oc =
     [\<lparr>rc_rtype = a_rtype a, rc_address = address, rc_resolver = a_resolver a,
       rc_ttl = (case a_ttl a of None \<Rightarrow> 0 | Some t \<Rightarrow> t)\<rparr>.
        a \<leftarrow> oc_answers oc, address \<leftarrow> a_addresses a]"

definition outcome_addresses :: "Outcome \<Rightarrow> string set" where
  "outcome_addresses oc = set (concat (map a_addresses (oc_answers oc)))"

record Measurement =
  m_domain :: string
  m_outcome :: Outcome
  m_endpoints :: "(string \<times> endpoint) list"

definition normalize_domain :: "(string \<Rightarrow> 'n option) \<Rightarrow> ('n \<Rightarrow> string) \<Rightarrow> string \<Rightarrow> string option" where
  "normalize_domain from_unicode to_text domain =
     (case from_unicode (strip domain) of
        None \<Rightarrow> None
      | Some name \<Rightarrow>
          let text = lower (to_text name)
          in if text = [] \<or> text = ''.'' \<or> text = ''@'' then None else Some text)"

definition classify_answers :: "Answer list \<Rightarrow> Settings \<Rightarrow> Outcome" where
  "classify_answers answers s =
     (if \<exists>t \<in> set (map a_rtype answers). \<not> (\<exists>a \<in> set answers. a_rtype a = t \<and> definitive a)
      then \<lparr>oc_status = Failed, oc_answers = answers, oc_retry_after_seconds = Some (failed_retry_seconds s)\<rparr>
      else if \<exists>a \<in> set answers. a_addresses a \<noteq> []
      then \<lparr>oc_status = Resolved, oc_answers = answers, oc_retry_after_seconds = None\<rparr>
      else
        let ttls = concat (map (\<lambda>a. case a_negative_ttl a of None \<Rightarrow> [] | Some t \<Rightarrow> [t]) answers);
            backoff = (if ttls \<noteq> [] then Min (set ttls) else negative_min_seconds s);
            backoff = max (negative_min_seconds s) (min (negative_max_seconds s) backoff)
        in \<lparr>oc_status = (if \<exists>a \<in> set answers. a_status a = A_nxdomain then Nxdomain else Nodata),
            oc_answers = answers, oc_retry_after_seconds = Some backoff\<rparr>)"

section \<open>State and surroundings\<close>

record pstate =
  ps_db :: db
  ps_api :: api_state
  ps_client :: WattTimeClient

record 'n pipeline =
  pl_settings :: Settings
  pl_from_unicode :: "string \<Rightarrow> 'n option"
  pl_to_text :: "'n \<Rightarrow> string"
  pl_from_text :: "string \<Rightarrow> 'n option"
  pl_query :: "string \<Rightarrow> 'n \<Rightarrow> rtype \<Rightarrow> 'n query_result"
  pl_is_global :: "string \<Rightarrow> bool option"
  pl_geolocator :: "Geolocator option"
  pl_watttime :: "environment option"

datatype pipeline_error =
    NotADomain
  | PoolRaised pool_error
  | GeoRaised py_error
  | ClientRaised py_error
  | StoreRaised db_error

text \<open>A loop, or a \<open>gather\<close>, over a list with a state.\<close>

fun traverse :: "('a \<Rightarrow> 's \<Rightarrow> ('e + 'b) \<times> 's) \<Rightarrow> 'a list \<Rightarrow> 's \<Rightarrow> ('e + 'b list) \<times> 's" where
  "traverse f [] s = (Inr [], s)"
| "traverse f (a # as) s =
     (case f a s of
        (Inl e, s') \<Rightarrow> (Inl e, s')
      | (Inr b, s') \<Rightarrow> (case traverse f as s' of (Inl e, s'') \<Rightarrow> (Inl e, s'') | (Inr bs, s'') \<Rightarrow> (Inr (b # bs), s'')))"

definition in_db :: "(db \<Rightarrow> db_error + db) \<Rightarrow> pstate \<Rightarrow> (pipeline_error + unit) \<times> pstate" where
  "in_db f st = (case f (ps_db st) of
      Inl e \<Rightarrow> (Inl (StoreRaised e), st) | Inr db \<Rightarrow> (Inr (), st\<lparr>ps_db := db\<rparr>))"

section \<open>Endpoints\<close>

definition located_endpoint :: "timestamp \<Rightarrow> string \<Rightarrow> Location \<Rightarrow> endpoint" where
  "located_endpoint now address l =
     \<lparr>e_address = address, e_lat = lc_lat l, e_lon = lc_lon l, e_city = lc_city l, e_country = lc_country l,
      e_asn = lc_asn l, e_is_anycast = lc_is_anycast l, e_region_code = None,
      e_geo_source = Some (lc_source l), e_geo_updated_at = Some now\<rparr>"

definition pl_locate :: "'n pipeline \<Rightarrow> timestamp \<Rightarrow> string \<Rightarrow> pstate \<Rightarrow> (pipeline_error + endpoint) \<times> pstate" where
  "pl_locate p now address st = (case pl_geolocator p of
      None \<Rightarrow> (Inr (bare_endpoint address), st)
    | Some geo \<Rightarrow> (case locate (pl_is_global p) geo address (ps_api st) of
          (Inl e, api) \<Rightarrow> (Inl (GeoRaised e), st\<lparr>ps_api := api\<rparr>)
        | (Inr None, api) \<Rightarrow> (Inr (bare_endpoint address), st\<lparr>ps_api := api\<rparr>)
        | (Inr (Some l), api) \<Rightarrow> (Inr (located_endpoint now address l), st\<lparr>ps_api := api\<rparr>)))"

definition endpoint_key :: "endpoint \<Rightarrow> int \<times> int" where
  "endpoint_key e = location_key (the (e_lat e)) (the (e_lon e))"

definition wants_region :: "endpoint \<Rightarrow> bool" where
  "wants_region e \<longleftrightarrow> e_lat e \<noteq> None \<and> \<not> e_is_anycast e"

text \<open>\<open>_region\<close>: \<open>None\<close> when the look-up failed, else the region or that there is none.\<close>

definition pl_region ::
  "environment \<Rightarrow> int \<times> int \<Rightarrow> pstate \<Rightarrow> (pipeline_error + Region option option) \<times> pstate" where
  "pl_region env key st =
     (case region_for env (of_int (fst key) / 100) (of_int (snd key) / 100) (ps_client st) of
        (Inl (WattTime _), w) \<Rightarrow> (Inr None, st\<lparr>ps_client := w\<rparr>)
      | (Inl (Unexpected e), w) \<Rightarrow> (Inl (ClientRaised e), st\<lparr>ps_client := w\<rparr>)
      | (Inr r, w) \<Rightarrow> (Inr (Some r), st\<lparr>ps_client := w\<rparr>))"

text \<open>The saving loop; its result are the entries it adds to the dict of regions.\<close>

definition save_found ::
  "timestamp \<Rightarrow> (int \<times> int) \<times> Region option option \<Rightarrow> pstate \<Rightarrow>
   (pipeline_error + ((int \<times> int) \<times> string option) list) \<times> pstate" where
  "save_found now kr st = (case kr of
      (key, None) \<Rightarrow> (Inr [], st)
    | (key, Some region) \<Rightarrow>
        (case in_db (save_region now key region) st of
           (Inl e, st') \<Rightarrow> (Inl e, st')
         | (Inr _, st') \<Rightarrow> (Inr [(key, map_option rg_code region)], st')))"

definition look_up_regions ::
  "'n pipeline \<Rightarrow> timestamp \<Rightarrow> (int \<times> int) set \<Rightarrow> ((int \<times> int) \<times> string option) list \<Rightarrow> pstate \<Rightarrow>
   (pipeline_error + ((int \<times> int) \<times> string option) list) \<times> pstate" where
  "look_up_regions p now keys regions st = (case pl_watttime p of
      None \<Rightarrow> (Inr regions, st)
    | Some env \<Rightarrow>
        (let unknown = sorted_list_of_set (keys - fst ` set regions) in
         case traverse (pl_region env) unknown st of
           (Inl e, st1) \<Rightarrow> (Inl e, st1)
         | (Inr results, st1) \<Rightarrow>
             (case traverse (save_found now) (zip unknown results) st1 of
                (Inl e, st2) \<Rightarrow> (Inl e, st2)
              | (Inr found, st2) \<Rightarrow> (Inr (concat found @ regions), st2))))"

definition set_region :: "((int \<times> int) \<times> string option) list \<Rightarrow> endpoint \<Rightarrow> endpoint" where
  "set_region regions e =
     (if wants_region e
      then (case map_of regions (endpoint_key e) of None \<Rightarrow> e | Some c \<Rightarrow> e\<lparr>e_region_code := c\<rparr>)
      else e)"

definition assign_regions ::
  "'n pipeline \<Rightarrow> timestamp \<Rightarrow> (string \<times> endpoint) list \<Rightarrow> pstate \<Rightarrow>
   (pipeline_error + (string \<times> endpoint) list) \<times> pstate" where
  "assign_regions p now eps st =
     (let keys = set (map endpoint_key (filter wants_region (map snd eps)));
          regions = cached_regions now keys (region_negative_days (pl_settings p)) (ps_db st)
      in case look_up_regions p now keys regions st of
           (Inl e, st') \<Rightarrow> (Inl e, st')
         | (Inr regions', st') \<Rightarrow> (Inr (map (\<lambda>(a, e). (a, set_region regions' e)) eps), st'))"

definition pl_endpoints ::
  "'n pipeline \<Rightarrow> timestamp \<Rightarrow> string set \<Rightarrow> pstate \<Rightarrow> (pipeline_error + (string \<times> endpoint) list) \<times> pstate" where
  "pl_endpoints p now addresses st =
     (let fresh = fresh_endpoints now addresses (geo_max_age_days (pl_settings p)) (ps_db st);
          missing = sorted_list_of_set (addresses - fst ` set fresh)
      in case traverse (pl_locate p now) missing st of
           (Inl e, st1) \<Rightarrow> (Inl e, st1)
         | (Inr found, st1) \<Rightarrow>
             assign_regions p now (fold (\<lambda>e. AList.update (e_address e) e) found fresh) st1)"

section \<open>Signals and the measurement\<close>

definition fetch_signal ::
  "environment \<Rightarrow> string \<Rightarrow> pstate \<Rightarrow> (pipeline_error + Signal option) \<times> pstate" where
  "fetch_signal env code st = (case current_moer env (ps_client st) code of
      (Inl (WattTime _), w) \<Rightarrow> (Inr None, st\<lparr>ps_client := w\<rparr>)
    | (Inl (Unexpected e), w) \<Rightarrow> (Inl (ClientRaised e), st\<lparr>ps_client := w\<rparr>)
    | (Inr s, w) \<Rightarrow> (Inr s, st\<lparr>ps_client := w\<rparr>))"

definition store_signal :: "timestamp \<Rightarrow> Signal option \<Rightarrow> pstate \<Rightarrow> (pipeline_error + unit) \<times> pstate" where
  "store_signal now signal st = (case signal of
      None \<Rightarrow> (Inr (), st) | Some s \<Rightarrow> in_db (save_signal now s) st)"

definition refresh_signals ::
  "'n pipeline \<Rightarrow> timestamp \<Rightarrow> endpoint list \<Rightarrow> pstate \<Rightarrow> (pipeline_error + unit) \<times> pstate" where
  "refresh_signals p now eps st = (case pl_watttime p of
      None \<Rightarrow> (Inr (), st)
    | Some env \<Rightarrow>
        (let codes = set (filter (\<lambda>c. c \<noteq> []) (concat (map (\<lambda>e. case e_region_code e of None \<Rightarrow> [] | Some c \<Rightarrow> [c]) eps)));
             stale = sorted_list_of_set
               (regions_needing_signal now codes (carbon_max_age_seconds (pl_settings p)) (ps_db st))
         in case traverse (fetch_signal env) stale st of
              (Inl e, st1) \<Rightarrow> (Inl e, st1)
            | (Inr signals, st1) \<Rightarrow>
                (case traverse (store_signal now) signals st1 of
                   (Inl e, st2) \<Rightarrow> (Inl e, st2) | (Inr _, st2) \<Rightarrow> (Inr (), st2))))"

text \<open>What a measurement has collected when it comes to the writing.\<close>

definition gather_endpoints ::
  "'n pipeline \<Rightarrow> timestamp \<Rightarrow> Outcome \<Rightarrow> pstate \<Rightarrow> (pipeline_error + (string \<times> endpoint) list) \<times> pstate" where
  "gather_endpoints p now oc st =
     (if oc_status oc \<noteq> Resolved then (Inr [], st)
      else case pl_endpoints p now (outcome_addresses oc) st of
        (Inl e, st1) \<Rightarrow> (Inl e, st1)
      | (Inr eps, st1) \<Rightarrow>
          (case refresh_signals p now (map snd eps) st1 of
             (Inl e, st2) \<Rightarrow> (Inl e, st2) | (Inr _, st2) \<Rightarrow> (Inr eps, st2)))"

definition measure_domain ::
  "'n pipeline \<Rightarrow> timestamp \<Rightarrow> string \<Rightarrow> pstate \<Rightarrow> (pipeline_error + Measurement) \<times> pstate" where
  "measure_domain p now domain st =
     (case normalize_domain (pl_from_unicode p) (pl_to_text p) domain of
        None \<Rightarrow> (Inl NotADomain, st)
      | Some name \<Rightarrow>
      case resolve (pl_from_text p) (pl_query p) (resolvers (pl_settings p)) name of
        Inl e \<Rightarrow> (Inl (PoolRaised e), st)
      | Inr answers \<Rightarrow>
          let oc = classify_answers answers (pl_settings p) in
          case gather_endpoints p now oc st of
            (Inl e, st1) \<Rightarrow> (Inl e, st1)
          | (Inr eps, st1) \<Rightarrow>
              (case in_db (store_measurement now name (oc_status oc) (oc_retry_after_seconds oc)
                             (map snd eps) (outcome_records oc)) st1 of
                 (Inl e, st2) \<Rightarrow> (Inl e, st2)
               | (Inr _, st2) \<Rightarrow> (Inr \<lparr>m_domain = name, m_outcome = oc, m_endpoints = eps\<rparr>, st2)))"


section \<open>Loops\<close>

lemma traverse_invariant:
  assumes "traverse f as s = (r, s')" and "P s" and "\<And>a s r s'. a \<in> set as \<Longrightarrow> f a s = (r, s') \<Longrightarrow> P s \<Longrightarrow> P s'"
  shows "P s'"
  using assms
proof (induction as arbitrary: s r s')
  case (Cons a as)
  obtain b s1 where f: "f a s = (b, s1)" by (cases "f a s")
  obtain bs s2 where t: "traverse f as s1 = (bs, s2)" by (cases "traverse f as s1")
  have "P s1" using Cons.prems(2,3) f by auto
  then have "P s2" using Cons.IH [OF t] Cons.prems(3) by auto
  then show ?case
    using Cons.prems(1) f t \<open>P s1\<close> by (auto split: sum.splits)
qed simp

lemma traverse_results:
  "traverse f as s = (Inr bs, s') \<Longrightarrow> list_all2 (\<lambda>a b. \<exists>s1 s2. f a s1 = (Inr b, s2)) as bs"
proof (induction as arbitrary: s bs s')
  case (Cons a as)
  obtain b s1 where f: "f a s = (b, s1)" by (cases "f a s")
  obtain r s2 where t: "traverse f as s1 = (r, s2)" by (cases "traverse f as s1")
  show ?case
    using Cons.prems Cons.IH [of s1] f t by (auto split: sum.splits)
qed simp

section \<open>Integrity\<close>

text \<open>
  What no step of a measurement before the last breaks: the constraints, and all tables that
  are not caches.
\<close>

type_synonym tables = "settings_row \<times> domain_row list \<times> rrset_row list \<times> endpoint list \<times> queue_row list"

definition tables_of :: "db \<Rightarrow> tables" where
  "tables_of db = (settings db, domains db, rrset_records db, endpoints db, measurement_queue db)"

definition sound :: "tables \<Rightarrow> pstate \<Rightarrow> bool" where
  "sound q st \<longleftrightarrow> db_ok (ps_db st) \<and> tables_of (ps_db st) = q"

lemma sound_update [simp]:
  "sound q (st\<lparr>ps_api := a\<rparr>) = sound q st" "sound q (st\<lparr>ps_client := w\<rparr>) = sound q st"
  by (simp_all add: sound_def)

lemma save_region_tables: "save_region now key region db = Inr db' \<Longrightarrow> tables_of db' = tables_of db"
  by (auto simp: save_region_def Let_def put_region_def tables_of_def split: if_splits option.splits)

lemma save_signal_tables: "save_signal now signal db = Inr db' \<Longrightarrow> tables_of db' = tables_of db"
  by (auto simp: save_signal_Inr tables_of_def)

lemma in_db_sound:
  assumes "in_db f st = (r, st')" and "sound q st"
    and "\<And>db'. f (ps_db st) = Inr db' \<Longrightarrow> db_ok db' \<and> tables_of db' = tables_of (ps_db st)"
  shows "sound q st'"
  using assms by (auto simp: in_db_def sound_def split: sum.splits)

lemma save_found_sound: "save_found now kr st = (r, st') \<Longrightarrow> sound q st \<Longrightarrow> sound q st'"
  using in_db_sound [of "save_region now (fst kr) _" st _ st' q] save_region_ok save_region_tables
  by (fastforce simp: save_found_def sound_def split: prod.splits option.splits sum.splits)

lemma store_signal_sound: "store_signal now s st = (r, st') \<Longrightarrow> sound q st \<Longrightarrow> sound q st'"
  using in_db_sound [of "save_signal now (the s)" st r st' q] save_signal_ok save_signal_tables
  by (fastforce simp: store_signal_def sound_def split: option.splits)

lemma pl_locate_sound: "pl_locate p now a st = (r, st') \<Longrightarrow> sound q st \<Longrightarrow> sound q st'"
  by (auto simp: pl_locate_def split: option.splits prod.splits sum.splits)

lemma pl_region_sound: "pl_region env key st = (r, st') \<Longrightarrow> sound q st \<Longrightarrow> sound q st'"
  by (auto simp: pl_region_def split: option.splits prod.splits sum.splits client_error.splits)

lemma fetch_signal_sound: "fetch_signal env code st = (r, st') \<Longrightarrow> sound q st \<Longrightarrow> sound q st'"
  by (auto simp: fetch_signal_def split: option.splits prod.splits sum.splits client_error.splits)

lemma look_up_regions_sound:
  assumes "look_up_regions p now keys regions st = (r, st')" and "sound q st"
  shows "sound q st'"
proof (cases "pl_watttime p")
  case None
  then show ?thesis using assms by (simp add: look_up_regions_def)
next
  case (Some env)
  let ?unknown = "sorted_list_of_set (keys - fst ` set regions)"
  obtain a st1 where a: "traverse (pl_region env) ?unknown st = (a, st1)" by (cases "traverse (pl_region env) ?unknown st")
  have s1: "sound q st1" using a assms(2) by (rule traverse_invariant) (rule pl_region_sound)
  show ?thesis
  proof (cases a)
    case (Inl e)
    then show ?thesis using assms(1) Some a s1 by (simp add: look_up_regions_def)
  next
    case (Inr results)
    obtain b st2 where b: "traverse (save_found now) (zip ?unknown results) st1 = (b, st2)"
      by (cases "traverse (save_found now) (zip ?unknown results) st1")
    have "sound q st2" using b s1 by (rule traverse_invariant) (rule save_found_sound)
    then show ?thesis using assms(1) Some a Inr b by (auto simp: look_up_regions_def Let_def split: sum.splits)
  qed
qed

lemma pl_endpoints_sound:
  assumes "pl_endpoints p now addresses st = (r, st')" and "sound q st"
  shows "sound q st'"
proof -
  let ?missing = "sorted_list_of_set (addresses - fst ` set
    (fresh_endpoints now addresses (geo_max_age_days (pl_settings p)) (ps_db st)))"
  obtain a st1 where a: "traverse (pl_locate p now) ?missing st = (a, st1)" by (cases "traverse (pl_locate p now) ?missing st")
  have "sound q st1" using a assms(2) by (rule traverse_invariant) (rule pl_locate_sound)
  then show ?thesis
    using assms(1) a
    by (auto simp: pl_endpoints_def assign_regions_def Let_def split: sum.splits prod.splits
        dest: look_up_regions_sound)
qed

lemma refresh_signals_sound:
  assumes "refresh_signals p now eps st = (r, st')" and "sound q st"
  shows "sound q st'"
proof (cases "pl_watttime p")
  case None
  then show ?thesis using assms by (simp add: refresh_signals_def)
next
  case (Some env)
  obtain stale a st1 where stale: "traverse (fetch_signal env) stale st = (a, st1)"
    and next_: "(case a of Inl e \<Rightarrow> st' = st1
      | Inr signals \<Rightarrow> \<exists>b. traverse (store_signal now) signals st1 = (b, st'))"
    using assms(1) Some
    by (fastforce simp: refresh_signals_def Let_def split: sum.splits prod.splits)
  have s1: "sound q st1" using stale assms(2) by (rule traverse_invariant) (rule fetch_signal_sound)
  show ?thesis
  proof (cases a)
    case (Inl e)
    then show ?thesis using next_ s1 by simp
  next
    case (Inr signals)
    then obtain b where b: "traverse (store_signal now) signals st1 = (b, st')" using next_ by auto
    then show ?thesis using s1 by (rule traverse_invariant) (rule store_signal_sound)
  qed
qed


lemma gather_endpoints_sound:
  assumes "gather_endpoints p now oc st = (r, st')" and "sound q st"
  shows "sound q st'"
  using assms
  by (auto simp: gather_endpoints_def split: if_splits sum.splits prod.splits
      dest: pl_endpoints_sound refresh_signals_sound)

text \<open>
  A measurement that returns has stored what it returns, in one transaction at its end; one
  that raises has at most filled caches.
\<close>

lemma measure_domain_cases:
  assumes "measure_domain p now domain st = (r, st')" and "db_ok (ps_db st)"
  obtains (raised) e where "r = Inl e" "sound (tables_of (ps_db st)) st'"
  | (stored) m st1 where "r = Inr m" "sound (tables_of (ps_db st)) st1"
      "normalize_domain (pl_from_unicode p) (pl_to_text p) domain = Some (m_domain m)"
      "resolve (pl_from_text p) (pl_query p) (resolvers (pl_settings p)) (m_domain m) = Inr (oc_answers (m_outcome m))"
      "m_outcome m = classify_answers (oc_answers (m_outcome m)) (pl_settings p)"
      "gather_endpoints p now (m_outcome m) st = (Inr (m_endpoints m), st1)"
      "store_measurement now (m_domain m) (oc_status (m_outcome m)) (oc_retry_after_seconds (m_outcome m))
         (map snd (m_endpoints m)) (outcome_records (m_outcome m)) (ps_db st1) = Inr (ps_db st')"
proof -
  let ?q = "tables_of (ps_db st)"
  have s: "sound ?q st" using assms(2) by (simp add: sound_def)
  show thesis
  proof (cases "normalize_domain (pl_from_unicode p) (pl_to_text p) domain")
    case None
    then show ?thesis using assms(1) s by (intro raised [of NotADomain]) (simp_all add: measure_domain_def)
  next
    case name: (Some name)
    show ?thesis
    proof (cases "resolve (pl_from_text p) (pl_query p) (resolvers (pl_settings p)) name")
      case (Inl e)
      then show ?thesis using assms(1) s name by (intro raised [of "PoolRaised e"]) (simp_all add: measure_domain_def)
    next
      case answers: (Inr answers)
      let ?oc = "classify_answers answers (pl_settings p)"
      have oc: "oc_answers ?oc = answers" by (simp add: classify_answers_def Let_def)
      obtain g st1 where g: "gather_endpoints p now ?oc st = (g, st1)" by (cases "gather_endpoints p now ?oc st")
      have s1: "sound ?q st1" using g s by (rule gather_endpoints_sound)
      show ?thesis
      proof (cases g)
        case (Inl e)
        then show ?thesis
          using assms(1) name answers g s1 by (intro raised [of e]) (simp_all add: measure_domain_def Let_def)
      next
        case (Inr eps)
        let ?f = "store_measurement now name (oc_status ?oc) (oc_retry_after_seconds ?oc) (map snd eps) (outcome_records ?oc)"
        show ?thesis
        proof (cases "?f (ps_db st1)")
          case (Inl e)
          then show ?thesis
            using assms(1) name answers g s1 \<open>g = _\<close>
            by (intro raised [of "StoreRaised e"]) (simp_all add: measure_domain_def Let_def in_db_def)
        next
          case f: (Inr db')
          then show ?thesis
            using assms(1) name answers g Inr s1 oc
            by (intro stored [of "\<lparr>m_domain = name, m_outcome = ?oc, m_endpoints = eps\<rparr>" st1])
               (auto simp: measure_domain_def Let_def in_db_def)
        qed
      qed
    qed
  qed
qed

text \<open>
  C8: A measurement is all or nothing. Whatever resolvers, IPinfo and WattTime answer, and
  whether it returns or raises, the constraints of the schema hold afterwards and the queue is
  untouched. When it raises, no domain, record or endpoint has changed: only the shared caches
  of regions and signals may have grown. When it returns, the domain has the reported status,
  measurement time and retry time; its records are the resolvers' answers, or the old ones if
  the measurement failed; and no other domain has changed.
\<close>

theorem measurement_is_atomic:
  assumes "db_ok (ps_db st)" and "measure_domain p now domain st = (r, st')"
  shows "db_ok (ps_db st') \<and> measurement_queue (ps_db st') = measurement_queue (ps_db st) \<and>
    (case r of
       Inl e \<Rightarrow> tables_of (ps_db st') = tables_of (ps_db st)
     | Inr m \<Rightarrow> let oc = m_outcome m; name = m_domain m in
         (\<exists>d. about (ps_db st') name = Some d \<and> d_status d = oc_status oc \<and> d_measured_at d = Some now \<and>
            d_retry_after d = map_option (\<lambda>s. now + secs s) (oc_retry_after_seconds oc)) \<and>
         records_of (ps_db st') name = (if oc_status oc = Failed then records_of (ps_db st) name
           else map (record_row now 0 (min_record_ttl (settings (ps_db st)))) (outcome_records oc)) \<and>
         (\<forall>n. n \<noteq> name \<longrightarrow> about (ps_db st') n = about (ps_db st) n \<and>
            records_of (ps_db st') n = records_of (ps_db st) n))"
  using assms(2,1)
proof (cases rule: measure_domain_cases)
  case (raised e)
  then show ?thesis by (simp add: sound_def tables_of_def)
next
  case (stored m st1)
  let ?oc = "m_outcome m" and ?name = "m_domain m"
  have ok1: "db_ok (ps_db st1)" and t: "tables_of (ps_db st1) = tables_of (ps_db st)"
    using stored(2) by (simp_all add: sound_def)
  have same: "settings (ps_db st1) = settings (ps_db st)" "measurement_queue (ps_db st1) = measurement_queue (ps_db st)"
      "about (ps_db st1) n = about (ps_db st) n" "records_of (ps_db st1) n = records_of (ps_db st) n" for n
    using t by (simp_all add: tables_of_def about_def records_of_def split: option.split)
  note rows = store_measurement_rows [OF ok1 stored(7)] and rest = store_measurement_endpoints [OF ok1 stored(7)]
  have "db_ok (ps_db st')" using store_measurement_ok [OF stored(7) ok1] .
  moreover have "\<exists>d. about (ps_db st') ?name = Some d \<and> d_status d = oc_status ?oc \<and> d_measured_at d = Some now \<and>
      d_retry_after d = map_option (\<lambda>s. now + secs s) (oc_retry_after_seconds ?oc)"
    unfolding rows by (simp add: measured_domain_def remeasured_def split: option.split)
  ultimately show ?thesis using stored(1) rest(4) rows same by (simp add: Let_def)
qed


text \<open>A pipeline of one resolver, for the examples.\<close>

definition sample_pipeline :: "string pipeline" where
  "sample_pipeline = \<lparr>pl_settings = default_config\<lparr>upstream_resolvers := ''9.9.9.9''\<rparr>,
     pl_from_unicode = Some, pl_to_text = (\<lambda>n. n), pl_from_text = Some,
     pl_query = (\<lambda>r n t. QResponse \<lparr>rs_rcode = 0,
        get_rrset = (\<lambda>m ty. if ty = Address RT_A \<and> t = RT_A
          then Some \<lparr>rs_type = ty, rs_ttl = 60, rs_addresses = [''192.0.2.1''], rs_target = [], rs_minimum = 0\<rparr> else None),
        rs_authority = []\<rparr>),
     pl_is_global = (\<lambda>_. Some True), pl_geolocator = None, pl_watttime = None\<rparr>"

definition sample_pstate :: pstate where
  "sample_pstate = \<lparr>ps_db = empty_db, ps_api = \<lparr>legacy_plan = False, api_urls = []\<rparr>,
     ps_client = new_client ''co2_moer'' 10 0\<rparr>"

lemma sample_measurement:
  "map_sum (\<lambda>_. ()) (\<lambda>m. (m_domain m, oc_status (m_outcome m)))
     (fst (measure_domain sample_pipeline 7 '' A.Net'' sample_pstate)) = Inr (''a.net'', Resolved)"
  by code_simp

theorem measurement_is_atomic_witness:
  "\<exists>m st'. measure_domain sample_pipeline 7 '' A.Net'' sample_pstate = (Inr m, st') \<and> db_ok (ps_db st') \<and>
     (\<exists>d. about (ps_db st') ''a.net'' = Some d \<and> d_status d = Resolved \<and> d_measured_at d = Some 7)"
proof -
  obtain r st' where r: "measure_domain sample_pipeline 7 '' A.Net'' sample_pstate = (r, st')"
    by (cases "measure_domain sample_pipeline 7 '' A.Net'' sample_pstate")
  then obtain m where m: "r = Inr m" "m_domain m = ''a.net''" "oc_status (m_outcome m) = Resolved"
    using sample_measurement by (cases r) auto
  have "db_ok (ps_db sample_pstate)" using empty_db_ok by (simp add: sample_pstate_def)
  from measurement_is_atomic [OF this r] show ?thesis using r m by (auto simp: Let_def)
qed

section \<open>Classification\<close>

text \<open>
  C39: A negative or empty result is never a guess. For the answers of the pool, a measurement
  counts as failed exactly if for one of the two address types no resolver gave a definitive
  answer, so that stored records are replaced only when both types are known; otherwise it is
  resolved if there is an address, and if not NXDOMAIN when a resolver said so. A failed one
  is retried after the configured time and a negative one after a time within the configured
  bounds.
\<close>

theorem classification_is_cautious:
  assumes "resolve from_text query rs name = Inr answers" and "rs \<noteq> []"
  shows "let oc = classify_answers answers s in
    (oc_status oc = Failed \<longleftrightarrow> (\<exists>t. \<forall>a \<in> set answers. a_rtype a = t \<longrightarrow> \<not> definitive a)) \<and>
    (oc_status oc = Resolved \<longleftrightarrow> oc_status oc \<noteq> Failed \<and> outcome_addresses oc \<noteq> {}) \<and>
    (oc_status oc = Nxdomain \<longleftrightarrow> oc_status oc \<noteq> Failed \<and> outcome_addresses oc = {} \<and>
       (\<exists>a \<in> set answers. a_status a = A_nxdomain)) \<and>
    oc_status oc \<noteq> Pending \<and>
    (case oc_retry_after_seconds oc of
       None \<Rightarrow> oc_status oc = Resolved
     | Some t \<Rightarrow> if oc_status oc = Failed then t = failed_retry_seconds s
         else negative_min_seconds s \<le> t \<and> t \<le> max (negative_min_seconds s) (negative_max_seconds s))"
proof -
  have "set (map (\<lambda>a. (a_rtype a, a_resolver a)) answers) = {RT_A, RT_AAAA} \<times> set rs"
    unfolding resolve_answers(1) [OF assms(1)] by auto
  moreover have "a_rtype ` set answers = fst ` set (map (\<lambda>a. (a_rtype a, a_resolver a)) answers)"
    by (simp add: image_image)
  moreover have "(UNIV :: rtype set) = {RT_A, RT_AAAA}" using rtype.exhaust by auto
  ultimately have types: "a_rtype ` set answers = UNIV" using assms(2) by auto
  have failed: "(\<exists>t \<in> set (map a_rtype answers). \<not> (\<exists>a \<in> set answers. a_rtype a = t \<and> definitive a)) \<longleftrightarrow>
      (\<exists>t. \<forall>a \<in> set answers. a_rtype a = t \<longrightarrow> \<not> definitive a)"
    using types by (simp only: set_map) blast
  have addr: "outcome_addresses (classify_answers answers s) = {} \<longleftrightarrow> \<not> (\<exists>a \<in> set answers. a_addresses a \<noteq> [])"
    by (auto simp: outcome_addresses_def classify_answers_def Let_def)
  have cap: "min b x \<le> max a b" for a b x :: int by (simp add: min.coboundedI1)
  show ?thesis
    unfolding Let_def addr
    unfolding classify_answers_def failed Let_def by (simp add: cap)
qed

theorem classification_is_cautious_witness:
  "\<exists>answers. resolve Some (\<lambda>r n t. if t = RT_AAAA then QTimeout else pl_query sample_pipeline r n t) [''9.9.9.9''] ''a.net''
     = Inr answers \<and> oc_status (classify_answers answers default_config) = Failed"
proof -
  let ?q = "\<lambda>r n t. if t = RT_AAAA then QTimeout else pl_query sample_pipeline r n t"
  obtain answers where a: "resolve Some ?q [''9.9.9.9''] ''a.net'' = Inr answers"
    by (simp add: resolve_def RTYPES_def ask_def sample_pipeline_def)
  have "a \<in> set answers \<Longrightarrow> a_rtype a = RT_AAAA \<Longrightarrow> \<not> definitive a" for a
    using a by (auto simp: resolve_def RTYPES_def ask_def sample_pipeline_def definitive_def parse_response_def
        RCODE_NXDOMAIN_def RCODE_NOERROR_def split: option.splits)
  then have "\<exists>t. \<forall>a \<in> set answers. a_rtype a = t \<longrightarrow> \<not> definitive a" by blast
  then show ?thesis
    using classification_is_cautious [OF a, of default_config, unfolded Let_def, THEN conjunct1] a by blast
qed


section \<open>What is handed to the store\<close>

lemma traverse_all:
  assumes "traverse f as s = (Inr bs, s')"
    and "\<And>a s b s'. a \<in> set as \<Longrightarrow> f a s = (Inr b, s') \<Longrightarrow> Q b s'"
    and "\<And>a s r s' b. f a s = (r, s') \<Longrightarrow> Q b s \<Longrightarrow> Q b s'"
  shows "\<forall>b \<in> set bs. Q b s'"
  using assms
proof (induction as arbitrary: s bs s')
  case (Cons a as)
  obtain b s1 where f: "f a s = (b, s1)" by (cases "f a s")
  obtain r s2 where t: "traverse f as s1 = (r, s2)" by (cases "traverse f as s1")
  obtain b' cs where b: "b = Inr b'" "r = Inr cs" "bs = b' # cs" "s' = s2"
    using Cons.prems(1) f t by (auto split: sum.splits)
  have "Q b' s1" using Cons.prems(2) f b(1) by auto
  then have "Q b' s2" using traverse_invariant [OF t, of "Q b'"] Cons.prems(3) by blast
  moreover have "\<forall>c \<in> set cs. Q c s2"
  proof (rule Cons.IH)
    show "traverse f as s1 = (Inr cs, s2)" using t b(2) by simp
    show "\<And>a s b s'. a \<in> set as \<Longrightarrow> f a s = (Inr b, s') \<Longrightarrow> Q b s'" using Cons.prems(2) by auto
  qed (rule Cons.prems(3))
  ultimately show ?case using b by simp
qed simp

definition grid_codes :: "pstate \<Rightarrow> string set" where
  "grid_codes st = g_code ` set (grid_regions (ps_db st))"

text \<open>Regions are only ever added, and what a saved look-up found is among them.\<close>

lemma save_region_codes:
  "save_region now key region db = Inr db' \<Longrightarrow>
   g_code ` set (grid_regions db') = (case region of None \<Rightarrow> {} | Some r \<Rightarrow> {rg_code r}) \<union> g_code ` set (grid_regions db)"
proof -
  assume "save_region now key region db = Inr db'"
  then have "grid_regions db' = (case region of None \<Rightarrow> grid_regions db | Some r \<Rightarrow> grid_regions (put_region r db))"
    by (auto simp: save_region_def Let_def split: if_splits option.splits)
  then show ?thesis by (simp add: regions_put split: option.split)
qed

lemma save_found_codes:
  assumes "save_found now kr st = (r, st')"
  shows "grid_codes st \<subseteq> grid_codes st'"
    and "r = Inr found \<Longrightarrow> c \<in> snd ` set found \<Longrightarrow> c = Some code \<Longrightarrow> code \<in> grid_codes st'"
proof -
  obtain key res where kr: "kr = (key, res)" by (cases kr)
  have "grid_codes st \<subseteq> grid_codes st' \<and> (\<forall>found c code. r = Inr found \<longrightarrow> c \<in> snd ` set found \<longrightarrow> c = Some code \<longrightarrow> code \<in> grid_codes st')"
  proof (cases res)
    case None
    then show ?thesis using assms kr by (auto simp: save_found_def)
  next
    case (Some region)
    show ?thesis
    proof (cases "save_region now key region (ps_db st)")
      case (Inl e)
      then show ?thesis using assms kr Some by (auto simp: save_found_def in_db_def)
    next
      case (Inr db')
      then show ?thesis
        using assms kr Some save_region_codes [OF Inr]
        by (auto simp: save_found_def in_db_def grid_codes_def split: option.splits)
    qed
  qed
  then show "grid_codes st \<subseteq> grid_codes st'"
    and "r = Inr found \<Longrightarrow> c \<in> snd ` set found \<Longrightarrow> c = Some code \<Longrightarrow> code \<in> grid_codes st'" by blast+
qed

lemma pl_region_db: "pl_region env key st = (r, st') \<Longrightarrow> ps_db st' = ps_db st"
  by (auto simp: pl_region_def split: prod.splits sum.splits client_error.splits)

lemma pl_locate_db: "pl_locate p now a st = (r, st') \<Longrightarrow> ps_db st' = ps_db st"
  by (auto simp: pl_locate_def split: option.splits prod.splits sum.splits)

lemma look_up_regions_known:
  assumes "look_up_regions p now keys regions st = (Inr regions', st')"
    and "\<And>c. c \<in> snd ` set regions \<Longrightarrow> region_known (ps_db st) c"
  shows "grid_codes st \<subseteq> grid_codes st'" and "c \<in> snd ` set regions' \<Longrightarrow> region_known (ps_db st') c"
proof -
  have known: "region_known (ps_db s) c \<longleftrightarrow> (case c of None \<Rightarrow> True | Some x \<Rightarrow> x \<in> grid_codes s)" for s c
    by (cases c) (simp_all add: region_known_def grid_codes_def)
  have "grid_codes st \<subseteq> grid_codes st' \<and> (\<forall>c \<in> snd ` set regions'. region_known (ps_db st') c)"
  proof (cases "pl_watttime p")
    case None
    then show ?thesis using assms by (auto simp: look_up_regions_def)
  next
    case (Some env)
    let ?unknown = "sorted_list_of_set (keys - fst ` set regions)"
    obtain results st1 found where a: "traverse (pl_region env) ?unknown st = (Inr results, st1)"
      and b: "traverse (save_found now) (zip ?unknown results) st1 = (Inr found, st')"
      and r: "regions' = concat found @ regions"
      using assms(1) Some by (auto simp: look_up_regions_def Let_def split: sum.splits prod.splits)
    have st1: "ps_db st1 = ps_db st"
      by (rule traverse_invariant [OF a, of "\<lambda>s. ps_db s = ps_db st"]) (auto dest: pl_region_db)
    have mono: "grid_codes st \<subseteq> grid_codes st'"
      by (rule traverse_invariant [OF b, of "\<lambda>s. grid_codes st \<subseteq> grid_codes s"])
         (auto simp: st1 grid_codes_def [of st1] grid_codes_def [of st] dest: save_found_codes(1))
    have "\<forall>f \<in> set found. \<forall>c \<in> snd ` set f. region_known (ps_db st') c"
    proof (rule traverse_all [OF b])
      show "\<forall>c \<in> snd ` set f. region_known (ps_db s') c" if "save_found now kr s = (Inr f, s')" for kr s f s'
      proof
        fix c
        assume "c \<in> snd ` set f"
        then show "region_known (ps_db s') c"
          using save_found_codes(2) [OF that refl _ refl] by (cases c) (simp_all add: known)
      qed
      show "\<forall>c \<in> snd ` set f. region_known (ps_db s') c"
        if "save_found now kr s = (r, s')" "\<forall>c \<in> snd ` set f. region_known (ps_db s) c" for kr s r s' f
        using save_found_codes(1) [OF that(1)] that(2) by (auto simp: known split: option.splits)
    qed
    moreover have "region_known (ps_db st') c" if "c \<in> snd ` set regions" for c
      using assms(2) [OF that] mono by (cases c) (auto simp: known)
    ultimately show ?thesis using mono unfolding r by auto
  qed
  then show "grid_codes st \<subseteq> grid_codes st'" and "c \<in> snd ` set regions' \<Longrightarrow> region_known (ps_db st') c" by blast+
qed


text \<open>An endpoint the store accepts, the AS number apart.\<close>

definition handed :: "db \<Rightarrow> string \<Rightarrow> endpoint \<Rightarrow> bool" where
  "handed db a e \<longleftrightarrow> e_address e = a \<and> region_known db (e_region_code e) \<and>
     (endpoint_ok e \<longleftrightarrow> (case e_asn e of None \<Rightarrow> True | Some n \<Rightarrow> 0 \<le> n \<and> n \<le> 4294967295))"

lemma handed_grows:
  "handed db a e \<Longrightarrow> g_code ` set (grid_regions db) \<subseteq> g_code ` set (grid_regions db') \<Longrightarrow> handed db' a e"
  by (auto simp: handed_def region_known_def split: option.splits)

lemma handed_bare: "handed db a (bare_endpoint a)"
  using bare_endpoint_ok [of a] by (simp add: handed_def region_known_def bare_endpoint_def)

lemma handed_located:
  assumes "storable l"
  shows "handed db a (located_endpoint now a l)"
  using assms
  by (auto simp: handed_def located_endpoint_def region_known_def storable_def endpoint_ok_def in_range_def
      split: option.splits)

lemma handed_stored: "db_ok db \<Longrightarrow> e \<in> set (endpoints db) \<Longrightarrow> handed db (e_address e) e"
  by (auto simp: handed_def db_ok_def endpoints_ok_def endpoint_ok_def)

lemma handed_set_region:
  assumes "handed db a e" and "\<And>c. c \<in> snd ` set regions \<Longrightarrow> region_known db c"
  shows "handed db a (set_region regions e)"
proof (cases "wants_region e \<and> map_of regions (endpoint_key e) \<noteq> None")
  case True
  then obtain c where c: "map_of regions (endpoint_key e) = Some c" by blast
  then have "region_known db c" using assms(2) by (force dest: map_of_SomeD)
  then show ?thesis using assms(1) True c by (simp add: set_region_def handed_def endpoint_ok_def)
next
  case False
  then show ?thesis using assms(1) by (auto simp: set_region_def)
qed

lemma pl_locate_handed: "pl_locate p now a st = (Inr e, st') \<Longrightarrow> handed db a e"
  by (auto simp: pl_locate_def handed_bare split: option.splits prod.splits sum.splits
      intro: handed_located locate_storable)

text \<open>The dict of endpoints: fresh ones from the cache, updated with those that were located.\<close>

lemma endpoint_dict:
  assumes "distinct (map fst fresh)" and "\<And>a e. (a, e) \<in> set fresh \<Longrightarrow> P a e" and "\<And>e. e \<in> set found \<Longrightarrow> P (e_address e) e"
  shows "distinct (map fst (fold (\<lambda>e. AList.update (e_address e) e) found fresh)) \<and>
    (\<forall>(a, e) \<in> set (fold (\<lambda>e. AList.update (e_address e) e) found fresh). P a e) \<and>
    fst ` set (fold (\<lambda>e. AList.update (e_address e) e) found fresh) = fst ` set fresh \<union> e_address ` set found"
  using assms
proof (induction found arbitrary: fresh)
  case (Cons x found)
  have d: "distinct (map fst (AList.update (e_address x) x fresh))" using Cons.prems(1) by (rule distinct_update)
  have "P a e" if "(a, e) \<in> set (AList.update (e_address x) x fresh)" for a e
  proof -
    have "map_of (AList.update (e_address x) x fresh) a = Some e" using d that by (simp add: map_of_eq_Some_iff)
    then show ?thesis using Cons.prems(2,3) by (auto simp: update_conv' split: if_splits dest: map_of_SomeD)
  qed
  from Cons.IH [OF d this] Cons.prems(3) show ?case by (auto simp: dom_update)
qed auto


lemma fresh_endpoints_dict:
  assumes "db_ok db"
  shows "distinct (map fst (fresh_endpoints now addresses d db))"
    and "(a, e) \<in> set (fresh_endpoints now addresses d db) \<Longrightarrow> handed db a e \<and> a \<in> addresses"
proof -
  have "map fst (fresh_endpoints now addresses d db) = map e_address (filter (\<lambda>e. e_address e \<in> addresses \<and>
      (case e_geo_updated_at e of None \<Rightarrow> False | Some t \<Rightarrow> t > now - days d)) (endpoints db))"
    by (simp add: fresh_endpoints_def comp_def)
  moreover have "unique_key e_address (endpoints db)" using assms by (simp add: db_ok_def endpoints_ok_def)
  ultimately show "distinct (map fst (fresh_endpoints now addresses d db))"
    using unique_key_filter by (simp add: unique_key_def)
  show "(a, e) \<in> set (fresh_endpoints now addresses d db) \<Longrightarrow> handed db a e \<and> a \<in> addresses"
    using handed_stored [OF assms] by (auto simp: fresh_endpoints_def)
qed

lemma cached_regions_known:
  "db_ok db \<Longrightarrow> c \<in> snd ` set (cached_regions now keys d db) \<Longrightarrow> region_known db c"
  by (auto simp: cached_regions_def db_ok_def locations_ok_def split: if_splits)

lemma traverse_locate:
  assumes "traverse (pl_locate p now) missing st = (Inr found, st')"
  shows "e_address ` set found = set missing" and "e \<in> set found \<Longrightarrow> handed db (e_address e) e"
proof -
  have all: "list_all2 (\<lambda>a e. handed db a e) missing found"
    using traverse_results [OF assms] by (rule list_all2_mono) (auto intro: pl_locate_handed)
  then have "map e_address found = missing"
    by (auto simp: list_all2_conv_all_nth handed_def intro: nth_equalityI)
  then show "e_address ` set found = set missing" by (metis list.set_map)
  show "e \<in> set found \<Longrightarrow> handed db (e_address e) e"
    using all by (auto simp: list_all2_conv_all_nth in_set_conv_nth handed_def)
qed

text \<open>
  C20: What the pipeline hands to the store fits the schema. It makes exactly one endpoint per
  measured address, under that address. Whatever IPinfo and WattTime send, its coordinates are
  both there and in range or both missing, its country code has two letters, and its region
  is known by the time the endpoint is stored; an endpoint is acceptable to the database
  unless its AS number is out of range, the one value that is not checked.
\<close>

theorem endpoints_fit_the_schema:
  assumes "db_ok (ps_db st)" and "finite addresses" and "pl_endpoints p now addresses st = (Inr eps, st')"
  shows "fst ` set eps = addresses \<and> distinct (map fst eps) \<and>
    (\<forall>(a, e) \<in> set eps. e_address e = a \<and> region_known (ps_db st') (e_region_code e) \<and>
      (endpoint_ok e \<longleftrightarrow> (case e_asn e of None \<Rightarrow> True | Some n \<Rightarrow> 0 \<le> n \<and> n \<le> 4294967295)))"
proof -
  define fresh where "fresh = fresh_endpoints now addresses (geo_max_age_days (pl_settings p)) (ps_db st)"
  define missing where "missing = sorted_list_of_set (addresses - fst ` set fresh)"
  obtain found st1 where f: "traverse (pl_locate p now) missing st = (Inr found, st1)"
    and a: "assign_regions p now (fold (\<lambda>e. AList.update (e_address e) e) found fresh) st1 = (Inr eps, st')"
    using assms(3) by (auto simp: pl_endpoints_def Let_def fresh_def missing_def split: prod.splits sum.splits)
  define dict where "dict = fold (\<lambda>e. AList.update (e_address e) e) found fresh"
  have db1: "ps_db st1 = ps_db st"
    by (rule traverse_invariant [OF f, of "\<lambda>s. ps_db s = ps_db st"]) (auto dest: pl_locate_db)
  note fr = fresh_endpoints_dict [OF assms(1), where now = now and addresses = addresses and
      d = "geo_max_age_days (pl_settings p)", folded fresh_def]
  have d: "distinct (map fst dict)" "\<forall>(a, e) \<in> set dict. handed (ps_db st1) a e"
    "fst ` set dict = fst ` set fresh \<union> e_address ` set found"
    using endpoint_dict [OF fr(1), of "handed (ps_db st1)" found] fr(2) traverse_locate(2) [OF f] db1
    by (auto simp: dict_def)
  have "fst ` set fresh \<subseteq> addresses" using fr(2) by force
  then have keys: "fst ` set dict = addresses"
    using d(3) traverse_locate(1) [OF f] assms(2) by (auto simp: missing_def)
  obtain regions' where l: "look_up_regions p now (set (map endpoint_key (filter wants_region (map snd dict))))
      (cached_regions now (set (map endpoint_key (filter wants_region (map snd dict))))
        (region_negative_days (pl_settings p)) (ps_db st1)) st1 = (Inr regions', st')"
    and eps: "eps = map (\<lambda>(a, e). (a, set_region regions' e)) dict"
    using a by (auto simp: assign_regions_def Let_def dict_def split: prod.splits sum.splits)
  have ok1: "db_ok (ps_db st1)" using assms(1) db1 by simp
  note k = look_up_regions_known [OF l cached_regions_known [OF ok1]]
  have "handed (ps_db st') a (set_region regions' e)" if "(a, e) \<in> set dict" for a e
  proof (rule handed_set_region)
    have "handed (ps_db st1) a e" using d(2) that by auto
    then show "handed (ps_db st') a e" by (rule handed_grows) (rule k(1) [unfolded grid_codes_def])
    show "\<And>c. c \<in> snd ` set regions' \<Longrightarrow> region_known (ps_db st') c" by (rule k(2))
  qed
  then have "\<forall>(a, e) \<in> set eps. handed (ps_db st') a e" unfolding eps by auto
  moreover have "map fst eps = map fst dict" unfolding eps by (simp add: comp_def split_def)
  then have "fst ` set eps = addresses" "distinct (map fst eps)"
    using keys d(1) by (metis list.set_map, metis)
  ultimately show ?thesis by (simp add: handed_def split_def)
qed


definition located_pipeline :: "string pipeline" where
  "located_pipeline = sample_pipeline\<lparr>pl_geolocator := Some \<lparr>geo_sources_of =
      [Mmdb (\<lambda>_. Some (JObj (core_layout (75 / 2) (- 245 / 2) ''Palo Alto'' ''us'' ''AS15169'' False)))],
      anycast_lookup = True\<rparr>\<rparr>"

lemma located_endpoints:
  "map_sum (\<lambda>_. ()) (map (\<lambda>(a, e). (a, e_lat e, e_country e, e_asn e)))
     (fst (pl_endpoints located_pipeline 7 {''192.0.2.1''} sample_pstate)) =
   Inr [(''192.0.2.1'', Some (75 / 2), Some ''US'', Some 15169)]"
  by code_simp

theorem endpoints_fit_the_schema_witness:
  "\<exists>e st'. pl_endpoints located_pipeline 7 {''192.0.2.1''} sample_pstate = (Inr [(''192.0.2.1'', e)], st') \<and>
     e_lat e = Some (75 / 2) \<and> endpoint_ok e \<and> region_known (ps_db st') (e_region_code e)"
proof -
  obtain r st' where r: "pl_endpoints located_pipeline 7 {''192.0.2.1''} sample_pstate = (r, st')"
    by (cases "pl_endpoints located_pipeline 7 {''192.0.2.1''} sample_pstate")
  then obtain e where e: "r = Inr [(''192.0.2.1'', e)]" "e_lat e = Some (75 / 2)" "e_asn e = Some 15169"
    using located_endpoints by (cases r) auto
  have "db_ok (ps_db sample_pstate)" using empty_db_ok by (simp add: sample_pstate_def)
  from endpoints_fit_the_schema [OF this _ r [unfolded e(1)]] show ?thesis using r e by simp
qed

end
