(* ===== verification/Worker_Service.thy ===== *)
theory Worker_Service
  imports Pipeline "HOL-Library.Multiset"
begin

text \<open>
  The worker (\<open>worker/service.py\<close>): it claims jobs up to its concurrency, measures each in a task
  of its own, and on shutdown releases what is still running. The tasks, the other clients of
  the queue and the arrival of the stop signal interleave in any order: the service is a step
  relation on the worker's state and the state of the pipeline. Whether the database can be
  reached at a step is part of the step. \<open>describe\<close> is the text of an exception. When steps
  happen (wake-ups, the listener, heartbeats) is left open here and modelled in \<open>Worker_Loop\<close>;
  log lines and counters are left out.
\<close>

section \<open>Operations\<close>

record Worker =
  w_id :: string
  concurrency :: int
  running :: "Job list"
  processed :: nat
  stopping :: bool

text \<open>\<open>_claim\<close>: the number of jobs, the worker and the database.\<close>

definition worker_claim ::
  "timestamp \<Rightarrow> QueuePolicy \<Rightarrow> string set \<Rightarrow> bool \<Rightarrow> Worker \<Rightarrow> db \<Rightarrow> nat \<times> Worker \<times> db" where
  "worker_claim now policy busy reachable w db =
     (let free = concurrency w - int (length (running w)) in
      if free \<le> 0 \<or> \<not> reachable then (0, w, db)
      else case claim now (w_id w) free policy busy db of (jobs, db') \<Rightarrow>
        (length jobs, w\<lparr>running := running w @ jobs\<rparr>, db'))"

text \<open>
  \<open>_process\<close> of a task that is not cancelled. The measurement runs at \<open>now\<close> and the queue is
  updated at \<open>now'\<close>. The flags say whether the task gets a connection, whether the statement
  after the measurement reaches the database, and whether, after an exception, recording the
  failure does.
\<close>

definition record_failure ::
  "bool \<Rightarrow> timestamp \<Rightarrow> Job \<Rightarrow> string \<Rightarrow> string \<Rightarrow> QueuePolicy \<Rightarrow> pstate \<Rightarrow> pstate" where
  "record_failure recorded now job worker err policy st =
     (if recorded then st\<lparr>ps_db := snd (fail now job worker err policy (ps_db st))\<rparr> else st)"

definition process ::
  "'n pipeline \<Rightarrow> QueuePolicy \<Rightarrow> (pipeline_error option \<Rightarrow> string) \<Rightarrow> timestamp \<Rightarrow> timestamp \<Rightarrow> bool \<Rightarrow> bool \<Rightarrow> bool \<Rightarrow>
   string \<Rightarrow> Job \<Rightarrow> pstate \<Rightarrow> pstate" where
  "process p policy describe now now' granted reach recorded worker job st =
     (if \<not> granted then record_failure recorded now' job worker (describe None) policy st
      else case measure_domain p now (j_domain job) st of
        (Inl e, st1) \<Rightarrow> record_failure recorded now' job worker (describe (Some e)) policy st1
      | (Inr m, st1) \<Rightarrow>
          if \<not> reach then record_failure recorded now' job worker (describe None) policy st1
          else if oc_status (m_outcome m) = Failed
          then st1\<lparr>ps_db := snd (fail now' job worker ''no definitive answer for A or AAAA'' policy (ps_db st1))\<rparr>
          else st1\<lparr>ps_db := complete job worker (ps_db st1)\<rparr>)"

text \<open>\<open>_release\<close>, and \<open>_done\<close> with the \<open>finally\<close> of \<open>_process\<close>.\<close>

definition release_job :: "bool \<Rightarrow> string \<Rightarrow> Job \<Rightarrow> db \<Rightarrow> db" where
  "release_job reachable worker job db = (if reachable then release job worker db else db)"

definition task_done :: "Job \<Rightarrow> Worker \<Rightarrow> Worker" where
  "task_done job w = w\<lparr>running := remove1 job (running w), processed := processed w + 1\<rparr>"

text \<open>
  What a measurement that is cancelled on its way leaves behind: caches and clients may have
  changed, and the cancellation may come after the measurement was stored. \<open>made\<close> is the
  measurement that was stored, if any.
\<close>

definition made :: "'n pipeline \<Rightarrow> timestamp \<Rightarrow> string \<Rightarrow> pstate \<Rightarrow> (timestamp \<times> Measurement) list" where
  "made p now domain st = (case measure_domain p now domain st of
      (Inl _, _) \<Rightarrow> [] | (Inr m, _) \<Rightarrow> [(now, m)])"

definition cut_short ::
  "'n pipeline \<Rightarrow> timestamp \<Rightarrow> Job \<Rightarrow> pstate \<Rightarrow> (timestamp \<times> Measurement) list \<Rightarrow> pstate \<Rightarrow> bool" where
  "cut_short p now job st ms st' \<longleftrightarrow>
     ms = [] \<and> sound (tables_of (ps_db st)) st' \<or>
     ms = made p now (j_domain job) st \<and> st' = snd (measure_domain p now (j_domain job) st)"

text \<open>
  \<open>_drain\<close> while the database can be reached: the tasks that finish in time, each with the times
  of its measurement and of its queue update, then the cancellation of the others. \<open>leave\<close> is
  what a cancelled measurement leaves behind.
\<close>

definition drain ::
  "'n pipeline \<Rightarrow> QueuePolicy \<Rightarrow> (pipeline_error option \<Rightarrow> string) \<Rightarrow> (Job \<Rightarrow> pstate \<Rightarrow> pstate) \<Rightarrow>
   (Job \<times> timestamp \<times> timestamp) list \<Rightarrow> Worker \<times> pstate \<Rightarrow> Worker \<times> pstate" where
  "drain p policy describe leave finished s =
     (let s' = fold (\<lambda>x (w, st). (task_done (fst x) w,
            process p policy describe (fst (snd x)) (snd (snd x)) True True True (w_id w) (fst x) st)) finished s
      in fold (\<lambda>job (w, st). (task_done job w,
            (leave job st)\<lparr>ps_db := release_job True (w_id w) job (ps_db (leave job st))\<rparr>)) (running (fst s')) s')"

text \<open>What another client of the queue does: it never acts under this worker's identity.\<close>

fun acts_for :: "string \<Rightarrow> queue_op \<Rightarrow> bool" where
  "acts_for w (Op_claim now worker limit busy) \<longleftrightarrow> worker = w"
| "acts_for w (Op_complete job worker) \<longleftrightarrow> worker = w"
| "acts_for w (Op_fail now job worker err) \<longleftrightarrow> worker = w"
| "acts_for w (Op_release job worker) \<longleftrightarrow> worker = w"
| "acts_for w _ \<longleftrightarrow> False"

section \<open>Steps\<close>

text \<open>
  What the worker does itself, with the measurements it stores, and any step, its own or another
  client's. With \<open>reliable\<close> the database is reached whenever a task ends, as in a normal shutdown.
\<close>

inductive worker_act ::
  "bool \<Rightarrow> 'n pipeline \<Rightarrow> QueuePolicy \<Rightarrow> (pipeline_error option \<Rightarrow> string) \<Rightarrow>
   Worker \<times> pstate \<Rightarrow> (timestamp \<times> Measurement) list \<Rightarrow> Worker \<times> pstate \<Rightarrow> bool"
  for reliable p policy describe where
  claims: "\<not> stopping w \<Longrightarrow> worker_claim now policy busy reach w (ps_db st) = (n, w', db') \<Longrightarrow>
    worker_act reliable p policy describe (w, st) [] (w', st\<lparr>ps_db := db'\<rparr>)"
| finishes: "job \<in> set (running w) \<Longrightarrow> reliable \<longrightarrow> reach \<and> recorded \<Longrightarrow>
    worker_act reliable p policy describe (w, st) (if granted then made p now (j_domain job) st else [])
      (task_done job w, process p policy describe now now' granted reach recorded (w_id w) job st)"
| stops: "worker_act reliable p policy describe (w, st) [] (w\<lparr>stopping := True\<rparr>, st)"
| cancels: "stopping w \<Longrightarrow> job \<in> set (running w) \<Longrightarrow> reliable \<longrightarrow> reach \<Longrightarrow> cut_short p now job st ms st1 \<Longrightarrow>
    worker_act reliable p policy describe (w, st) ms
      (task_done job w, st1\<lparr>ps_db := release_job reach (w_id w) job (ps_db st1)\<rparr>)"

inductive worker_step ::
  "bool \<Rightarrow> 'n pipeline \<Rightarrow> QueuePolicy \<Rightarrow> (pipeline_error option \<Rightarrow> string) \<Rightarrow> Worker \<times> pstate \<Rightarrow> Worker \<times> pstate \<Rightarrow> bool"
  for reliable p policy describe where
  own: "worker_act reliable p policy describe s ms t \<Longrightarrow> worker_step reliable p policy describe s t"
| others: "\<not> acts_for (w_id w) op \<Longrightarrow>
    worker_step reliable p policy describe (w, st) (w, st\<lparr>ps_db := act_queue policy' op (ps_db st)\<rparr>)"

inductive_cases worker_actE: "worker_act reliable p policy describe (w, st) ms (w', st')"

inductive worker_reaches ::
  "bool \<Rightarrow> 'n pipeline \<Rightarrow> QueuePolicy \<Rightarrow> (pipeline_error option \<Rightarrow> string) \<Rightarrow> Worker \<times> pstate \<Rightarrow> Worker \<times> pstate \<Rightarrow> bool"
  for reliable p policy describe s where
  here: "worker_reaches reliable p policy describe s s"
| further: "worker_reaches reliable p policy describe s t \<Longrightarrow> worker_step reliable p policy describe t u \<Longrightarrow>
    worker_reaches reliable p policy describe s u"

section \<open>Invariant\<close>

definition locked_for :: "string \<Rightarrow> db \<Rightarrow> string set" where
  "locked_for w db = {q_domain r | r. r \<in> set (measurement_queue db) \<and> q_locked_by r = Some w}"

definition worker_inv :: "bool \<Rightarrow> int \<Rightarrow> string \<Rightarrow> Worker \<times> pstate \<Rightarrow> bool" where
  "worker_inv reliable c i s \<longleftrightarrow> (case s of (w, st) \<Rightarrow>
     concurrency w = c \<and> w_id w = i \<and> int (length (running w)) \<le> max 0 c \<and>
     db_ok (ps_db st) \<and> queue_inv (ps_db st) \<and>
     (reliable \<longrightarrow> locked_for i (ps_db st) \<subseteq> j_domain ` set (running w)))"

lemma act_queue_tables:
  "settings (act_queue policy op db) = settings db \<and> domains (act_queue policy op db) = domains db \<and>
   next_domain_id (act_queue policy op db) = next_domain_id db \<and>
   grid_regions (act_queue policy op db) = grid_regions db \<and>
   carbon_signals (act_queue policy op db) = carbon_signals db \<and>
   endpoints (act_queue policy op db) = endpoints db \<and>
   rrset_records (act_queue policy op db) = rrset_records db \<and>
   location_regions (act_queue policy op db) = location_regions db"
  by (cases op)
     (auto simp: claim_def complete_def fail_def release_def Let_def split: sum.split prod.split dest: enqueue_frame)

lemma act_queue_ok:
  assumes "db_ok db" and "queue_inv db"
  shows "db_ok (act_queue policy op db)"
proof -
  have "queue_ok (act_queue policy op db)" using act_queue_inv [OF assms(2)] by (simp add: queue_inv_def)
  moreover have "region_known (act_queue policy op db) = region_known db"
    using act_queue_tables [of policy op db] by (intro region_known_cong) simp
  ultimately show ?thesis
    using assms(1) act_queue_tables [of policy op db]
    by (simp add: db_ok_def settings_ok_def domains_ok_def signals_ok_def endpoints_ok_def records_ok_def locations_ok_def)
qed

lemma locked_for_iff:
  assumes "queue_ok db"
  shows "d \<in> locked_for w db \<longleftrightarrow> (\<exists>r. find_row q_domain d (measurement_queue db) = Some r \<and> q_locked_by r = Some w)"
  using assms by (auto simp: locked_for_def queue_ok_def find_row_unique)


text \<open>Who is locked for the worker after an operation of its own, and of somebody else.\<close>

lemma locked_for_subset:
  assumes "queue_ok db" and "queue_ok db'"
    and "\<And>d r'. find_row q_domain d (measurement_queue db') = Some r' \<Longrightarrow> q_locked_by r' = Some w \<Longrightarrow>
      d \<in> extra \<or> (\<exists>r. find_row q_domain d (measurement_queue db) = Some r \<and> q_locked_by r = Some w \<and> d \<notin> gone)"
  shows "locked_for w db' \<subseteq> extra \<union> (locked_for w db - gone)"
proof
  fix d
  assume "d \<in> locked_for w db'"
  then obtain r' where "find_row q_domain d (measurement_queue db') = Some r'" "q_locked_by r' = Some w"
    using locked_for_iff [OF assms(2)] by blast
  from assms(3) [OF this] show "d \<in> extra \<union> (locked_for w db - gone)"
    using locked_for_iff [OF assms(1)] by blast
qed

lemma gives_up_look:
  assumes "queue_ok db" and "op = Op_complete job w \<or> op = Op_fail now job w err \<or> op = Op_release job w"
  obtains f where "\<And>r r'. f r = Some r' \<Longrightarrow> q_locked_by r' = None"
    "\<And>d. find_row q_domain d (measurement_queue (act_queue policy op db)) =
      (case find_row q_domain d (measurement_queue db) of
         None \<Rightarrow> None | Some r \<Rightarrow> if owned job w r then f r else Some r)"
  using assms(2)
proof (elim disjE)
  assume op: "op = Op_complete job w"
  show thesis by (rule that [of "\<lambda>_. None"]) (simp_all add: op complete_look [OF assms(1)])
next
  assume op: "op = Op_fail now job w err"
  let ?f = "\<lambda>r. r\<lparr>q_state := (if j_attempts job \<ge> max_attempts policy then QDead else QPending),
               q_next_attempt_at := now + secs (if j_attempts job \<ge> max_attempts policy
                 then dead_cooldown_seconds policy else retry_delay policy (j_attempts job)),
               q_last_error := Some (take 1000 err), q_locked_by := None, q_locked_at := None\<rparr>"
  show thesis
    by (rule that [of "\<lambda>r. Some (?f r)"]) (auto simp: op fail_look split: option.split)
next
  assume op: "op = Op_release job w"
  show thesis
    by (rule that [of "\<lambda>r. Some (r\<lparr>q_locked_by := None, q_locked_at := None, q_attempts := max 0 (q_attempts r - 1)\<rparr>)"])
       (auto simp: op release_look split: option.split)
qed

lemma locked_for_gives_up:
  assumes "queue_inv db" and "op = Op_complete job w \<or> op = Op_fail now job w err \<or> op = Op_release job w"
  shows "locked_for w (act_queue policy op db) \<subseteq> locked_for w db - {j_domain job}"
proof -
  have ok: "queue_ok db" "queue_ok (act_queue policy op db)"
    using assms(1) act_queue_inv [OF assms(1)] by (simp_all add: queue_inv_def)
  have "locked_for w (act_queue policy op db) \<subseteq> {} \<union> (locked_for w db - {j_domain job})"
  proof (rule locked_for_subset [OF ok])
    fix d r'
    assume r': "find_row q_domain d (measurement_queue (act_queue policy op db)) = Some r'" "q_locked_by r' = Some w"
    obtain f where f: "\<And>r r'. f r = Some r' \<Longrightarrow> q_locked_by r' = None"
      and look: "find_row q_domain d (measurement_queue (act_queue policy op db)) =
        (case find_row q_domain d (measurement_queue db) of
           None \<Rightarrow> None | Some r \<Rightarrow> if owned job w r then f r else Some r)"
      using gives_up_look [OF ok(1) assms(2), of policy] by metis
    obtain r where r: "find_row q_domain d (measurement_queue db) = Some r"
      using r'(1) look by (auto split: option.splits)
    have here: "(if owned job w r then f r else Some r) = Some r'" using r'(1) look r by simp
    have "\<not> owned job w r"
    proof
      assume "owned job w r"
      with here have "q_locked_by r' = None" using f by simp
      with r'(2) show False by simp
    qed
    then have "r' = r" "\<not> owned job w r" using here by simp_all
    moreover have "q_domain r = d" using r by (auto dest: find_row_SomeD)
    ultimately show "d \<in> {} \<or> (\<exists>r. find_row q_domain d (measurement_queue db) = Some r \<and> q_locked_by r = Some w \<and>
        d \<notin> {j_domain job})"
      using r r'(2) by (auto simp: owned_def)
  qed
  then show ?thesis by simp
qed

lemma locked_for_others:
  assumes "queue_inv db" and "\<not> acts_for w op"
  shows "locked_for w (act_queue policy op db) \<subseteq> locked_for w db"
proof -
  have ok: "queue_ok db" "queue_ok (act_queue policy op db)"
    using assms(1) act_queue_inv [OF assms(1)] by (simp_all add: queue_inv_def)
  have "locked_for w (act_queue policy op db) \<subseteq> {} \<union> (locked_for w db - {})"
  proof (rule locked_for_subset [OF ok])
    fix d r'
    assume r': "find_row q_domain d (measurement_queue (act_queue policy op db)) = Some r'" "q_locked_by r' = Some w"
    have "\<exists>r. find_row q_domain d (measurement_queue db) = Some r \<and> q_locked_by r = Some w"
    proof (cases op)
      case (Op_enqueue now names reason)
      then show ?thesis
        using r' ok(1)
        by (cases "enqueue now names reason db")
           (auto simp: enqueue_look new_job_def revive_def split: if_splits option.splits prod.splits)
    next
      case (Op_claim now v limit busy)
      then show ?thesis
        using r' assms(2) claim_look [OF surjective_pairing ok(1)]
        by (auto simp: claim_row_def split: if_splits)
    next
      case (Op_collect names)
      then show ?thesis
        using r' ok(1) by (auto simp: find_row_delete_where queue_ok_def split: option.splits if_splits)
    qed (use r' ok(1) in \<open>auto simp: complete_look fail_look release_look split: option.splits if_splits\<close>)
    then show "d \<in> {} \<or> (\<exists>r. find_row q_domain d (measurement_queue db) = Some r \<and> q_locked_by r = Some w \<and> d \<notin> {})"
      by simp
  qed
  then show ?thesis by simp
qed

lemma locked_for_claim:
  assumes "queue_inv db" and "claim now w limit policy busy db = (jobs, db')"
  shows "locked_for w db' \<subseteq> j_domain ` set jobs \<union> locked_for w db"
proof -
  have ok: "queue_ok db" "queue_ok db'"
    using assms(1) act_queue_inv [OF assms(1), of policy "Op_claim now w limit busy"] assms(2)
    by (simp_all add: queue_inv_def)
  have "locked_for w db' \<subseteq> j_domain ` set jobs \<union> (locked_for w db - {})"
    using claim_look [OF assms(2) ok(1)] by (intro locked_for_subset [OF ok]) auto
  then show ?thesis by simp
qed


section \<open>Every step keeps the invariant\<close>

text \<open>An operation by which a worker gives its job up.\<close>

definition gave_up :: "QueuePolicy \<Rightarrow> Job \<Rightarrow> string \<Rightarrow> db \<Rightarrow> db \<Rightarrow> bool" where
  "gave_up policy job worker db db' \<longleftrightarrow>
     (\<exists>op t err. (op = Op_complete job worker \<or> op = Op_fail t job worker err \<or> op = Op_release job worker) \<and>
        db' = act_queue policy op db)"

lemma gave_up_intros:
  "gave_up policy job worker db (complete job worker db)"
  "gave_up policy job worker db (snd (fail t job worker err policy db))"
  "gave_up policy job worker db (release job worker db)"
  unfolding gave_up_def by (metis act_queue.simps(3), metis act_queue.simps(4), metis act_queue.simps(5))

lemma gave_up_keeps:
  assumes "gave_up policy job worker db db'" and "db_ok db" and "queue_inv db"
  shows "db_ok db' \<and> queue_inv db' \<and> locked_for worker db' \<subseteq> locked_for worker db - {j_domain job}"
proof -
  obtain op t err where op: "op = Op_complete job worker \<or> op = Op_fail t job worker err \<or> op = Op_release job worker"
    and db: "db' = act_queue policy op db" using assms(1) by (auto simp: gave_up_def)
  show ?thesis
    using locked_for_gives_up [OF assms(3) op, of policy] act_queue_ok [OF assms(2,3), of policy op]
      act_queue_inv [OF assms(3), of policy op] unfolding db by blast
qed

lemma measured_queue:
  assumes "measure_domain p now d st = (r, st1)" and "db_ok (ps_db st)"
  shows "db_ok (ps_db st1) \<and> measurement_queue (ps_db st1) = measurement_queue (ps_db st)"
  using assms
proof (cases rule: measure_domain_cases)
  case (raised e)
  then show ?thesis by (simp add: sound_def tables_of_def)
next
  case (stored x st0)
  have "db_ok (ps_db st0)" "measurement_queue (ps_db st0) = measurement_queue (ps_db st)"
    using stored(2) by (simp_all add: sound_def tables_of_def)
  then show ?thesis
    using store_measurement_ok [OF stored(7)] store_measurement_endpoints(4) [OF _ stored(7)] by simp
qed

lemma cut_short_queue:
  assumes "cut_short p now job st ms st1" and "db_ok (ps_db st)"
  shows "db_ok (ps_db st1) \<and> measurement_queue (ps_db st1) = measurement_queue (ps_db st)"
  using assms measured_queue [OF surjective_pairing assms(2)]
  by (auto simp: cut_short_def sound_def tables_of_def)

lemma same_queue:
  assumes "measurement_queue db' = measurement_queue db"
  shows "queue_inv db' = queue_inv db" and "locked_for w db' = locked_for w db"
  using assms by (simp_all add: queue_inv_def queue_ok_def locked_for_def)

text \<open>What a finished task did to the queue: at most one such operation.\<close>

abbreviation attempted :: "bool \<Rightarrow> 'n pipeline \<Rightarrow> timestamp \<Rightarrow> Job \<Rightarrow> pstate \<Rightarrow> pstate" where
  "attempted granted p now job st \<equiv> (if granted then snd (measure_domain p now (j_domain job) st) else st)"

lemma process_cases:
  assumes "db_ok (ps_db st)"
  shows "db_ok (ps_db (attempted granted p now job st)) \<and>
    measurement_queue (ps_db (attempted granted p now job st)) = measurement_queue (ps_db st)"
  using measured_queue [OF surjective_pairing assms, of p now "j_domain job"] assms by simp

lemma process_ends:
  assumes "process p policy describe now now' granted reach recorded worker job st = st'"
  shows "ps_db st' = ps_db (attempted granted p now job st) \<and> \<not> (reach \<and> recorded) \<or>
    gave_up policy job worker (ps_db (attempted granted p now job st)) (ps_db st')"
  using assms unfolding process_def
  by (cases "measure_domain p now (j_domain job) st"; cases "fst (measure_domain p now (j_domain job) st)";
      cases granted; cases reach; cases recorded)
     (auto simp: record_failure_def gave_up_intros split: if_splits)

lemma process_steps:
  assumes "process p policy describe now now' granted reach recorded worker job st = st'"
    and "db_ok (ps_db st)" and "queue_inv (ps_db st)"
  shows "db_ok (ps_db st') \<and> queue_inv (ps_db st') \<and>
    locked_for worker (ps_db st') \<subseteq> locked_for worker (ps_db st) - (if reach \<and> recorded then {j_domain job} else {})"
proof -
  let ?st1 = "attempted granted p now job st"
  note m1 = process_cases [OF assms(2), of granted p now job]
  have inv1: "queue_inv (ps_db ?st1)" "locked_for worker (ps_db ?st1) = locked_for worker (ps_db st)"
    using assms(3) same_queue [of "ps_db ?st1" "ps_db st"] m1 by simp_all
  from process_ends [OF assms(1)]
  show ?thesis
  proof
    assume "ps_db st' = ps_db ?st1 \<and> \<not> (reach \<and> recorded)"
    then have e: "ps_db st' = ps_db ?st1" "(if reach \<and> recorded then {j_domain job} else {}) = {}" by simp_all
    show ?thesis unfolding e using m1 inv1 by simp
  next
    assume "gave_up policy job worker (ps_db ?st1) (ps_db st')"
    from gave_up_keeps [OF this _ inv1(1)] m1 inv1(2) show ?thesis by auto
  qed
qed

lemma running_task_done:
  assumes "A \<subseteq> j_domain ` set (running w) - {j_domain job}"
  shows "A \<subseteq> j_domain ` set (running (task_done job w))"
proof
  fix d
  assume "d \<in> A"
  then obtain x where "x \<in> set (running w)" "d = j_domain x" "x \<noteq> job" using assms by auto
  then show "d \<in> j_domain ` set (running (task_done job w))" by (simp add: task_done_def in_set_remove1)
qed

lemma task_done_fields [simp]:
  "concurrency (task_done job w) = concurrency w" "w_id (task_done job w) = w_id w"
  "length (running (task_done job w)) \<le> length (running w)"
  by (simp_all add: task_done_def length_remove1)

lemma worker_claim_length:
  assumes "worker_claim now policy busy reach w db = (n, w', db')" and "queue_ok db"
    and "int (length (running w)) \<le> max 0 (concurrency w)"
  shows "int (length (running w')) \<le> max 0 (concurrency w)"
proof -
  let ?free = "concurrency w - int (length (running w))"
  obtain jobs db'' where c: "claim now (w_id w) ?free policy busy db = (jobs, db'')"
    by (cases "claim now (w_id w) ?free policy busy db")
  have "length jobs \<le> nat ?free" if "0 < ?free"
    using claim_length [OF c assms(2) that] by (simp add: pick_def)
  then show ?thesis
    using assms(1,3) c by (auto simp: worker_claim_def Let_def split: if_splits)
qed

lemma worker_act_inv:
  assumes "worker_act reliable p policy describe s ms s'" and "worker_inv reliable c i s"
  shows "worker_inv reliable c i s'"
  using assms(1)
proof cases
  case (claims w now busy reach st n w' db')
  let ?free = "concurrency w - int (length (running w))"
  have inv: "concurrency w = c" "w_id w = i" "int (length (running w)) \<le> max 0 c" "db_ok (ps_db st)"
      "queue_inv (ps_db st)" "reliable \<Longrightarrow> locked_for i (ps_db st) \<subseteq> j_domain ` set (running w)"
    using assms(2) claims(1) by (simp_all add: worker_inv_def)
  have ok: "queue_ok (ps_db st)" using inv(5) by (simp add: queue_inv_def)
  have len: "int (length (running w')) \<le> max 0 c" using worker_claim_length [OF claims(5) ok] inv by simp
  show ?thesis
  proof (cases "?free \<le> 0 \<or> \<not> reach")
    case True
    then show ?thesis using claims(3,5) inv by (auto simp: worker_claim_def Let_def worker_inv_def)
  next
    case False
    then obtain jobs where cl: "claim now (w_id w) ?free policy busy (ps_db st) = (jobs, db')"
      and w': "w' = w\<lparr>running := running w @ jobs\<rparr>"
      using claims(5) by (auto simp: worker_claim_def Let_def split: prod.splits)
    have "db_ok db'" "queue_inv db'"
      using act_queue_ok [OF inv(4,5), of policy "Op_claim now (w_id w) ?free busy"]
        act_queue_inv [OF inv(5), of policy "Op_claim now (w_id w) ?free busy"] cl by simp_all
    then show ?thesis
      using claims(3) len w' inv locked_for_claim [OF inv(5) cl] by (auto simp: worker_inv_def)
  qed
next
  case (finishes job w reach recorded st granted now now')
  then have inv: "concurrency w = c" "w_id w = i" "int (length (running w)) \<le> max 0 c" "db_ok (ps_db st)"
      "queue_inv (ps_db st)" "reliable \<Longrightarrow> locked_for i (ps_db st) \<subseteq> j_domain ` set (running w)"
    using assms(2) by (simp_all add: worker_inv_def)
  note ps = process_steps [OF refl inv(4,5), of p policy describe now now' granted reach recorded "w_id w" job]
  have "locked_for i (ps_db (process p policy describe now now' granted reach recorded (w_id w) job st)) \<subseteq>
      j_domain ` set (running (task_done job w))" if reliable
    using ps inv(2) inv(6) [OF that] finishes(5) that by (intro running_task_done) auto
  moreover have "int (length (running (task_done job w))) \<le> max 0 c"
    using inv(3) task_done_fields(3) [of job w] by linarith
  ultimately show ?thesis using finishes(3) inv ps by (simp add: worker_inv_def)
next
  case (stops w st)
  then show ?thesis using assms(2) by (simp add: worker_inv_def)
next
  case (cancels w job reach now st st1)
  then have inv: "concurrency w = c" "w_id w = i" "int (length (running w)) \<le> max 0 c" "db_ok (ps_db st)"
      "queue_inv (ps_db st)" "reliable \<Longrightarrow> locked_for i (ps_db st) \<subseteq> j_domain ` set (running w)"
    using assms(2) by (simp_all add: worker_inv_def)
  let ?db = "release_job reach (w_id w) job (ps_db st1)"
  note left = cut_short_queue [OF cancels(6) inv(4)]
  have inv1: "queue_inv (ps_db st1)" "locked_for i (ps_db st1) = locked_for i (ps_db st)"
    using inv(5) same_queue [of "ps_db st1" "ps_db st"] left by simp_all
  note rel = gave_up_keeps [OF gave_up_intros(3) conjunct1 [OF left] inv1(1), of job "w_id w"]
  have db: "db_ok ?db \<and> queue_inv ?db" using left inv1(1) rel by (simp add: release_job_def)
  have "locked_for i ?db \<subseteq> j_domain ` set (running (task_done job w))" if reliable
    using rel inv(2) inv1(2) inv(6) [OF that] cancels(5) that by (intro running_task_done) (auto simp: release_job_def)
  moreover have "int (length (running (task_done job w))) \<le> max 0 c"
    using inv(3) task_done_fields(3) [of job w] by linarith
  ultimately show ?thesis using cancels(2) inv db by (simp add: worker_inv_def)
qed

lemma worker_step_inv:
  assumes "worker_step reliable p policy describe s s'" and "worker_inv reliable c i s"
  shows "worker_inv reliable c i s'"
  using assms(1)
proof cases
  case own
  then show ?thesis using worker_act_inv assms(2) by blast
next
  case (others w op st policy')
  then have inv: "concurrency w = c" "w_id w = i" "int (length (running w)) \<le> max 0 c" "db_ok (ps_db st)"
      "queue_inv (ps_db st)" "reliable \<Longrightarrow> locked_for i (ps_db st) \<subseteq> j_domain ` set (running w)"
    using assms(2) by (simp_all add: worker_inv_def)
  show ?thesis
    using others inv act_queue_ok [OF inv(4,5), of policy' op] act_queue_inv [OF inv(5), of policy' op]
      locked_for_others [OF inv(5), of i op policy'] by (auto simp: worker_inv_def)
qed

text \<open>What a worker does never locks a row for another one.\<close>

lemma worker_act_spares:
  assumes "worker_act reliable p policy describe s ms s'"
    and "db_ok (ps_db (snd s))" and "queue_inv (ps_db (snd s))" and "i \<noteq> w_id (fst s)"
  shows "locked_for i (ps_db (snd s')) \<subseteq> locked_for i (ps_db (snd s))"
proof -
  have spared: "locked_for i db' \<subseteq> locked_for i db"
    if gave: "gave_up policy job (w_id (fst s)) db db'" and inv: "queue_inv db" for db db' job
  proof -
    obtain op t err where "op = Op_complete job (w_id (fst s)) \<or> op = Op_fail t job (w_id (fst s)) err \<or> op = Op_release job (w_id (fst s))"
      "db' = act_queue policy op db" using gave by (auto simp: gave_up_def)
    then show ?thesis using inv assms(4) locked_for_others [of db i op policy] by auto
  qed
  have same: "locked_for i (ps_db st1) = locked_for i (ps_db (snd s)) \<and> queue_inv (ps_db st1)"
    if "measurement_queue (ps_db st1) = measurement_queue (ps_db (snd s))" for st1
    using same_queue [OF that] assms(3) by simp
  from assms(1) show ?thesis
  proof cases
    case (claims w now busy reach st n w' db')
    then show ?thesis
      using locked_for_others [OF assms(3), of i "Op_claim now (w_id w) (concurrency w - int (length (running w))) busy" policy] assms(4)
      by (auto simp: worker_claim_def Let_def split: if_splits prod.splits)
  next
    case (finishes job w reach recorded st granted now now')
    then have st: "snd s = st" "fst s = w" by simp_all
    note m = process_cases [OF assms(2), of granted p now job]
    show ?thesis
      using process_ends [OF refl, of p policy describe now now' granted reach recorded "w_id w" job st]
        spared same [OF conjunct2 [OF m]] finishes(3) unfolding st by fastforce
  next
    case (stops w st)
    then show ?thesis by simp
  next
    case (cancels w job reach now st st1)
    then have "locked_for i (ps_db st1) = locked_for i (ps_db (snd s)) \<and> queue_inv (ps_db st1)"
      using cut_short_queue [OF cancels(6)] assms(2) by (intro same) simp
    then show ?thesis
      using cancels(1,2) spared [OF gave_up_intros(3), of "ps_db st1" job] by (auto simp: release_job_def)
  qed
qed

lemma worker_reaches_inv:
  "worker_reaches reliable p policy describe s t \<Longrightarrow> worker_inv reliable c i s \<Longrightarrow> worker_inv reliable c i t"
  by (induction rule: worker_reaches.induct) (auto intro: worker_step_inv)

text \<open>A worker that has just started.\<close>

definition new_worker :: "string \<Rightarrow> int \<Rightarrow> Worker" where
  "new_worker i c = \<lparr>w_id = i, concurrency = c, running = [], processed = 0, stopping = False\<rparr>"

lemma new_worker_inv:
  assumes "db_ok (ps_db st)" and "queue_inv (ps_db st)" and "locked_for i (ps_db st) = {}"
  shows "worker_inv reliable c i (new_worker i c, st)"
  using assms by (simp add: worker_inv_def new_worker_def)

text \<open>
  The worker never runs more measurements than its concurrency allows, and what it does
  leaves database and queue consistent, whatever other clients of the queue do in between.
  If the database is reached whenever a task ends, every row that is locked for the worker is a
  job it is still running. So once a shutdown has waited for or cancelled every task, no row
  is left locked by it: nothing has to wait for a lock to time out.
\<close>

theorem worker_leaves_no_locks:
  assumes "worker_reaches reliable p policy describe (new_worker i c, st) (w, st')"
    and "db_ok (ps_db st)" and "queue_inv (ps_db st)" and "locked_for i (ps_db st) = {}"
  shows "int (length (running w)) \<le> max 0 c \<and> db_ok (ps_db st') \<and> queue_inv (ps_db st') \<and>
    (reliable \<longrightarrow> locked_for i (ps_db st') \<subseteq> j_domain ` set (running w)) \<and>
    (reliable \<longrightarrow> running w = [] \<longrightarrow> (\<forall>r \<in> set (measurement_queue (ps_db st')). q_locked_by r \<noteq> Some i))"
proof -
  have inv: "worker_inv reliable c i (w, st')"
    using worker_reaches_inv [OF assms(1) new_worker_inv [OF assms(2-4)]] .
  then have "\<forall>r \<in> set (measurement_queue (ps_db st')). q_locked_by r \<noteq> Some i" if "reliable" "running w = []"
    using that by (auto simp: worker_inv_def locked_for_def)
  then show ?thesis using inv by (simp add: worker_inv_def)
qed

text \<open>Ending tasks one after another, however they end.\<close>

lemma end_tasks:
  assumes "\<And>x w st. worker_inv True c i (w, st) \<Longrightarrow> stopping w \<Longrightarrow> f x \<in> set (running w) \<Longrightarrow>
      worker_step True p policy describe (w, st) (task_done (f x) w, g x w st)"
    and "worker_inv True c i (w, st)" and "stopping w" and "mset (map f xs) \<subseteq># mset (running w)"
    and "fold (\<lambda>x (w, st). (task_done (f x) w, g x w st)) xs (w, st) = (w', st')"
  shows "worker_inv True c i (w', st') \<and> stopping w' \<and> mset (running w') = mset (running w) - mset (map f xs) \<and>
    processed w' = processed w + length xs"
  using assms(2-)
proof (induction xs arbitrary: w st)
  case (Cons x xs)
  have x: "f x \<in> set (running w)" using Cons.prems(3) by (auto dest: mset_subset_eqD)
  have inv: "worker_inv True c i (task_done (f x) w, g x w st)"
    using assms(1) [OF Cons.prems(1,2) x] Cons.prems(1) by (rule worker_step_inv)
  have less: "mset (map f xs) \<subseteq># mset (running (task_done (f x) w))"
    using Cons.prems(3) by (simp add: task_done_def insert_subset_eq_iff)
  have "fold (\<lambda>x (w, st). (task_done (f x) w, g x w st)) xs (task_done (f x) w, g x w st) = (w', st')"
    using Cons.prems(4) by simp
  from Cons.IH [OF inv _ less this] show ?case
    using Cons.prems(2) by (auto simp: task_done_def)
qed simp

lemma drain_empties:
  assumes "worker_inv True c i (w, st)" and "stopping w" and "mset (map fst finished) \<subseteq># mset (running w)"
    and "\<And>job st. db_ok (ps_db st) \<Longrightarrow> \<exists>now ms. cut_short p now job st ms (leave job st)"
    and "drain p policy describe leave finished (w, st) = (w', st')"
  shows "worker_inv True c i (w', st') \<and> running w' = [] \<and> processed w' = processed w + length (running w)"
proof -
  let ?F = "\<lambda>x (w, st). (task_done (fst x) w,
      process p policy describe (fst (snd x)) (snd (snd x)) True True True (w_id w) (fst x) st)"
  obtain w1 st1 where f: "fold ?F finished (w, st) = (w1, st1)" by (cases "fold ?F finished (w, st)")
  have one: "worker_inv True c i (w1, st1) \<and> stopping w1 \<and> mset (running w1) = mset (running w) - mset (map fst finished) \<and>
      processed w1 = processed w + length finished"
    by (rule end_tasks [where f = fst and g = "\<lambda>x w st. process p policy describe (fst (snd x)) (snd (snd x)) True True True (w_id w) (fst x) st",
          OF _ assms(1-3) f]) (auto intro: own finishes)
  have two: "worker_inv True c i (w', st') \<and> stopping w' \<and> mset (running w') = mset (running w1) - mset (map (\<lambda>j. j) (running w1)) \<and>
      processed w' = processed w1 + length (running w1)"
  proof (rule end_tasks [where f = "\<lambda>j. j" and g = "\<lambda>job w st. (leave job st)\<lparr>ps_db := release_job True (w_id w) job (ps_db (leave job st))\<rparr>"])
    show "worker_inv True c i (w1, st1)" "stopping w1" using one by simp_all
    show "fold (\<lambda>job (w, st). (task_done job w, (leave job st)\<lparr>ps_db := release_job True (w_id w) job (ps_db (leave job st))\<rparr>))
        (running w1) (w1, st1) = (w', st')"
      using assms(5) f by (simp add: drain_def)
    show "worker_step True p policy describe (v, s)
        (task_done j v, (leave j s)\<lparr>ps_db := release_job True (w_id v) j (ps_db (leave j s))\<rparr>)"
      if "worker_inv True c i (v, s)" "stopping v" "j \<in> set (running v)" for j v s
      using that assms(4) [of s j] by (auto simp: worker_inv_def intro: own cancels)
  qed simp
  have "length finished + size (mset (running w) - mset (map fst finished)) = length (running w)"
    using assms(3) by (metis le_add_diff_inverse length_map size_Diff_submset size_mset size_mset_mono)
  then have "processed w1 + length (running w1) = processed w + length (running w)"
    using one by (metis add.assoc size_mset)
  then show ?thesis using two by simp
qed


text \<open>A worker that claims the only job, is told to stop, and cancels it.\<close>

definition waiting_db :: db where
  "waiting_db = empty_db\<lparr>measurement_queue := [new_job 0 Miss ''a.net''], notifications := 1\<rparr>"

lemma waiting_db_ok: "db_ok waiting_db" "queue_inv waiting_db" "locked_for w waiting_db = {}"
proof -
  have w: "act_queue default_policy (Op_enqueue 0 [''a.net''] Miss) empty_db = waiting_db" by code_simp
  have e: "queue_inv empty_db" by (simp add: queue_inv_def queue_ok_def empty_db_def unique_key_def)
  show "db_ok waiting_db" "queue_inv waiting_db"
    using act_queue_ok [OF empty_db_ok e] act_queue_inv [OF e] unfolding w [symmetric] by blast+
  show "locked_for w waiting_db = {}" by (simp add: locked_for_def waiting_db_def new_job_def)
qed

lemma waiting_claimed:
  "worker_claim 5 default_policy {} True (new_worker ''w'' 4) waiting_db =
     (1, (new_worker ''w'' 4)\<lparr>running := [\<lparr>j_domain = ''a.net'', j_reason = Miss, j_attempts = 1\<rparr>]\<rparr>,
      waiting_db\<lparr>measurement_queue := [claim_row 5 ''w'' (new_job 0 Miss ''a.net'')]\<rparr>)"
  by code_simp

lemma waiting_worker_stops:
  "worker_reaches True sample_pipeline default_policy (\<lambda>_. []) (new_worker ''w'' 4, sample_pstate\<lparr>ps_db := waiting_db\<rparr>)
     ((new_worker ''w'' 4)\<lparr>running := [\<lparr>j_domain = ''a.net'', j_reason = Miss, j_attempts = 1\<rparr>], stopping := True\<rparr>,
      sample_pstate\<lparr>ps_db := waiting_db\<lparr>measurement_queue := [claim_row 5 ''w'' (new_job 0 Miss ''a.net'')]\<rparr>\<rparr>)"
proof -
  let ?R = "worker_reaches True sample_pipeline default_policy (\<lambda>_. []) (new_worker ''w'' 4, sample_pstate\<lparr>ps_db := waiting_db\<rparr>)"
  let ?w1 = "(new_worker ''w'' 4)\<lparr>running := [\<lparr>j_domain = ''a.net'', j_reason = Miss, j_attempts = 1\<rparr>]\<rparr>"
  let ?db1 = "waiting_db\<lparr>measurement_queue := [claim_row 5 ''w'' (new_job 0 Miss ''a.net'')]\<rparr>"
  have "?R (?w1, sample_pstate\<lparr>ps_db := ?db1\<rparr>)"
    using further [OF here own [OF claims [of "new_worker ''w'' 4" 5 default_policy "{}" True "sample_pstate\<lparr>ps_db := waiting_db\<rparr>" 1 ?w1 ?db1]]]
      waiting_claimed by (simp add: new_worker_def)
  from further [OF this own [OF stops]] show ?thesis by simp
qed


theorem worker_leaves_no_locks_witness:
  "\<exists>w st'. worker_reaches True sample_pipeline default_policy (\<lambda>_. []) (new_worker ''w'' 4, sample_pstate\<lparr>ps_db := waiting_db\<rparr>) (w, st') \<and>
     stopping w \<and> processed w = 1 \<and> running w = [] \<and> (\<forall>r \<in> set (measurement_queue (ps_db st')). q_locked_by r \<noteq> Some ''w'')"
proof -
  let ?R = "worker_reaches True sample_pipeline default_policy (\<lambda>_. []) (new_worker ''w'' 4, sample_pstate\<lparr>ps_db := waiting_db\<rparr>)"
  let ?job = "\<lparr>j_domain = ''a.net'', j_reason = Miss, j_attempts = 1\<rparr>"
  let ?w1 = "(new_worker ''w'' 4)\<lparr>running := [?job]\<rparr>"
  let ?db1 = "waiting_db\<lparr>measurement_queue := [claim_row 5 ''w'' (new_job 0 Miss ''a.net'')]\<rparr>"
  let ?st1 = "sample_pstate\<lparr>ps_db := ?db1\<rparr>"
  note ok = waiting_db_ok
  have 2: "?R (?w1\<lparr>stopping := True\<rparr>, ?st1)" using waiting_worker_stops by simp
  have db1: "db_ok ?db1" using act_queue_ok [OF ok(1,2), of default_policy "Op_claim 5 ''w'' 4 {}"] waiting_claimed
    by (auto simp: worker_claim_def new_worker_def split: prod.splits)
  have "cut_short sample_pipeline 6 ?job ?st1 [] ?st1" using db1 by (simp add: cut_short_def sound_def)
  then have 3: "?R (task_done ?job (?w1\<lparr>stopping := True\<rparr>), ?st1\<lparr>ps_db := release_job True ''w'' ?job ?db1\<rparr>)"
    using further [OF 2 own [OF cancels [of "?w1\<lparr>stopping := True\<rparr>" ?job True True sample_pipeline 6 ?st1 "[]" ?st1]]]
    by (simp add: new_worker_def)
  let ?w3 = "task_done ?job (?w1\<lparr>stopping := True\<rparr>)"
  have w3: "stopping ?w3" "processed ?w3 = 1" "running ?w3 = []" by (simp_all add: task_done_def new_worker_def)
  have "\<forall>r \<in> set (measurement_queue (ps_db (?st1\<lparr>ps_db := release_job True ''w'' ?job ?db1\<rparr>))). q_locked_by r \<noteq> Some ''w''"
    using worker_leaves_no_locks [OF 3] ok w3(3) by simp
  with 3 w3 show ?thesis by blast
qed

end
