(* ===== verification/Monitor_Service.thy ===== *)
theory Monitor_Service
  imports Prelude
begin

text \<open>
  The monitor service (\<open>monitor/service.py\<close>): the loop that runs the periodic jobs. Its state is
  the schedules, the number of runs of each job and the monotonic clock. Outside are how long a
  job takes when started at a time, when the stop event is set, and how much longer than asked
  a sleep takes. A job that raises counts as a run like any other; what jobs do is in
  \<open>Monitor_Tasks\<close>. The heartbeat and log lines are left out. The loop is run for a number of
  passes; a theorem shows that with a stop time finitely many are enough.
\<close>

section \<open>Schedules\<close>

record Schedule =
  sc_name :: string
  interval_seconds :: rat
  next_run :: rat

record Monitor =
  schedules :: "Schedule list"
  job_runs :: "(string \<times> nat) list"
  mono_clock :: rat

record monitor_env =
  job_time :: "string \<Rightarrow> rat \<Rightarrow> rat"
  stop_time :: "rat option"
  sleep_late :: "rat \<Rightarrow> rat"

definition new_schedule :: "string \<Rightarrow> rat \<Rightarrow> Schedule" where
  "new_schedule name d = \<lparr>sc_name = name, interval_seconds = d, next_run = 0\<rparr>"

definition new_monitor :: "Schedule list \<Rightarrow> rat \<Rightarrow> Monitor" where
  "new_monitor ss start = \<lparr>schedules = ss, job_runs = map (\<lambda>s. (sc_name s, 0)) ss, mono_clock = start\<rparr>"

definition stopped :: "monitor_env \<Rightarrow> rat \<Rightarrow> bool" where
  "stopped env t = (case stop_time env of None \<Rightarrow> False | Some s \<Rightarrow> s \<le> t)"

definition runs_of :: "(string \<times> nat) list \<Rightarrow> string \<Rightarrow> nat" where
  "runs_of runs name = (case map_of runs name of None \<Rightarrow> 0 | Some n \<Rightarrow> n)"

section \<open>The loop\<close>

text \<open>The \<open>for\<close> loop of one pass that started at \<open>now\<close>.\<close>

fun run_due ::
  "monitor_env \<Rightarrow> rat \<Rightarrow> Schedule list \<Rightarrow> (string \<times> nat) list \<Rightarrow> rat \<Rightarrow>
   Schedule list \<times> (string \<times> nat) list \<times> rat" where
  "run_due env now [] runs t = ([], runs, t)"
| "run_due env now (s # ss) runs t =
     (if stopped env t \<or> next_run s > now
      then (let (ss', runs', t') = run_due env now ss runs t in (s # ss', runs', t'))
      else
        let t1 = t + job_time env (sc_name s) t;
            runs1 = AList.update (sc_name s) (runs_of runs (sc_name s) + 1) runs;
            s1 = s\<lparr>next_run := max (next_run s + interval_seconds s) t1\<rparr>;
            (ss', runs', t') = run_due env now ss runs1 t1
        in (s1 # ss', runs', t'))"

text \<open>\<open>Clock.sleep\<close>: until the time has passed or the stop event is set.\<close>

definition clock_sleep :: "monitor_env \<Rightarrow> rat \<Rightarrow> rat \<Rightarrow> rat" where
  "clock_sleep env d t =
     (let wake = t + max 0 d + sleep_late env t in
      case stop_time env of None \<Rightarrow> wake | Some s \<Rightarrow> if s \<le> t then t else min wake s)"

text \<open>One pass of the \<open>while\<close> loop; without a schedule \<open>min\<close> raises.\<close>

definition monitor_pass :: "monitor_env \<Rightarrow> Monitor \<Rightarrow> Monitor option" where
  "monitor_pass env m =
     (case run_due env (mono_clock m) (schedules m) (job_runs m) (mono_clock m) of (ss, runs, t) \<Rightarrow>
        if ss = [] then None
        else Some \<lparr>schedules = ss, job_runs = runs,
                   mono_clock = clock_sleep env (Min (next_run ` set ss) - t) t\<rparr>)"

fun monitor_run :: "nat \<Rightarrow> monitor_env \<Rightarrow> Monitor \<Rightarrow> Monitor option" where
  "monitor_run 0 env m = Some m"
| "monitor_run (Suc n) env m =
     (if stopped env (mono_clock m) then Some m
      else case monitor_pass env m of None \<Rightarrow> None | Some m' \<Rightarrow> monitor_run n env m')"

section \<open>One pass\<close>

definition env_ok :: "monitor_env \<Rightarrow> bool" where
  "env_ok env \<longleftrightarrow> (\<forall>name t. 0 \<le> job_time env name t) \<and> (\<forall>t. 0 \<le> sleep_late env t)"

lemma run_due_clock: "run_due env now ss runs t = (ss', runs', t') \<Longrightarrow> env_ok env \<Longrightarrow> t \<le> t'"
proof (induction ss arbitrary: runs t ss')
  case (Cons s ss)
  show ?case
  proof (cases "stopped env t \<or> next_run s > now")
    case True
    then show ?thesis using Cons by (auto split: prod.splits)
  next
    case False
    then have "t + job_time env (sc_name s) t \<le> t'" using Cons by (auto simp: Let_def split: prod.splits)
    moreover have "0 \<le> job_time env (sc_name s) t" using Cons.prems(2) by (simp add: env_ok_def)
    ultimately show ?thesis by linarith
  qed
qed simp

text \<open>
  A schedule before and after a pass: it was skipped, or it was due, ran once, and is next due
  an interval later or, if that is past, at the end of the run.
\<close>

definition advanced :: "monitor_env \<Rightarrow> rat \<Rightarrow> rat \<Rightarrow> (string \<times> nat) list \<Rightarrow> (string \<times> nat) list \<Rightarrow> Schedule \<Rightarrow> Schedule \<Rightarrow> bool" where
  "advanced env now t' runs runs' s s' \<longleftrightarrow> sc_name s' = sc_name s \<and> interval_seconds s' = interval_seconds s \<and>
     (s' = s \<and> runs_of runs' (sc_name s) = runs_of runs (sc_name s) \<and> (stopped env t' \<or> now < next_run s) \<or>
      next_run s \<le> now \<and> runs_of runs' (sc_name s) = Suc (runs_of runs (sc_name s)) \<and>
      (\<exists>t1. now \<le> t1 \<and> t1 \<le> t' \<and> next_run s' = max (next_run s + interval_seconds s) t1))"

lemma stopped_mono: "stopped env t \<Longrightarrow> t \<le> t' \<Longrightarrow> stopped env t'"
  by (auto simp: stopped_def split: option.splits)

lemma runs_of_update [simp]: "runs_of (AList.update k v xs) n = (if n = k then v else runs_of xs n)"
  by (simp add: runs_of_def update_conv')

lemma run_due_runs_other:
  "run_due env now ss runs t = (ss', runs', t') \<Longrightarrow> n \<notin> sc_name ` set ss \<Longrightarrow> runs_of runs' n = runs_of runs n"
proof (induction ss arbitrary: runs t ss')
  case (Cons s ss)
  then show ?case
    by (cases "stopped env t \<or> next_run s > now") (auto simp: Let_def split: prod.splits)
qed simp

lemma run_due_advances:
  "run_due env now ss runs t = (ss', runs', t') \<Longrightarrow> env_ok env \<Longrightarrow> distinct (map sc_name ss) \<Longrightarrow> now \<le> t \<Longrightarrow>
   list_all2 (advanced env now t' runs runs') ss ss'"
proof (induction ss arbitrary: runs t ss')
  case (Cons s ss)
  have nin: "sc_name s \<notin> sc_name ` set ss" and d: "distinct (map sc_name ss)" using Cons.prems(3) by auto
  show ?case
  proof (cases "stopped env t \<or> next_run s > now")
    case True
    then obtain ss'' where r: "run_due env now ss runs t = (ss'', runs', t')" "ss' = s # ss''"
      using Cons.prems(1) by (auto split: prod.splits)
    have "stopped env t' \<or> now < next_run s"
      using True stopped_mono run_due_clock [OF r(1) Cons.prems(2)] by blast
    then have "advanced env now t' runs runs' s s"
      using run_due_runs_other [OF r(1) nin] by (simp add: advanced_def)
    then show ?thesis using Cons.IH [OF r(1) Cons.prems(2) d Cons.prems(4)] r(2) by simp
  next
    case False
    let ?t1 = "t + job_time env (sc_name s) t"
    let ?runs1 = "AList.update (sc_name s) (runs_of runs (sc_name s) + 1) runs"
    obtain ss'' where r: "run_due env now ss ?runs1 ?t1 = (ss'', runs', t')"
      "ss' = s\<lparr>next_run := max (next_run s + interval_seconds s) ?t1\<rparr> # ss''"
      using Cons.prems(1) False by (auto simp: Let_def split: prod.splits)
    have le: "now \<le> ?t1" using Cons.prems(2,4) by (simp add: env_ok_def add_increasing2)
    have "list_all2 (advanced env now t' ?runs1 runs') ss ss''"
      using Cons.IH [OF r(1) Cons.prems(2) d le] .
    moreover have "advanced env now t' ?runs1 runs' x y = advanced env now t' runs runs' x y" if "x \<in> set ss" for x y
    proof -
      have "sc_name x \<noteq> sc_name s" using nin that by (metis imageI)
      then show ?thesis by (simp add: advanced_def)
    qed
    ultimately have "list_all2 (advanced env now t' runs runs') ss ss''"
      by (auto elim: list.rel_mono_strong)
    moreover have "?t1 \<le> t'" using run_due_clock [OF r(1) Cons.prems(2)] .
    then have "advanced env now t' runs runs' s (s\<lparr>next_run := max (next_run s + interval_seconds s) ?t1\<rparr>)"
      using False le run_due_runs_other [OF r(1) nin]
      unfolding advanced_def by (intro conjI disjI2) (auto intro!: exI [of _ ?t1])
    ultimately show ?thesis using r(2) by simp
  qed
qed simp


section \<open>Rate and progress\<close>

lemma clock_sleep_bounds:
  assumes "env_ok env"
  shows "t \<le> clock_sleep env d t" and "stopped env (clock_sleep env d t) \<or> t + d \<le> clock_sleep env d t"
proof -
  have late: "0 \<le> sleep_late env t" using assms by (simp add: env_ok_def)
  show "t \<le> clock_sleep env d t"
    using late by (auto simp: clock_sleep_def Let_def max_def split: option.split)
  show "stopped env (clock_sleep env d t) \<or> t + d \<le> clock_sleep env d t"
    using late by (auto simp: clock_sleep_def Let_def stopped_def max_def min_def split: option.split)
qed

text \<open>The invariant of the loop, for a service that started at \<open>start\<close>.\<close>

definition on_schedule :: "rat \<Rightarrow> rat \<Rightarrow> (string \<times> nat) list \<Rightarrow> Schedule \<Rightarrow> bool" where
  "on_schedule start t runs s \<longleftrightarrow> 0 < interval_seconds s \<and> (let k = runs_of runs (sc_name s) in
     (0 < k \<longrightarrow> start + of_nat (k - 1) * interval_seconds s \<le> next_run s) \<and>
     of_nat (k - 2) * interval_seconds s \<le> t - start)"

definition monitor_inv :: "rat \<Rightarrow> Monitor \<Rightarrow> bool" where
  "monitor_inv start m \<longleftrightarrow> distinct (map sc_name (schedules m)) \<and> schedules m \<noteq> [] \<and> start \<le> mono_clock m \<and>
     (\<forall>s \<in> set (schedules m). on_schedule start (mono_clock m) (job_runs m) s)"

definition some_due :: "Monitor \<Rightarrow> bool" where
  "some_due m \<longleftrightarrow> (\<exists>s \<in> set (schedules m). next_run s \<le> mono_clock m)"

definition all_runs :: "Monitor \<Rightarrow> nat" where
  "all_runs m = sum_list (map (\<lambda>s. runs_of (job_runs m) (sc_name s)) (schedules m))"

lemma on_schedule_advanced:
  assumes "on_schedule start now runs s" and "advanced env now t runs runs' s s'" and "start \<le> now" and "now \<le> t'"
  shows "on_schedule start t' runs' s'"
proof -
  let ?k = "runs_of runs (sc_name s)" and ?i = "interval_seconds s"
  have i: "0 < ?i" and a: "0 < ?k \<Longrightarrow> start + of_nat (?k - 1) * ?i \<le> next_run s"
    and b: "of_nat (?k - 2) * ?i \<le> now - start"
    using assms(1) by (auto simp: on_schedule_def Let_def)
  have same: "sc_name s' = sc_name s" "interval_seconds s' = ?i" using assms(2) by (simp_all add: advanced_def)
  consider (skip) "s' = s" "runs_of runs' (sc_name s) = ?k"
    | (ran) t1 where "next_run s \<le> now" "runs_of runs' (sc_name s) = Suc ?k" "now \<le> t1"
        "next_run s' = max (next_run s + ?i) t1"
    using assms(2) by (auto simp: advanced_def)
  then show ?thesis
  proof cases
    case skip
    then show ?thesis using i a b assms(4) by (auto simp: on_schedule_def Let_def)
  next
    case (ran t1)
    have "start + of_nat ?k * ?i \<le> next_run s'"
    proof (cases "?k = 0")
      case True
      then show ?thesis using ran(3,4) assms(3) by simp
    next
      case False
      then have "of_nat ?k * ?i = of_nat (?k - 1) * ?i + ?i"
        by (cases ?k) (simp_all add: algebra_simps)
      then show ?thesis using a False ran(4) by simp
    qed
    moreover have "of_nat (Suc ?k - 2) * ?i \<le> t' - start"
    proof (cases "?k = 0")
      case True
      then show ?thesis using assms(3,4) by simp
    next
      case False
      then have "start + of_nat (?k - 1) * ?i \<le> now" using a ran(1) by simp
      moreover have "Suc ?k - 2 = ?k - 1" by simp
      ultimately show ?thesis using assms(4) by simp
    qed
    ultimately show ?thesis using i ran(2) same by (simp add: on_schedule_def Let_def)
  qed
qed

lemma all_runs_advanced:
  assumes "list_all2 (advanced env now t runs runs') ss ss'" and "\<not> stopped env t"
  shows "sum_list (map (\<lambda>s. runs_of runs (sc_name s)) ss) + length (filter (\<lambda>s. next_run s \<le> now) ss) \<le>
    sum_list (map (\<lambda>s. runs_of runs' (sc_name s)) ss')"
  using assms by (induction rule: list_all2_induct) (auto simp: advanced_def)

lemma monitor_pass_inv:
  assumes "env_ok env" and "monitor_inv start m"
  obtains m' where "monitor_pass env m = Some m'" "monitor_inv start m'"
    "stopped env (mono_clock m') \<or> some_due m'"
    "stopped env (mono_clock m') \<or> \<not> some_due m \<or> Suc (all_runs m) \<le> all_runs m'"
proof -
  let ?now = "mono_clock m"
  obtain ss runs t where r: "run_due env ?now (schedules m) (job_runs m) ?now = (ss, runs, t)"
    by (cases "run_due env ?now (schedules m) (job_runs m) ?now")
  have inv: "distinct (map sc_name (schedules m))" "schedules m \<noteq> []" "start \<le> ?now"
    "\<And>s. s \<in> set (schedules m) \<Longrightarrow> on_schedule start ?now (job_runs m) s"
    using assms(2) by (simp_all add: monitor_inv_def)
  have adv: "list_all2 (advanced env ?now t (job_runs m) runs) (schedules m) ss"
    using run_due_advances [OF r assms(1) inv(1)] by simp
  have ss: "ss \<noteq> []" using adv inv(2) by auto
  have names: "map sc_name ss = map sc_name (schedules m)"
    using adv by (induction rule: list_all2_induct) (auto simp: advanced_def)
  define d where "d = Min (next_run ` set ss) - t"
  define m' where "m' = \<lparr>schedules = ss, job_runs = runs, mono_clock = clock_sleep env d t\<rparr>"
  have t: "?now \<le> t" using run_due_clock [OF r assms(1)] .
  have t': "t \<le> mono_clock m'" using clock_sleep_bounds(1) [OF assms(1)] by (simp add: m'_def)
  have pass: "monitor_pass env m = Some m'" using r ss by (simp add: monitor_pass_def m'_def d_def)
  have "on_schedule start (mono_clock m') runs s'" if "s' \<in> set ss" for s'
  proof -
    obtain s where s: "s \<in> set (schedules m)" "advanced env ?now t (job_runs m) runs s s'"
      using adv \<open>s' \<in> set ss\<close> by (metis in_set_conv_nth list_all2_conv_all_nth)
    show ?thesis
      using on_schedule_advanced [OF inv(4) [OF s(1)] s(2) inv(3)] order_trans [OF t t'] by blast
  qed
  then have "monitor_inv start m'"
    using inv ss names t t' by (auto simp: monitor_inv_def m'_def)
  moreover have "stopped env (mono_clock m') \<or> some_due m'"
  proof -
    have "Min (next_run ` set ss) \<in> next_run ` set ss" using ss by simp
    then obtain s where "s \<in> set ss" "next_run s = t + d" by (auto simp: d_def)
    then show ?thesis using clock_sleep_bounds(2) [OF assms(1), of d t] unfolding m'_def some_due_def by force
  qed
  moreover have "Suc (all_runs m) \<le> all_runs m'" if "\<not> stopped env (mono_clock m')" "some_due m"
  proof -
    have "\<not> stopped env t" using that(1) t' stopped_mono by blast
    moreover have "0 < length (filter (\<lambda>s. next_run s \<le> ?now) (schedules m))"
      using that(2) by (auto simp: some_due_def filter_empty_conv)
    ultimately have "all_runs m + 1 \<le> all_runs m'"
      using all_runs_advanced [OF adv] unfolding all_runs_def m'_def Monitor.select_convs by linarith
    then show ?thesis by simp
  qed
  ultimately show thesis using that [OF pass] by blast
qed


lemma monitor_run_inv:
  assumes "env_ok env" and "monitor_inv start m"
  shows "\<exists>m'. monitor_run n env m = Some m' \<and> monitor_inv start m' \<and>
    (some_due m \<longrightarrow> stopped env (mono_clock m') \<or> some_due m' \<and> all_runs m + n \<le> all_runs m')"
  using assms(2)
proof (induction n arbitrary: m)
  case (Suc n)
  show ?case
  proof (cases "stopped env (mono_clock m)")
    case True
    then show ?thesis using Suc.prems by auto
  next
    case False
    obtain m1 where m1: "monitor_pass env m = Some m1" "monitor_inv start m1"
      "stopped env (mono_clock m1) \<or> some_due m1"
      "stopped env (mono_clock m1) \<or> \<not> some_due m \<or> Suc (all_runs m) \<le> all_runs m1"
      using monitor_pass_inv [OF assms(1) Suc.prems] by blast
    obtain m' where m': "monitor_run n env m1 = Some m'" "monitor_inv start m'"
      "some_due m1 \<longrightarrow> stopped env (mono_clock m') \<or> some_due m' \<and> all_runs m1 + n \<le> all_runs m'"
      using Suc.IH [OF m1(2)] by blast
    have "monitor_run n env m1 = Some m1" if "stopped env (mono_clock m1)" using that by (cases n) simp_all
    then show ?thesis using False m1 m' by fastforce
  qed
qed auto

lemma run_due_schedules:
  "run_due env now ss runs t = (ss', runs', t') \<Longrightarrow>
   map (\<lambda>s. (sc_name s, interval_seconds s)) ss' = map (\<lambda>s. (sc_name s, interval_seconds s)) ss"
  by (induction ss arbitrary: runs t ss') (auto simp: Let_def split: if_splits prod.splits)

lemma monitor_run_schedules:
  "monitor_run n env m = Some m' \<Longrightarrow>
   map (\<lambda>s. (sc_name s, interval_seconds s)) (schedules m') = map (\<lambda>s. (sc_name s, interval_seconds s)) (schedules m)"
proof (induction n arbitrary: m)
  case (Suc n)
  then show ?case
    by (auto simp: monitor_pass_def run_due_schedules split: if_splits option.splits prod.splits)
qed simp

lemma all_runs_bounded:
  assumes "monitor_inv start m" and "mono_clock m \<le> T" and "0 < d"
    and "\<And>s. s \<in> set (schedules m) \<Longrightarrow> d \<le> interval_seconds s"
  shows "all_runs m \<le> length (schedules m) * (2 + nat \<lceil>(T - start) / d\<rceil>)"
proof -
  have "runs_of (job_runs m) (sc_name s) \<le> 2 + nat \<lceil>(T - start) / d\<rceil>" if "s \<in> set (schedules m)" for s
  proof -
    let ?k = "runs_of (job_runs m) (sc_name s)"
    have "of_nat (?k - 2) * interval_seconds s \<le> mono_clock m - start"
      using assms(1) that by (auto simp: monitor_inv_def on_schedule_def Let_def)
    moreover have "of_nat (?k - 2) * d \<le> of_nat (?k - 2) * interval_seconds s"
      using assms(4) [OF that] by (intro mult_left_mono) simp_all
    ultimately have "of_nat (?k - 2) * d \<le> T - start" using assms(2) by linarith
    then have "of_nat (?k - 2) \<le> (T - start) / d" using assms(3) by (simp add: pos_le_divide_eq)
    then have "int (?k - 2) \<le> \<lceil>(T - start) / d\<rceil>"
      by (metis ceiling_mono ceiling_of_int of_int_of_nat_eq)
    then show ?thesis by linarith
  qed
  then have "sum_list (map (\<lambda>s. runs_of (job_runs m) (sc_name s)) (schedules m)) \<le>
      sum_list (map (\<lambda>s. 2 + nat \<lceil>(T - start) / d\<rceil>) (schedules m))"
    by (intro sum_list_mono) blast
  then show ?thesis by (simp add: all_runs_def sum_list_triv)
qed

lemma new_monitor_inv:
  assumes "distinct (map sc_name ss)" and "ss \<noteq> []" and "\<forall>s \<in> set ss. 0 < interval_seconds s"
  shows "monitor_inv start (new_monitor ss start)"
proof -
  have "runs_of (map (\<lambda>s. (sc_name s, 0)) ss) n = 0" for n
    by (auto simp: runs_of_def split: option.split dest!: map_of_SomeD)
  then show ?thesis using assms by (simp add: monitor_inv_def new_monitor_def on_schedule_def)
qed


text \<open>
  C40: The monitor stops. Once the stop event is set at some time, finitely many passes of the
  loop are enough to leave it, whatever the jobs do, as long as there is a job and intervals
  are positive: the loop cannot spin without either running a job or letting time pass.
\<close>

theorem monitor_stops:
  assumes "env_ok env" and "stop_time env = Some T" and "distinct (map sc_name ss)" and "ss \<noteq> []"
    and "\<forall>s \<in> set ss. 0 < interval_seconds s \<and> next_run s \<le> start"
  shows "\<exists>n m. monitor_run n env (new_monitor ss start) = Some m \<and> stopped env (mono_clock m)"
proof (rule ccontr)
  assume no: "\<not> ?thesis"
  let ?m0 = "new_monitor ss start"
  have inv: "monitor_inv start ?m0" using assms(3-5) by (intro new_monitor_inv) auto
  have "some_due ?m0" using assms(4,5) by (cases ss) (auto simp: some_due_def new_monitor_def)
  then have run: "\<exists>m. monitor_run n env ?m0 = Some m \<and> monitor_inv start m \<and> \<not> stopped env (mono_clock m) \<and> n \<le> all_runs m" for n
    using monitor_run_inv [OF assms(1) inv, of n] no by fastforce
  define d where "d = Min (interval_seconds ` set ss)"
  have d: "0 < d" "\<And>s. s \<in> set ss \<Longrightarrow> d \<le> interval_seconds s" using assms(4,5) by (simp_all add: d_def)
  define n where "n = Suc (length ss * (2 + nat \<lceil>(T - start) / d\<rceil>))"
  obtain m where m: "monitor_run n env ?m0 = Some m" "monitor_inv start m" "\<not> stopped env (mono_clock m)" "n \<le> all_runs m"
    using run by blast
  have ss: "map (\<lambda>s. (sc_name s, interval_seconds s)) (schedules m) = map (\<lambda>s. (sc_name s, interval_seconds s)) ss"
    using monitor_run_schedules [OF m(1)] by (simp add: new_monitor_def)
  have "map interval_seconds (schedules m) = map interval_seconds ss"
    using arg_cong [OF ss, of "map snd"] by (simp add: comp_def)
  then have "interval_seconds ` set (schedules m) = interval_seconds ` set ss" "length (schedules m) = length ss"
    by (metis list.set_map, metis length_map)
  then have "all_runs m \<le> length ss * (2 + nat \<lceil>(T - start) / d\<rceil>)"
    using all_runs_bounded [OF m(2), of T d] m(3) assms(2) d by (force simp: stopped_def)
  then show False using m(4) by (simp add: n_def)
qed


text \<open>A scan of one second every five, on a machine that has been up for a hundred.\<close>

definition scan_env :: "rat option \<Rightarrow> monitor_env" where
  "scan_env stop = \<lparr>job_time = (\<lambda>_ _. 1), stop_time = stop, sleep_late = (\<lambda>_. 0)\<rparr>"

lemma scan_env_ok: "env_ok (scan_env stop)"
  by (simp add: env_ok_def scan_env_def)

text \<open>The second run starts right after the first: the clock was past the first due time.\<close>

lemma scan_runs:
  "monitor_run 2 (scan_env None) (new_monitor [new_schedule ''expiry-scan'' 5] 100) =
     Some \<lparr>schedules = [(new_schedule ''expiry-scan'' 5)\<lparr>next_run := 106\<rparr>],
           job_runs = [(''expiry-scan'', 2)], mono_clock = 106\<rparr>"
  by code_simp


theorem monitor_stops_witness:
  "\<exists>n m. monitor_run n (scan_env (Some 120)) (new_monitor [new_schedule ''expiry-scan'' 5] 100) = Some m \<and>
     stopped (scan_env (Some 120)) (mono_clock m)"
  using monitor_stops [OF scan_env_ok [of "Some 120"], of 120 "[new_schedule ''expiry-scan'' 5]" 100]
  by (simp add: scan_env_def new_schedule_def)

end
