(* ===== verification/Monitor_Tasks.thy ===== *)
theory Monitor_Tasks
  imports Answer_Policy Queue_Pg
begin

text \<open>
  The jobs of the monitor (\<open>monitor/tasks.py\<close>): the scan for expiring domains, the refresh of
  carbon signals and the garbage collection. \<open>now\<close> is the wall clock the job is given;
  statements that use the database clock take it as \<open>db_now\<close>. The source of the signals is
  threaded through as a state \<open>'w\<close> with an operation \<open>moer\<close>, of which the refresh needs the law
  of the locale \<open>moer_source\<close>. The locale \<open>batch_delete\<close> is the contract of a DELETE with a LIMIT.
\<close>

section \<open>Expiry scan\<close>

record FreshnessPolicy =
  activity_window_seconds :: int
  lead_seconds :: int
  min_remeasure_seconds :: int

definition default_freshness :: FreshnessPolicy where
  "default_freshness = \<lparr>activity_window_seconds = 3600, lead_seconds = 15, min_remeasure_seconds = 10\<rparr>"

definition domain_rows :: "db \<Rightarrow> domain_row \<Rightarrow> rrset_row list" where
  "domain_rows db d = filter (\<lambda>r. r_domain_id r = d_id d) (rrset_records db)"

definition served_until :: "db \<Rightarrow> domain_row \<Rightarrow> timestamp option" where
  "served_until db d = sql_min (per_type (domain_rows db d))"

definition active :: "timestamp \<Rightarrow> int \<Rightarrow> domain_row \<Rightarrow> bool" where
  "active now window d = (case d_last_queried_at d of None \<Rightarrow> False | Some t \<Rightarrow> t > now - secs window)"

definition expiring :: "timestamp \<Rightarrow> FreshnessPolicy \<Rightarrow> db \<Rightarrow> domain_row \<Rightarrow> bool" where
  "expiring now policy db d \<longleftrightarrow>
     (case served_until db d of None \<Rightarrow> False | Some t \<Rightarrow> t < now + secs (lead_seconds policy)) \<and>
     active now (activity_window_seconds policy) d \<and>
     (case d_retry_after d of None \<Rightarrow> True | Some t \<Rightarrow> t \<le> now) \<and>
     (case d_measured_at d of None \<Rightarrow> True | Some t \<Rightarrow> t \<le> now - secs (min_remeasure_seconds policy))"

definition expiring_domains :: "timestamp \<Rightarrow> FreshnessPolicy \<Rightarrow> db \<Rightarrow> string list" where
  "expiring_domains now policy db =
     map d_name (sort_key (\<lambda>d. (the (served_until db d), d_name d))
       (filter (expiring now policy db) (domains db)))"

definition scan_expiring ::
  "timestamp \<Rightarrow> timestamp \<Rightarrow> FreshnessPolicy \<Rightarrow> db \<Rightarrow> db_error + (string list \<times> db)" where
  "scan_expiring db_now now policy db = enqueue db_now (expiring_domains now policy db) Expired db"

section \<open>Carbon refresh\<close>

text \<open>
  \<open>epoch % period\<close> has the sign of the period, as \<open>mod\<close> has; a period of zero raises.
\<close>

definition slot_start :: "timestamp \<Rightarrow> int \<Rightarrow> timestamp option" where
  "slot_start now period_seconds =
     (if period_seconds = 0 then None else Some (now - now mod secs period_seconds))"

definition active_regions :: "timestamp \<Rightarrow> int \<Rightarrow> db \<Rightarrow> string list" where
  "active_regions now window_seconds db =
     remdups (concat (map (\<lambda>d. concat (map (\<lambda>r. concat (map (\<lambda>e.
         if e_address e = r_address r \<and> \<not> e_is_anycast e
         then (case e_region_code e of None \<Rightarrow> [] | Some c \<Rightarrow> [c]) else [])
         (endpoints db))) (domain_rows db d)))
       (filter (active now window_seconds) (domains db))))"

definition latest_point :: "db \<Rightarrow> string \<Rightarrow> timestamp option" where
  "latest_point db code =
     sql_max (map s_point_time (filter (\<lambda>s. s_region_code s = code) (carbon_signals db)))"

definition lacks_point :: "db \<Rightarrow> timestamp \<Rightarrow> string \<Rightarrow> bool" where
  "lacks_point db slot code = (case latest_point db code of None \<Rightarrow> True | Some t \<Rightarrow> t < slot)"

definition regions_due :: "timestamp \<Rightarrow> int \<Rightarrow> int \<Rightarrow> db \<Rightarrow> string list option" where
  "regions_due now window_seconds period_seconds db =
     map_option (\<lambda>slot. sort (filter (lacks_point db slot) (active_regions now window_seconds db)))
       (slot_start now period_seconds)"

record CarbonRefresh =
  stored :: "(string \<times> timestamp) list"
  unavailable :: "string list"

datatype refresh_error = Refresh_db db_error | Refresh_client py_error | ZeroDivision

text \<open>
  The loop over the regions; each signal is committed on its own. Of the exceptions of the
  client only \<open>WattTimeError\<close> is caught.
\<close>

fun refresh_loop ::
  "('w \<Rightarrow> string \<Rightarrow> (client_error + Signal option) \<times> 'w) \<Rightarrow> timestamp \<Rightarrow> string set \<Rightarrow>
   string list \<Rightarrow> CarbonRefresh \<Rightarrow> 'w \<Rightarrow> db \<Rightarrow> (refresh_error + CarbonRefresh) \<times> 'w \<times> db" where
  "refresh_loop moer db_now skip [] acc w db = (Inr acc, w, db)"
| "refresh_loop moer db_now skip (code # codes) acc w db =
     (if code \<in> skip then refresh_loop moer db_now skip codes acc w db
      else
        case moer w code of
          (Inl (WattTime _), w') \<Rightarrow> refresh_loop moer db_now skip codes acc w' db
        | (Inl (Unexpected e), w') \<Rightarrow> (Inl (Refresh_client e), w', db)
        | (Inr None, w') \<Rightarrow>
            refresh_loop moer db_now skip codes (acc\<lparr>unavailable := unavailable acc @ [code]\<rparr>) w' db
        | (Inr (Some signal), w') \<Rightarrow>
            (case save_signal db_now signal db of
               Inl e \<Rightarrow> (Inl (Refresh_db e), w', db)
             | Inr db' \<Rightarrow>
                 refresh_loop moer db_now skip codes
                   (acc\<lparr>stored := AList.update code (sg_point_time signal) (stored acc)\<rparr>) w' db'))"

definition refresh_carbon ::
  "('w \<Rightarrow> string \<Rightarrow> (client_error + Signal option) \<times> 'w) \<Rightarrow> timestamp \<Rightarrow> timestamp \<Rightarrow> int \<Rightarrow> int \<Rightarrow>
   string set \<Rightarrow> 'w \<Rightarrow> db \<Rightarrow> (refresh_error + CarbonRefresh) \<times> 'w \<times> db" where
  "refresh_carbon moer db_now now window_seconds period_seconds skip w db =
     (case regions_due now window_seconds period_seconds db of
        None \<Rightarrow> (Inl ZeroDivision, w, db)
      | Some codes \<Rightarrow> refresh_loop moer db_now skip codes \<lparr>stored = [], unavailable = []\<rparr> w db)"

section \<open>Garbage collection\<close>

record RetentionPolicy =
  domain_days :: int
  endpoint_days :: int
  carbon_history_days :: int
  batch_size :: int

definition default_retention :: RetentionPolicy where
  "default_retention = \<lparr>domain_days = 7, endpoint_days = 30, carbon_history_days = 30, batch_size = 1000\<rparr>"

record GcResult =
  gc_domains :: nat
  gc_endpoints :: nat
  gc_signals :: nat
  gc_dead_jobs :: nat

text \<open>
  \<open>DELETE ... WHERE key IN (SELECT key ... WHERE P LIMIT limit)\<close>: the number of deleted rows,
  their keys and the rows that are left.
\<close>

definition delete_limited :: "('r \<Rightarrow> 'k) \<Rightarrow> ('r \<Rightarrow> bool) \<Rightarrow> int \<Rightarrow> 'r list \<Rightarrow> nat \<times> 'k list \<times> 'r list" where
  "delete_limited key P limit t =
     (let ks = map key (take (nat limit) (filter P t))
      in (length (filter (\<lambda>r. key r \<in> set ks) t), ks, delete_where (\<lambda>r. key r \<in> set ks) t))"

text \<open>
  The loop: \<open>None\<close> when it does not end. PostgreSQL refuses a negative LIMIT.
\<close>

partial_function (option) delete_in_batches ::
  "('s \<Rightarrow> nat \<times> 's) \<Rightarrow> int \<Rightarrow> nat \<Rightarrow> 's \<Rightarrow> (db_error + nat \<times> 's) option" where
  "delete_in_batches delete limit sofar s =
     (if limit < 0 then Some (Inl DataError)
      else case delete s of (deleted, s') \<Rightarrow>
        if int deleted < limit then Some (Inr (sofar + deleted, s'))
        else delete_in_batches delete limit (sofar + deleted) s')"

definition coalesce :: "'a option \<Rightarrow> 'a \<Rightarrow> 'a" where
  "coalesce x y = (case x of None \<Rightarrow> y | Some v \<Rightarrow> v)"

definition old_domain :: "timestamp \<Rightarrow> domain_row \<Rightarrow> bool" where
  "old_domain cutoff d \<longleftrightarrow> coalesce (d_last_queried_at d) (d_first_seen_at d) < cutoff"

definition delete_domains :: "timestamp \<Rightarrow> int \<Rightarrow> db \<Rightarrow> nat \<times> db" where
  "delete_domains cutoff limit db =
     (case delete_limited d_id (old_domain cutoff) limit (domains db) of (n, ids, t) \<Rightarrow>
        (n, db\<lparr>domains := t, rrset_records := delete_where (\<lambda>r. r_domain_id r \<in> set ids) (rrset_records db)\<rparr>))"

definition forgotten_job :: "timestamp \<Rightarrow> db \<Rightarrow> queue_row \<Rightarrow> bool" where
  "forgotten_job cutoff db q \<longleftrightarrow> q_state q = QDead \<and> q_enqueued_at q < cutoff \<and>
     \<not> (\<exists>d \<in> set (domains db). d_name d = q_domain q)"

definition delete_dead_jobs :: "timestamp \<Rightarrow> int \<Rightarrow> db \<Rightarrow> nat \<times> db" where
  "delete_dead_jobs cutoff limit db =
     (case delete_limited q_domain (forgotten_job cutoff db) limit (measurement_queue db) of (n, _, t) \<Rightarrow>
        (n, db\<lparr>measurement_queue := t\<rparr>))"

definition orphaned :: "timestamp \<Rightarrow> db \<Rightarrow> endpoint \<Rightarrow> bool" where
  "orphaned cutoff db e \<longleftrightarrow> (case e_geo_updated_at e of None \<Rightarrow> True | Some t \<Rightarrow> t < cutoff) \<and>
     \<not> (\<exists>r \<in> set (rrset_records db). r_address r = e_address e)"

definition delete_endpoints :: "timestamp \<Rightarrow> int \<Rightarrow> db \<Rightarrow> nat \<times> db" where
  "delete_endpoints cutoff limit db =
     (case delete_limited e_address (orphaned cutoff db) limit (endpoints db) of (n, _, t) \<Rightarrow>
        (n, db\<lparr>endpoints := t\<rparr>))"

definition superseded :: "timestamp \<Rightarrow> db \<Rightarrow> signal_row \<Rightarrow> bool" where
  "superseded cutoff db s \<longleftrightarrow> s_point_time s < cutoff \<and>
     (case latest_point db (s_region_code s) of None \<Rightarrow> False | Some t \<Rightarrow> s_point_time s < t)"

definition delete_signals :: "timestamp \<Rightarrow> int \<Rightarrow> db \<Rightarrow> nat \<times> db" where
  "delete_signals cutoff limit db =
     (case delete_limited signal_key (superseded cutoff db) limit (carbon_signals db) of (n, _, t) \<Rightarrow>
        (n, db\<lparr>carbon_signals := t\<rparr>))"

text \<open>One batched DELETE after another: the first error, or loop without end, is the result.\<close>

definition and_then :: "(db_error + 'a) option \<Rightarrow> ('a \<Rightarrow> (db_error + 'b) option) \<Rightarrow> (db_error + 'b) option" where
  "and_then x k = (case x of None \<Rightarrow> None | Some (Inl e) \<Rightarrow> Some (Inl e) | Some (Inr a) \<Rightarrow> k a)"

definition collect_garbage :: "timestamp \<Rightarrow> RetentionPolicy \<Rightarrow> db \<Rightarrow> (db_error + GcResult \<times> db) option" where
  "collect_garbage now policy db =
     (let domain_cutoff = now - days (domain_days policy); limit = batch_size policy in
      and_then (delete_in_batches (delete_domains domain_cutoff limit) limit 0 db) (\<lambda>(ndomains, db1).
      and_then (delete_in_batches (delete_dead_jobs domain_cutoff limit) limit 0 db1) (\<lambda>(njobs, db2).
      and_then (delete_in_batches (delete_endpoints (now - days (endpoint_days policy)) limit) limit 0 db2)
        (\<lambda>(nendpoints, db3).
      and_then (if carbon_history_days policy > 0
                then delete_in_batches (delete_signals (now - days (carbon_history_days policy)) limit) limit 0 db3
                else Some (Inr (0, db3))) (\<lambda>(nsignals, db4).
      Some (Inr (\<lparr>gc_domains = ndomains, gc_endpoints = nendpoints, gc_signals = nsignals,
                  gc_dead_jobs = njobs\<rparr>, db4)))))))"


section \<open>A DELETE in batches\<close>

text \<open>
  The contract of one statement with a LIMIT on a state: it deletes as many victims as the
  limit allows and only victims, so the state without any victim, \<open>purged\<close>, stays the same.
\<close>

locale batch_delete =
  fixes delete :: "int \<Rightarrow> 's \<Rightarrow> nat \<times> 's"
    and victims :: "'s \<Rightarrow> nat"
    and purged :: "'s \<Rightarrow> 's"
    and invar :: "'s \<Rightarrow> bool"
  assumes deleted: "invar s \<Longrightarrow> 0 \<le> limit \<Longrightarrow> fst (delete limit s) = min (nat limit) (victims s)"
    and remaining: "invar s \<Longrightarrow> 0 \<le> limit \<Longrightarrow> victims (snd (delete limit s)) = victims s - nat limit"
    and purged_delete: "invar s \<Longrightarrow> 0 \<le> limit \<Longrightarrow> purged (snd (delete limit s)) = purged s"
    and purged_none: "invar s \<Longrightarrow> victims s = 0 \<Longrightarrow> purged s = s"
    and invar_delete: "invar s \<Longrightarrow> 0 \<le> limit \<Longrightarrow> invar (snd (delete limit s))"
begin

lemma all_deleted:
  assumes "0 < limit" and "invar s"
  shows "delete_in_batches (delete limit) limit n s = Some (Inr (n + victims s, purged s))"
    and "invar (purged s)"
proof -
  have "delete_in_batches (delete limit) limit n s = Some (Inr (n + victims s, purged s)) \<and> invar (purged s)"
    using assms(2)
  proof (induction "victims s" arbitrary: s n rule: less_induct)
    case less
    obtain k s' where d: "delete limit s = (k, s')" by (cases "delete limit s")
    have k: "k = min (nat limit) (victims s)" and left: "victims s' = victims s - nat limit"
      and p: "purged s' = purged s" and i: "invar s'"
      using deleted [OF less.prems, of limit] remaining [OF less.prems, of limit]
        purged_delete [OF less.prems, of limit] invar_delete [OF less.prems, of limit] assms(1) d
      by simp_all
    show ?case
    proof (cases "int k < limit")
      case True
      then have "k = victims s" "victims s' = 0" using k left by linarith+
      then have "purged s' = s'" using purged_none [OF i] by simp
      then show ?thesis
        using True d p i assms(1) \<open>k = victims s\<close> by (simp add: delete_in_batches.simps)
    next
      case False
      then have "k = nat limit" "nat limit \<le> victims s" using k assms(1) by linarith+
      then have "victims s' < victims s" using left assms(1) by linarith
      note ih = less.hyps [OF this i, of "n + k"]
      have "delete_in_batches (delete limit) limit n s = delete_in_batches (delete limit) limit (n + k) s'"
        using False d assms(1) by (subst delete_in_batches.simps) simp
      moreover have "n + k + victims s' = n + victims s"
        using left \<open>k = nat limit\<close> \<open>nat limit \<le> victims s\<close> by simp
      ultimately show ?thesis using ih p by simp
    qed
  qed
  then show "delete_in_batches (delete limit) limit n s = Some (Inr (n + victims s, purged s))"
    and "invar (purged s)" by simp_all
qed

end

text \<open>A LIMIT of zero never ends: nothing is deleted and zero is not below the limit.\<close>

lemma no_limit_diverges: "delete_in_batches delete 0 n s = None"
proof (rule ccontr)
  assume "delete_in_batches delete 0 n s \<noteq> None"
  then obtain r where "delete_in_batches delete 0 n s = Some r" by auto
  moreover have "delete_in_batches delete l n s = Some r \<Longrightarrow> l \<noteq> 0" for l :: int and r
    by (erule delete_in_batches.raw_induct [rotated, where P = "\<lambda>_ l _ _ _. l \<noteq> 0"])
       (auto split: prod.splits if_splits)
  ultimately show False by blast
qed


subsection \<open>The four statements\<close>

lemma filter_notin_take: "distinct xs \<Longrightarrow> filter (\<lambda>x. x \<notin> set (take n xs)) xs = drop n xs"
proof -
  assume d: "distinct xs"
  then have "set (take n xs) \<inter> set (drop n xs) = {}"
    by (metis append_take_drop_id distinct_append)
  then have "filter (\<lambda>x. x \<notin> set (take n xs)) (drop n xs) = drop n xs"
    "filter (\<lambda>x. x \<notin> set (take n xs)) (take n xs) = []"
    by (auto simp: filter_empty_conv disjoint_iff intro!: filter_True)
  then show ?thesis by (metis append_Nil append_take_drop_id filter_append)
qed

lemma delete_limited_eq:
  fixes P :: "'r \<Rightarrow> bool" and limit :: int
  assumes "unique_key key t"
  defines "gone \<equiv> set (take (nat limit) (filter P t))"
  shows "delete_limited key P limit t =
      (min (nat limit) (length (filter P t)), map key (take (nat limit) (filter P t)),
       delete_where (\<lambda>r. r \<in> gone) t)" (is ?eq)
    and "filter P (delete_where (\<lambda>r. r \<in> gone) t) = drop (nat limit) (filter P t)"
    and "delete_where P (delete_where (\<lambda>r. r \<in> gone) t) = delete_where P t"
proof -
  let ?T = "take (nat limit) (filter P t)"
  have sub: "set ?T \<subseteq> {r \<in> set t. P r}" by (auto dest: in_set_takeD)
  have mem: "key r \<in> key ` set ?T \<longleftrightarrow> r \<in> set ?T" if "r \<in> set t" for r
    using that sub assms(1) by (auto dest: unique_keyD)
  have dist: "distinct t" using assms(1) by (auto simp: unique_key_def distinct_map)
  have "filter (\<lambda>r. r \<in> set ?T) t = filter (\<lambda>r. r \<in> set ?T) (filter P t)"
    using sub by (auto simp: intro!: filter_cong)
  then have "set (filter (\<lambda>r. r \<in> set ?T) t) = set ?T" "distinct (filter (\<lambda>r. r \<in> set ?T) t)"
    using dist sub by auto
  then have len: "length (filter (\<lambda>r. r \<in> set ?T) t) = min (nat limit) (length (filter P t))"
    using dist distinct_card [of "filter (\<lambda>r. r \<in> set ?T) t"] distinct_card [of ?T] by simp
  have "filter (\<lambda>r. key r \<in> key ` set ?T) t = filter (\<lambda>r. r \<in> set ?T) t"
    "delete_where (\<lambda>r. key r \<in> key ` set ?T) t = delete_where (\<lambda>r. r \<in> set ?T) t"
    by (auto simp: delete_where_def mem cong: filter_cong)
  then show ?eq using len by (simp add: delete_limited_def Let_def gone_def)
  have "filter P (delete_where (\<lambda>r. r \<in> set ?T) t) = filter (\<lambda>r. r \<notin> set ?T) (filter P t)"
    by (auto simp: delete_where_def intro: filter_cong)
  then show "filter P (delete_where (\<lambda>r. r \<in> gone) t) = drop (nat limit) (filter P t)"
    using dist filter_notin_take [of "filter P t" "nat limit"] unfolding gone_def by simp
  show "delete_where P (delete_where (\<lambda>r. r \<in> gone) t) = delete_where P t"
    using sub by (auto simp: delete_where_def gone_def intro!: filter_cong)
qed

lemma delete_where_id_if_none: "length (filter P t) = 0 \<Longrightarrow> delete_where P t = t"
  by (auto simp: delete_where_def filter_empty_conv)

text \<open>What each statement leaves when it is repeated until nothing is left to delete.\<close>

definition purge_domains :: "timestamp \<Rightarrow> db \<Rightarrow> db" where
  "purge_domains cutoff db = db\<lparr>domains := delete_where (old_domain cutoff) (domains db),
     rrset_records := delete_where (\<lambda>r. r_domain_id r \<in> d_id ` {d \<in> set (domains db). old_domain cutoff d})
       (rrset_records db)\<rparr>"

definition purge_jobs :: "timestamp \<Rightarrow> db \<Rightarrow> db" where
  "purge_jobs cutoff db =
     db\<lparr>measurement_queue := delete_where (forgotten_job cutoff db) (measurement_queue db)\<rparr>"

definition purge_endpoints :: "timestamp \<Rightarrow> db \<Rightarrow> db" where
  "purge_endpoints cutoff db = db\<lparr>endpoints := delete_where (orphaned cutoff db) (endpoints db)\<rparr>"

definition purge_signals :: "timestamp \<Rightarrow> db \<Rightarrow> db" where
  "purge_signals cutoff db = db\<lparr>carbon_signals := delete_where (superseded cutoff db) (carbon_signals db)\<rparr>"

lemma db_ok_delete_domains:
  assumes "db_ok db"
  shows "db_ok (db\<lparr>domains := delete_where P (domains db),
    rrset_records := delete_where (\<lambda>r. r_domain_id r \<in> d_id ` {d \<in> set (domains db). P d}) (rrset_records db)\<rparr>)"
    (is "db_ok ?db")
proof -
  have "region_known ?db = region_known db" by (rule region_known_cong) simp
  moreover have "r_domain_id r \<in> d_id ` {d \<in> set (domains db). \<not> P d}"
    if "r \<in> set (rrset_records db)" "r_domain_id r \<notin> d_id ` {d \<in> set (domains db). P d}" for r
  proof -
    have "r_domain_id r \<in> d_id ` set (domains db)" using that(1) assms by (simp add: db_ok_def records_ok_def)
    then show ?thesis using that(2) by blast
  qed
  ultimately show ?thesis
    using assms by (auto simp: integrity_defs set_delete_where unique_key_delete_where)
qed

lemma db_ok_delete_jobs:
  assumes "db_ok db"
  shows "db_ok (db\<lparr>measurement_queue := delete_where P (measurement_queue db)\<rparr>)" (is "db_ok ?db")
proof -
  have "region_known ?db = region_known db" by (rule region_known_cong) simp
  then show ?thesis using assms by (auto simp: integrity_defs set_delete_where unique_key_delete_where)
qed

lemma db_ok_delete_endpoints:
  assumes "db_ok db" and "\<And>e r. P e \<Longrightarrow> r \<in> set (rrset_records db) \<Longrightarrow> r_address r \<noteq> e_address e"
  shows "db_ok (db\<lparr>endpoints := delete_where P (endpoints db)\<rparr>)" (is "db_ok ?db")
proof -
  have "region_known ?db = region_known db" by (rule region_known_cong) simp
  moreover have "r_address r \<in> e_address ` set (delete_where P (endpoints db))"
    if "r \<in> set (rrset_records db)" for r
    using that assms by (fastforce simp: db_ok_def records_ok_def set_delete_where)
  ultimately show ?thesis
    using assms(1) by (auto simp: integrity_defs set_delete_where unique_key_delete_where)
qed

lemma db_ok_delete_signals:
  assumes "db_ok db"
  shows "db_ok (db\<lparr>carbon_signals := delete_where P (carbon_signals db)\<rparr>)" (is "db_ok ?db")
proof -
  have "region_known ?db = region_known db" by (rule region_known_cong) simp
  then show ?thesis using assms by (auto simp: integrity_defs set_delete_where unique_key_delete_where)
qed


text \<open>The rows one statement deletes.\<close>

definition batch_of :: "('r \<Rightarrow> bool) \<Rightarrow> int \<Rightarrow> 'r list \<Rightarrow> 'r set" where
  "batch_of P limit t = set (take (nat limit) (filter P t))"

lemma batch_of_subset: "batch_of P limit t \<subseteq> {r \<in> set t. P r}"
  by (auto simp: batch_of_def dest: in_set_takeD)

lemmas delete_limited_batch = delete_limited_eq [folded batch_of_def]

lemma delete_domains_eq:
  assumes "db_ok db"
  shows "delete_domains cutoff limit db =
    (let gone = batch_of (old_domain cutoff) limit (domains db) in
     (min (nat limit) (length (filter (old_domain cutoff) (domains db))),
      db\<lparr>domains := delete_where (\<lambda>d. d \<in> gone) (domains db),
         rrset_records := delete_where (\<lambda>r. r_domain_id r \<in> d_id ` {d \<in> set (domains db). d \<in> gone})
           (rrset_records db)\<rparr>))"
proof -
  have u: "unique_key d_id (domains db)" using assms by (simp add: db_ok_def domains_ok_def)
  have "{d \<in> set (domains db). d \<in> batch_of (old_domain cutoff) limit (domains db)} =
      set (take (nat limit) (filter (old_domain cutoff) (domains db)))"
    by (auto simp: batch_of_def dest: in_set_takeD)
  then have "d_id ` {d \<in> set (domains db). d \<in> batch_of (old_domain cutoff) limit (domains db)} =
      set (map d_id (take (nat limit) (filter (old_domain cutoff) (domains db))))"
    by simp
  then show ?thesis
    by (simp add: delete_domains_def delete_limited_batch(1) [OF u] Let_def del: set_map)
qed

lemma delete_jobs_eq:
  assumes "db_ok db"
  shows "delete_dead_jobs cutoff limit db =
    (min (nat limit) (length (filter (forgotten_job cutoff db) (measurement_queue db))),
     db\<lparr>measurement_queue := delete_where (\<lambda>q. q \<in> batch_of (forgotten_job cutoff db) limit (measurement_queue db))
        (measurement_queue db)\<rparr>)"
proof -
  have u: "unique_key q_domain (measurement_queue db)" using assms by (simp add: db_ok_def queue_ok_def)
  show ?thesis by (simp add: delete_dead_jobs_def delete_limited_batch(1) [OF u])
qed

lemma delete_endpoints_eq:
  assumes "db_ok db"
  shows "delete_endpoints cutoff limit db =
    (min (nat limit) (length (filter (orphaned cutoff db) (endpoints db))),
     db\<lparr>endpoints := delete_where (\<lambda>e. e \<in> batch_of (orphaned cutoff db) limit (endpoints db)) (endpoints db)\<rparr>)"
proof -
  have u: "unique_key e_address (endpoints db)" using assms by (simp add: db_ok_def endpoints_ok_def)
  show ?thesis by (simp add: delete_endpoints_def delete_limited_batch(1) [OF u])
qed

lemma delete_signals_eq:
  assumes "db_ok db"
  shows "delete_signals cutoff limit db =
    (min (nat limit) (length (filter (superseded cutoff db) (carbon_signals db))),
     db\<lparr>carbon_signals := delete_where (\<lambda>s. s \<in> batch_of (superseded cutoff db) limit (carbon_signals db))
        (carbon_signals db)\<rparr>)"
proof -
  have u: "unique_key signal_key (carbon_signals db)" using assms by (simp add: db_ok_def signals_ok_def)
  show ?thesis by (simp add: delete_signals_def delete_limited_batch(1) [OF u])
qed

text \<open>Superseded signals are never the latest of their region, so deleting some changes no latest.\<close>

lemma latest_point_delete:
  assumes "\<And>s. s \<in> set (carbon_signals db) \<Longrightarrow> P s \<Longrightarrow> superseded cutoff db s"
  shows "latest_point (db\<lparr>carbon_signals := delete_where P (carbon_signals db)\<rparr>) c = latest_point db c"
proof (cases "latest_point db c")
  case None
  then show ?thesis by (auto simp: latest_point_def delete_where_def filter_empty_conv)
next
  case (Some t)
  then obtain s where s: "s \<in> set (carbon_signals db)" "s_region_code s = c" "s_point_time s = t"
    and le: "\<forall>s' \<in> set (carbon_signals db). s_region_code s' = c \<longrightarrow> s_point_time s' \<le> t"
    by (auto simp: latest_point_def sql_max_Some)
  then have "\<not> superseded cutoff db s" using Some by (simp add: superseded_def)
  then have "\<not> P s" using assms s(1) by blast
  then have "latest_point (db\<lparr>carbon_signals := delete_where P (carbon_signals db)\<rparr>) c = Some t"
    using s le by (auto simp: latest_point_def sql_max_Some set_delete_where image_iff)
  with Some show ?thesis by simp
qed

lemma superseded_delete:
  assumes "\<And>s. s \<in> set (carbon_signals db) \<Longrightarrow> P s \<Longrightarrow> superseded cutoff db s"
  shows "superseded c (db\<lparr>carbon_signals := delete_where P (carbon_signals db)\<rparr>) = superseded c db"
  using latest_point_delete [OF assms] by (simp add: fun_eq_iff superseded_def)

lemma forgotten_job_cong: "domains db' = domains db \<Longrightarrow> forgotten_job c db' = forgotten_job c db"
  by (simp add: fun_eq_iff forgotten_job_def)

lemma orphaned_cong: "rrset_records db' = rrset_records db \<Longrightarrow> orphaned c db' = orphaned c db"
  by (simp add: fun_eq_iff orphaned_def)

interpretation gc_domains: batch_delete "delete_domains cutoff"
  "\<lambda>db. length (filter (old_domain cutoff) (domains db))" "purge_domains cutoff" db_ok for cutoff
proof
  fix db :: db and limit :: int
  assume ok: "db_ok db"
  let ?gone = "batch_of (old_domain cutoff) limit (domains db)"
  have u: "unique_key d_id (domains db)" using ok by (simp add: db_ok_def domains_ok_def)
  note e = delete_domains_eq [OF ok, of cutoff limit, unfolded Let_def]
  note b = delete_limited_batch(2,3) [OF u, of "old_domain cutoff" limit]
  show "fst (delete_domains cutoff limit db) = min (nat limit) (length (filter (old_domain cutoff) (domains db)))"
    by (simp add: e)
  show "length (filter (old_domain cutoff) (domains (snd (delete_domains cutoff limit db)))) =
      length (filter (old_domain cutoff) (domains db)) - nat limit"
    by (simp add: e b)
  have "{d \<in> set (domains db). old_domain cutoff d} = {d \<in> set (domains db). d \<in> ?gone} \<union>
      {d \<in> set (delete_where (\<lambda>d. d \<in> ?gone) (domains db)). old_domain cutoff d}"
    using batch_of_subset [of "old_domain cutoff" limit "domains db"] by (auto simp: set_delete_where)
  then have "delete_where (\<lambda>r. r_domain_id r \<in> d_id `
        {d \<in> set (delete_where (\<lambda>d. d \<in> ?gone) (domains db)). old_domain cutoff d})
      (delete_where (\<lambda>r. r_domain_id r \<in> d_id ` {d \<in> set (domains db). d \<in> ?gone}) (rrset_records db)) =
      delete_where (\<lambda>r. r_domain_id r \<in> d_id ` {d \<in> set (domains db). old_domain cutoff d}) (rrset_records db)"
    unfolding delete_where_def filter_filter image_Un by (intro filter_cong) auto
  then show "purge_domains cutoff (snd (delete_domains cutoff limit db)) = purge_domains cutoff db"
    by (simp add: e b purge_domains_def)
  show "db_ok (snd (delete_domains cutoff limit db))"
    unfolding e snd_conv using ok by (rule db_ok_delete_domains)
next
  fix db :: db
  assume "length (filter (old_domain cutoff) (domains db)) = 0"
  then have "delete_where (old_domain cutoff) (domains db) = domains db"
    and none: "{d \<in> set (domains db). old_domain cutoff d} = {}"
    by (auto simp: delete_where_def filter_empty_conv)
  then show "purge_domains cutoff db = db"
    unfolding purge_domains_def none by (simp add: delete_where_none)
qed


interpretation gc_jobs: batch_delete "delete_dead_jobs cutoff"
  "\<lambda>db. length (filter (forgotten_job cutoff db) (measurement_queue db))" "purge_jobs cutoff" db_ok for cutoff
proof
  fix db :: db and limit :: int
  assume ok: "db_ok db"
  have u: "unique_key q_domain (measurement_queue db)" using ok by (simp add: db_ok_def queue_ok_def)
  note e = delete_jobs_eq [OF ok, of cutoff limit]
  note b = delete_limited_batch(2,3) [OF u, of "forgotten_job cutoff db" limit]
  have c: "forgotten_job cutoff (snd (delete_dead_jobs cutoff limit db)) = forgotten_job cutoff db"
    by (rule forgotten_job_cong) (simp add: e)
  show "fst (delete_dead_jobs cutoff limit db) =
      min (nat limit) (length (filter (forgotten_job cutoff db) (measurement_queue db)))"
    by (simp add: e)
  show "length (filter (forgotten_job cutoff (snd (delete_dead_jobs cutoff limit db)))
        (measurement_queue (snd (delete_dead_jobs cutoff limit db)))) =
      length (filter (forgotten_job cutoff db) (measurement_queue db)) - nat limit"
    unfolding c by (simp add: e b)
  show "purge_jobs cutoff (snd (delete_dead_jobs cutoff limit db)) = purge_jobs cutoff db"
    unfolding purge_jobs_def c by (simp add: e b)
  show "db_ok (snd (delete_dead_jobs cutoff limit db))"
    unfolding e snd_conv using ok by (rule db_ok_delete_jobs)
next
  fix db :: db
  assume "length (filter (forgotten_job cutoff db) (measurement_queue db)) = 0"
  then show "purge_jobs cutoff db = db" by (simp only: purge_jobs_def delete_where_id_if_none) simp
qed

interpretation gc_endpoints: batch_delete "delete_endpoints cutoff"
  "\<lambda>db. length (filter (orphaned cutoff db) (endpoints db))" "purge_endpoints cutoff" db_ok for cutoff
proof
  fix db :: db and limit :: int
  assume ok: "db_ok db"
  have u: "unique_key e_address (endpoints db)" using ok by (simp add: db_ok_def endpoints_ok_def)
  note e = delete_endpoints_eq [OF ok, of cutoff limit]
  note b = delete_limited_batch(2,3) [OF u, of "orphaned cutoff db" limit]
  have c: "orphaned cutoff (snd (delete_endpoints cutoff limit db)) = orphaned cutoff db"
    by (rule orphaned_cong) (simp add: e)
  show "fst (delete_endpoints cutoff limit db) = min (nat limit) (length (filter (orphaned cutoff db) (endpoints db)))"
    by (simp add: e)
  show "length (filter (orphaned cutoff (snd (delete_endpoints cutoff limit db)))
        (endpoints (snd (delete_endpoints cutoff limit db)))) =
      length (filter (orphaned cutoff db) (endpoints db)) - nat limit"
    unfolding c by (simp add: e b)
  show "purge_endpoints cutoff (snd (delete_endpoints cutoff limit db)) = purge_endpoints cutoff db"
    unfolding purge_endpoints_def c by (simp add: e b)
  show "db_ok (snd (delete_endpoints cutoff limit db))"
    unfolding e snd_conv
  proof (rule db_ok_delete_endpoints [OF ok])
    fix x r
    assume "x \<in> batch_of (orphaned cutoff db) limit (endpoints db)" "r \<in> set (rrset_records db)"
    then show "r_address r \<noteq> e_address x"
      using batch_of_subset [of "orphaned cutoff db" limit "endpoints db"] by (auto simp: orphaned_def)
  qed
next
  fix db :: db
  assume "length (filter (orphaned cutoff db) (endpoints db)) = 0"
  then show "purge_endpoints cutoff db = db" by (simp only: purge_endpoints_def delete_where_id_if_none) simp
qed

interpretation gc_signals: batch_delete "delete_signals cutoff"
  "\<lambda>db. length (filter (superseded cutoff db) (carbon_signals db))" "purge_signals cutoff" db_ok for cutoff
proof
  fix db :: db and limit :: int
  assume ok: "db_ok db"
  have u: "unique_key signal_key (carbon_signals db)" using ok by (simp add: db_ok_def signals_ok_def)
  note e = delete_signals_eq [OF ok, of cutoff limit]
  note b = delete_limited_batch(2,3) [OF u, of "superseded cutoff db" limit]
  have c: "superseded cutoff (snd (delete_signals cutoff limit db)) = superseded cutoff db"
    unfolding e snd_conv
    using batch_of_subset [of "superseded cutoff db" limit "carbon_signals db"]
    by (intro superseded_delete [where cutoff = cutoff]) auto
  show "fst (delete_signals cutoff limit db) = min (nat limit) (length (filter (superseded cutoff db) (carbon_signals db)))"
    by (simp add: e)
  show "length (filter (superseded cutoff (snd (delete_signals cutoff limit db)))
        (carbon_signals (snd (delete_signals cutoff limit db)))) =
      length (filter (superseded cutoff db) (carbon_signals db)) - nat limit"
    unfolding c by (simp add: e b)
  show "purge_signals cutoff (snd (delete_signals cutoff limit db)) = purge_signals cutoff db"
    unfolding purge_signals_def c by (simp add: e b)
  show "db_ok (snd (delete_signals cutoff limit db))"
    unfolding e snd_conv using ok by (rule db_ok_delete_signals)
next
  fix db :: db
  assume "length (filter (superseded cutoff db) (carbon_signals db)) = 0"
  then show "purge_signals cutoff db = db" by (simp only: purge_signals_def delete_where_id_if_none) simp
qed


subsection \<open>A whole collection\<close>

text \<open>What a collection leaves, whatever the size of its batches.\<close>

definition purge :: "timestamp \<Rightarrow> RetentionPolicy \<Rightarrow> db \<Rightarrow> db" where
  "purge now policy db =
     (let cutoff = now - days (domain_days policy);
          db3 = purge_endpoints (now - days (endpoint_days policy)) (purge_jobs cutoff (purge_domains cutoff db))
      in if carbon_history_days policy > 0
         then purge_signals (now - days (carbon_history_days policy)) db3 else db3)"

definition gc_counts :: "timestamp \<Rightarrow> RetentionPolicy \<Rightarrow> db \<Rightarrow> GcResult" where
  "gc_counts now policy db =
     (let db' = purge now policy db
      in \<lparr>gc_domains = length (domains db) - length (domains db'),
          gc_endpoints = length (endpoints db) - length (endpoints db'),
          gc_signals = length (carbon_signals db) - length (carbon_signals db'),
          gc_dead_jobs = length (measurement_queue db) - length (measurement_queue db')\<rparr>)"

lemma length_deleted: "length t - length (delete_where P t) = length (filter P t)"
  using sum_length_filter_compl [of P t] by (simp add: delete_where_def)

lemma purge_domains_fields [simp]:
  "domains (purge_domains c db) = delete_where (old_domain c) (domains db)"
  "measurement_queue (purge_domains c db) = measurement_queue db"
  "endpoints (purge_domains c db) = endpoints db" "carbon_signals (purge_domains c db) = carbon_signals db"
  "settings (purge_domains c db) = settings db"
  by (simp_all add: purge_domains_def)

lemma purge_jobs_fields [simp]:
  "domains (purge_jobs c db) = domains db" "rrset_records (purge_jobs c db) = rrset_records db"
  "endpoints (purge_jobs c db) = endpoints db" "carbon_signals (purge_jobs c db) = carbon_signals db"
  "settings (purge_jobs c db) = settings db"
  "measurement_queue (purge_jobs c db) = delete_where (forgotten_job c db) (measurement_queue db)"
  by (simp_all add: purge_jobs_def)

lemma purge_endpoints_fields [simp]:
  "domains (purge_endpoints c db) = domains db" "rrset_records (purge_endpoints c db) = rrset_records db"
  "measurement_queue (purge_endpoints c db) = measurement_queue db"
  "carbon_signals (purge_endpoints c db) = carbon_signals db" "settings (purge_endpoints c db) = settings db"
  "endpoints (purge_endpoints c db) = delete_where (orphaned c db) (endpoints db)"
  by (simp_all add: purge_endpoints_def)

lemma purge_signals_fields [simp]:
  "domains (purge_signals c db) = domains db" "rrset_records (purge_signals c db) = rrset_records db"
  "measurement_queue (purge_signals c db) = measurement_queue db" "endpoints (purge_signals c db) = endpoints db"
  "settings (purge_signals c db) = settings db"
  "carbon_signals (purge_signals c db) = delete_where (superseded c db) (carbon_signals db)"
  by (simp_all add: purge_signals_def)

lemma collect_garbage_purge:
  assumes "db_ok db" and "0 < batch_size policy"
  shows "collect_garbage now policy db = Some (Inr (gc_counts now policy db, purge now policy db))"
    and "db_ok (purge now policy db)"
proof -
  let ?c = "now - days (domain_days policy)" and ?e = "now - days (endpoint_days policy)"
  let ?s = "now - days (carbon_history_days policy)"
  note lim = assms(2)
  have ok1: "db_ok (purge_domains ?c db)" using gc_domains.all_deleted(2) [OF lim assms(1)] .
  have ok2: "db_ok (purge_jobs ?c (purge_domains ?c db))" using gc_jobs.all_deleted(2) [OF lim ok1] .
  have ok3: "db_ok (purge_endpoints ?e (purge_jobs ?c (purge_domains ?c db)))"
    using gc_endpoints.all_deleted(2) [OF lim ok2] .
  show "db_ok (purge now policy db)"
    using ok3 gc_signals.all_deleted(2) [OF lim ok3, of ?s] by (simp add: purge_def Let_def)
  show "collect_garbage now policy db = Some (Inr (gc_counts now policy db, purge now policy db))"
    unfolding collect_garbage_def Let_def gc_domains.all_deleted(1) [OF lim assms(1)] and_then_def
    by (simp add: gc_jobs.all_deleted(1) [OF lim ok1] gc_endpoints.all_deleted(1) [OF lim ok2]
        gc_signals.all_deleted(1) [OF lim ok3] gc_counts_def purge_def length_deleted Let_def)
qed

lemma collect_garbage_no_batch:
  "batch_size policy < 0 \<Longrightarrow> collect_garbage now policy db = Some (Inl DataError)"
  "batch_size policy = 0 \<Longrightarrow> collect_garbage now policy db = None"
proof -
  show "collect_garbage now policy db = Some (Inl DataError)" if "batch_size policy < 0"
    using that unfolding collect_garbage_def Let_def
    by (subst delete_in_batches.simps) (simp add: and_then_def)
  show "collect_garbage now policy db = None" if "batch_size policy = 0"
    using that by (simp add: collect_garbage_def and_then_def no_limit_diverges)
qed

text \<open>
  C15: Garbage collection ends, and its result does not depend on the size of the batches. On a
  consistent database it deletes, batch after batch, precisely the domains nobody asked for
  since the cutoff with all their records, the dead jobs of names that are no domain, the
  unreferenced endpoints and the superseded signals, in that order; it reports how many rows
  of each table it deleted. A batch size of zero makes the first loop run forever and a
  negative one is refused by the database.
\<close>

theorem collect_garbage_terminates:
  assumes "db_ok db"
  shows "collect_garbage now policy db =
    (if batch_size policy < 0 then Some (Inl DataError)
     else if batch_size policy = 0 then None
     else Some (Inr (gc_counts now policy db, purge now policy db)))"
  using collect_garbage_purge(1) [OF assms, of policy now] collect_garbage_no_batch [of policy now db]
  by (auto simp: not_less)

theorem collect_garbage_terminates_witness:
  "collect_garbage 0 (default_retention\<lparr>batch_size := 0\<rparr>) empty_db = None \<and>
   collect_garbage 0 default_retention empty_db =
     Some (Inr (\<lparr>gc_domains = 0, gc_endpoints = 0, gc_signals = 0, gc_dead_jobs = 0\<rparr>, empty_db))"
  using collect_garbage_terminates [OF empty_db_ok, of 0 "default_retention\<lparr>batch_size := 0\<rparr>"]
    collect_garbage_terminates [OF empty_db_ok, of 0 default_retention]
  by (simp add: default_retention_def gc_counts_def purge_def empty_db_def purge_domains_def
      purge_jobs_def purge_endpoints_def purge_signals_def delete_where_def Let_def)


lemma superseded_cong: "carbon_signals db' = carbon_signals db \<Longrightarrow> superseded c db' = superseded c db"
  by (simp add: fun_eq_iff superseded_def latest_point_def)

lemma latest_signal_purge:
  assumes "db_ok db"
  shows "latest_signal (purge now policy db) c = latest_signal db c"
proof -
  let ?t = "carbon_signals db" and ?t' = "carbon_signals (purge now policy db)"
  let ?gone = "superseded (now - days (carbon_history_days policy)) db"
  have u: "unique_key signal_key ?t" using assms by (simp add: db_ok_def signals_ok_def)
  have t': "?t' = (if carbon_history_days policy > 0 then delete_where ?gone ?t else ?t)"
  proof -
    let ?db3 = "purge_endpoints (now - days (endpoint_days policy))
      (purge_jobs (now - days (domain_days policy)) (purge_domains (now - days (domain_days policy)) db))"
    have "superseded (now - days (carbon_history_days policy)) ?db3 = ?gone" by (rule superseded_cong) simp
    then show ?thesis by (simp add: purge_def Let_def)
  qed
  then have u': "unique_key signal_key ?t'" using u by (simp add: unique_key_delete_where)
  show ?thesis
  proof (cases "latest_signal db c")
    case None
    then have "latest_signal (purge now policy db) c = None"
      unfolding latest_signal_None t' by (auto simp: set_delete_where)
    with None show ?thesis by simp
  next
    case (Some s)
    then have s: "s \<in> set ?t" "s_region_code s = c"
      and le: "\<forall>s' \<in> set ?t. s_region_code s' = c \<longrightarrow> s_point_time s' \<le> s_point_time s"
      by (simp_all add: latest_signal_Some [OF u])
    have "latest_point db c = Some (s_point_time s)"
      using s le by (auto simp: latest_point_def sql_max_Some)
    then have "\<not> ?gone s" using s by (simp add: superseded_def)
    then have "latest_signal (purge now policy db) c = Some s"
      unfolding latest_signal_Some [OF u'] using s le by (auto simp: t' set_delete_where)
    with Some show ?thesis by simp
  qed
qed

lemma purge_fields:
  "settings (purge now policy db) = settings db"
  "domains (purge now policy db) = delete_where (old_domain (now - days (domain_days policy))) (domains db)"
  "rrset_records (purge now policy db) = rrset_records (purge_domains (now - days (domain_days policy)) db)"
  "endpoints (purge now policy db) =
     delete_where (orphaned (now - days (endpoint_days policy)) (purge now policy db)) (endpoints db)"
proof -
  show "settings (purge now policy db) = settings db"
    "domains (purge now policy db) = delete_where (old_domain (now - days (domain_days policy))) (domains db)"
    "rrset_records (purge now policy db) = rrset_records (purge_domains (now - days (domain_days policy)) db)"
    by (simp_all add: purge_def Let_def)
  let ?db2 = "purge_jobs (now - days (domain_days policy)) (purge_domains (now - days (domain_days policy)) db)"
  have "orphaned (now - days (endpoint_days policy)) (purge now policy db) =
      orphaned (now - days (endpoint_days policy)) ?db2"
    by (rule orphaned_cong) (simp add: purge_def Let_def)
  then show "endpoints (purge now policy db) =
     delete_where (orphaned (now - days (endpoint_days policy)) (purge now policy db)) (endpoints db)"
    by (simp add: purge_def Let_def)
qed

lemma rows_of_purge:
  assumes "db_ok db"
  shows "rows_of (purge now policy db) name =
    (case find_row d_name name (domains db) of
       None \<Rightarrow> []
     | Some d \<Rightarrow> if old_domain (now - days (domain_days policy)) d then [] else rows_of db name)"
proof (cases "find_row d_name name (domains db)")
  case None
  then show ?thesis
    using assms by (simp add: rows_of_def purge_fields find_row_delete_where db_ok_def domains_ok_def)
next
  case (Some d)
  let ?old = "old_domain (now - days (domain_days policy))"
  have u: "unique_key d_id (domains db)" "unique_key d_name (domains db)"
    using assms by (simp_all add: db_ok_def domains_ok_def)
  have "filter (\<lambda>r. r_domain_id r = d_id d) (rrset_records (purge now policy db)) =
      filter (\<lambda>r. r_domain_id r = d_id d) (rrset_records db)" if "\<not> ?old d"
  proof -
    have "d_id d \<notin> d_id ` {x \<in> set (domains db). ?old x}"
      using that find_row_SomeD [OF Some] u(1) by (auto dest: unique_keyD)
    then have "\<And>r. r_domain_id r = d_id d \<Longrightarrow> r_domain_id r \<notin> d_id ` {x \<in> set (domains db). ?old x}"
      by simp
    then show ?thesis
      unfolding purge_fields purge_domains_def delete_where_def by (simp, intro filter_cong) blast+
  qed
  then show ?thesis using Some u(2) by (simp add: rows_of_def purge_fields find_row_delete_where)
qed

lemma moer_of_purge:
  assumes "db_ok db" and "r \<in> set (rrset_records (purge now policy db))"
  shows "moer_of (purge now policy db) (r_address r) = moer_of db (r_address r)"
proof -
  let ?o = "orphaned (now - days (endpoint_days policy)) (purge now policy db)"
  have u: "unique_key e_address (endpoints db)" using assms(1) by (simp add: db_ok_def endpoints_ok_def)
  have "\<not> ?o e" if "e_address e = r_address r" for e using assms(2) that by (auto simp: orphaned_def)
  then have "find_row e_address (r_address r) (endpoints (purge now policy db)) =
      find_row e_address (r_address r) (endpoints db)"
    unfolding purge_fields(4) find_row_delete_where [OF u] by (auto split: option.splits dest: find_row_SomeD)
  moreover have "latest_moer (purge now policy db) = latest_moer db"
    by (simp add: fun_eq_iff latest_moer_def latest_signal_purge [OF assms(1)] split: option.split)
  ultimately show ?thesis by (simp add: moer_of_def split: option.split)
qed

text \<open>
  C11: Garbage collection never changes an answer. A name that was asked for since the cutoff, or
  first seen since then and never asked for, is served exactly as before, with the same addresses, TTLs and serial at any later time,
  although endpoints and signals were deleted; a name that was not is no longer served; and
  the database satisfies every constraint of the schema.
\<close>

theorem gc_keeps_answers:
  assumes "db_ok db" and "collect_garbage now policy db = Some (Inr (result, db'))"
  shows "db_ok db' \<and>
    (\<forall>zone. case find_row d_name (normalize_name zone) (domains db) of
       None \<Rightarrow> dlz_lookup t rnd db' zone rec = []
     | Some d \<Rightarrow> dlz_lookup t rnd db' zone rec =
         (if (case d_last_queried_at d of None \<Rightarrow> d_first_seen_at d | Some q \<Rightarrow> q) < now - days (domain_days policy)
          then [] else dlz_lookup t rnd db zone rec))"
proof -
  have old: "(case d_last_queried_at d of None \<Rightarrow> d_first_seen_at d | Some q \<Rightarrow> q) < cutoff \<longleftrightarrow> old_domain cutoff d" for cutoff d
    by (simp add: old_domain_def coalesce_def)
  have lim: "0 < batch_size policy"
    using assms(2) collect_garbage_no_batch [of policy now db]
    by (cases "batch_size policy = 0"; cases "batch_size policy < 0"; simp)
  then have p: "db' = purge now policy db" and ok: "db_ok db'"
    using collect_garbage_purge [OF assms(1) lim, of now] assms(2) by simp_all
  let ?old = "old_domain (now - days (domain_days policy))"
  have gone: "dlz_lookup t rnd db' zone rec = []" if "rows_of db' (normalize_name zone) = []" for zone
    using that by (simp add: dlz_lookup_def dlz_findzone_def Let_def per_type_def)
  have kept: "dlz_lookup t rnd db' zone rec = dlz_lookup t rnd db zone rec"
    if "rows_of db' (normalize_name zone) = rows_of db (normalize_name zone)" for zone
  proof (rule dlz_lookup_cong)
    show "settings db' = settings db" by (simp add: p purge_fields)
    show "moer_of db' (r_address r) = moer_of db (r_address r)" if "r \<in> set (rows_of db (normalize_name zone))" for r
    proof -
      have "r \<in> set (rrset_records db')"
        using that \<open>rows_of db' _ = _\<close> by (intro rows_of_subset [of db' "normalize_name zone", THEN subsetD]) simp
      then show ?thesis unfolding p by (rule moer_of_purge [OF assms(1)])
    qed
  qed (rule that)
  show ?thesis
    unfolding old using ok rows_of_purge [OF assms(1), of now policy, folded p] gone kept
    by (auto split: option.split)
qed


theorem gc_keeps_answers_witness:
  "\<exists>result db'. collect_garbage 5 default_retention green_db = Some (Inr (result, db')) \<and>
     (300, D_Address RT_A ''192.0.2.2'') \<in> set (dlz_lookup 5 (\<lambda>_. 0) db' ''a.net'' ''@'')"
proof -
  have lim: "0 < batch_size default_retention" by (simp add: default_retention_def)
  obtain result db' where gc: "collect_garbage 5 default_retention green_db = Some (Inr (result, db'))"
    using collect_garbage_purge(1) [OF green_db_ok lim] by blast
  have n: "normalize_name ''a.net'' = ''a.net''" by code_simp
  have "dlz_lookup 5 (\<lambda>_. 0) db' ''a.net'' ''@'' = dlz_lookup 5 (\<lambda>_. 0) green_db ''a.net'' ''@''"
    using gc_keeps_answers [OF green_db_ok gc, of 5 "\<lambda>_. 0" "''@''", THEN conjunct2, THEN spec, of "''a.net''"]
    by (simp add: n green_db_def measured_domain_def default_retention_def days_def secs_def)
  then show ?thesis using gc green_lookup by auto
qed


section \<open>What the expiry scan finds\<close>

lemma domain_rows_rows_of:
  assumes "db_ok db" and "d \<in> set (domains db)"
  shows "domain_rows db d = rows_of db (d_name d)" and "normalize_name (d_name d) = d_name d"
proof -
  have "unique_key d_name (domains db)" "canonical (d_name d)"
    using assms by (auto simp: db_ok_def domains_ok_def domain_ok_def)
  then show "domain_rows db d = rows_of db (d_name d)" "normalize_name (d_name d) = d_name d"
    using assms(2) find_row_unique [of d_name "domains db" "d_name d" d]
    by (auto simp: domain_rows_def rows_of_def canonical_def)
qed

lemma served_until_iff:
  assumes "db_ok db" and "d \<in> set (domains db)"
  shows "(case served_until db d of None \<Rightarrow> False | Some t \<Rightarrow> t < limit) \<longleftrightarrow>
    rows_of db (d_name d) \<noteq> [] \<and> \<not> dlz_findzone (limit - 1) db (d_name d)"
  unfolding served_until_def sql_min_less
  using assms by (auto simp: domain_rows_rows_of dlz_findzone_def Let_def not_less)

text \<open>
  C13: The scan re-queues what is about to expire, and nothing else. On a consistent database
  it always succeeds. A domain ends up in the queue if it has records, would no longer be
  served at the end of the lead time, was asked for within the activity window, has no pending
  retry time and was not measured just now; the queue entry of every other name, and all other
  tables, are as before. The scan and the resolver therefore agree on what being served means.
\<close>

theorem scan_requeues_what_expires:
  assumes "db_ok db"
  shows "\<exists>queued db'. scan_expiring db_now now policy db = Inr (queued, db') \<and>
    rrset_records db' = rrset_records db \<and> domains db' = domains db \<and> queue_ok db' \<and>
    (\<forall>name. let row = find_row q_domain name (measurement_queue db);
         row' = find_row q_domain name (measurement_queue db');
         expires = (\<exists>d \<in> set (domains db). d_name d = name \<and> rows_of db name \<noteq> [] \<and>
           \<not> dlz_findzone (now + secs (lead_seconds policy) - 1) db name \<and>
           (\<exists>t. d_last_queried_at d = Some t \<and> now - secs (activity_window_seconds policy) < t) \<and>
           (d_retry_after d = None \<or> the (d_retry_after d) \<le> now) \<and>
           (d_measured_at d = None \<or> the (d_measured_at d) \<le> now - secs (min_remeasure_seconds policy)))
       in row' = (if expires then Some (case row of None \<Rightarrow> new_job db_now Expired name
                                       | Some r \<Rightarrow> revive db_now Expired r) else row))"
proof -
  let ?names = "expiring_domains now policy db"
  have mem: "name \<in> set ?names \<longleftrightarrow> (\<exists>d \<in> set (domains db). d_name d = name \<and> rows_of db name \<noteq> [] \<and>
           \<not> dlz_findzone (now + secs (lead_seconds policy) - 1) db name \<and>
           (\<exists>t. d_last_queried_at d = Some t \<and> now - secs (activity_window_seconds policy) < t) \<and>
           (d_retry_after d = None \<or> the (d_retry_after d) \<le> now) \<and>
           (d_measured_at d = None \<or> the (d_measured_at d) \<le> now - secs (min_remeasure_seconds policy)))"
    for name
  proof -
    have "expiring now policy db d \<longleftrightarrow> rows_of db (d_name d) \<noteq> [] \<and>
           \<not> dlz_findzone (now + secs (lead_seconds policy) - 1) db (d_name d) \<and>
           (\<exists>t. d_last_queried_at d = Some t \<and> now - secs (activity_window_seconds policy) < t) \<and>
           (d_retry_after d = None \<or> the (d_retry_after d) \<le> now) \<and>
           (d_measured_at d = None \<or> the (d_measured_at d) \<le> now - secs (min_remeasure_seconds policy))"
      if "d \<in> set (domains db)" for d
      unfolding expiring_def served_until_iff [OF assms that] active_def by (auto split: option.splits)
    then show ?thesis by (auto simp: expiring_domains_def)
  qed
  have "canonical name" if "name \<in> set ?names" for name
    using that assms by (auto simp: mem db_ok_def domains_ok_def domain_ok_def)
  then obtain queued db' where q: "enqueue db_now ?names Expired db = Inr (queued, db')"
    using enqueue_total by blast
  have ok: "queue_ok db" using assms by (simp add: db_ok_def)
  show ?thesis
    using q enqueue_frame [OF q] enqueue_queue_ok [OF q ok] enqueue_look [OF q ok]
    unfolding scan_expiring_def mem Let_def by blast
qed

text \<open>A domain that was asked for at a time, for the examples.\<close>

definition watched_db :: "timestamp \<Rightarrow> db" where
  "watched_db t =
     green_db\<lparr>domains := [(measured_domain 0 ''a.net'' Resolved None 1)\<lparr>d_last_queried_at := Some t\<rparr>]\<rparr>"

lemma watched_db_ok: "db_ok (watched_db t)"
proof -
  let ?d = "(measured_domain 0 ''a.net'' Resolved None 1)\<lparr>d_last_queried_at := Some t\<rparr>"
  have c: "canonical ''a.net''" by code_simp
  have known: "region_known (watched_db t) = region_known green_db"
    by (rule region_known_cong) (simp add: watched_db_def)
  have "domain_ok ?d" using c by (simp add: domain_ok_def measured_domain_def)
  then have "domains_ok (watched_db t)" "records_ok (watched_db t)"
    using green_db_ok
    by (simp_all add: db_ok_def domains_ok_def records_ok_def green_db_def watched_db_def unique_key_def measured_domain_def)
  then show ?thesis
    using green_db_ok known by (simp add: db_ok_def settings_ok_def signals_ok_def endpoints_ok_def
        queue_ok_def locations_ok_def watched_db_def)
qed

theorem scan_requeues_what_expires_witness:
  "\<exists>db'. scan_expiring 0 (secs 890) default_freshness (watched_db (secs 500)) = Inr ([''a.net''], db') \<and>
     queue_ok db' \<and> find_row q_domain ''a.net'' (measurement_queue db') = Some (new_job 0 Expired ''a.net'')"
proof -
  have e: "scan_expiring 0 (secs 890) default_freshness (watched_db (secs 500)) = Inr ([''a.net''],
      (watched_db (secs 500))\<lparr>measurement_queue := [new_job 0 Expired ''a.net''], notifications := 1\<rparr>)"
    by code_simp
  obtain queued db' where q: "scan_expiring 0 (secs 890) default_freshness (watched_db (secs 500)) = Inr (queued, db')"
    and "queue_ok db'"
    using scan_requeues_what_expires [OF watched_db_ok, of 0 "secs 890" default_freshness "secs 500"] by blast
  then show ?thesis using e by (auto simp: new_job_def)
qed

section \<open>What the carbon refresh stores\<close>

text \<open>
  One step: only the signals change, those of other regions stay, and the stored point is there.
\<close>

lemma save_signal_step:
  assumes "save_signal now signal db = Inr db'" and "db_ok db"
  shows "db_ok db'" and "db' = db\<lparr>carbon_signals := carbon_signals db'\<rparr>"
    and "c \<noteq> sg_region signal \<Longrightarrow> latest_point db' c = latest_point db c"
    and "\<exists>t. latest_point db' (sg_region signal) = Some t \<and> sg_point_time signal \<le> t"
    and "latest_point db c = Some t \<Longrightarrow> \<exists>t'. latest_point db' c = Some t' \<and> t \<le> t'"
proof -
  note set = save_signal_set [OF assms]
  let ?new = "signal_row_of now signal"
  have new: "s_region_code ?new = sg_region signal" "s_point_time ?new = sg_point_time signal"
    by (simp_all add: signal_row_of_def)
  show "db_ok db'" using assms by (rule save_signal_ok)
  show "db' = db\<lparr>carbon_signals := carbon_signals db'\<rparr>" using assms(1) by (auto simp: save_signal_Inr)
  have times: "s_point_time ` {s \<in> set (carbon_signals db'). s_region_code s = c} =
      (if c = sg_region signal then {sg_point_time signal} else {}) \<union>
      s_point_time ` {s \<in> set (carbon_signals db). s_region_code s = c}" for c
    unfolding set using new by (auto simp: image_iff) (metis new)+
  have max: "latest_point d c = (let T = s_point_time ` {s \<in> set (carbon_signals d). s_region_code s = c}
      in if T = {} then None else Some (Max T))" for d c
    by (auto simp: latest_point_def sql_max_def Let_def filter_empty_conv)
  have fin: "finite (s_point_time ` {s \<in> set (carbon_signals d). s_region_code s = c})" for d c by simp
  show "c \<noteq> sg_region signal \<Longrightarrow> latest_point db' c = latest_point db c"
    unfolding max times by simp
  show "\<exists>t. latest_point db' (sg_region signal) = Some t \<and> sg_point_time signal \<le> t"
    unfolding max times Let_def by simp
  show "latest_point db c = Some t \<Longrightarrow> \<exists>t'. latest_point db' c = Some t' \<and> t \<le> t'"
    unfolding max times Let_def using fin [of db c] by (auto split: if_splits intro: Max_mono)
qed


context moer_source
begin

lemma refresh_loop_ConsE:
  assumes "refresh_loop moer db_now skip (code # codes) acc w db = (res, w', db')"
  obtains (pass) w1 where "refresh_loop moer db_now skip codes acc w1 db = (res, w', db')"
  | (none) w1 where "code \<notin> skip"
      "refresh_loop moer db_now skip codes (acc\<lparr>unavailable := unavailable acc @ [code]\<rparr>) w1 db = (res, w', db')"
  | (stop) e where "res = Inl e" "db' = db"
  | (store) signal w1 db1 where "code \<notin> skip" "sg_region signal = code" "save_signal db_now signal db = Inr db1"
      "refresh_loop moer db_now skip codes
         (acc\<lparr>stored := AList.update code (sg_point_time signal) (stored acc)\<rparr>) w1 db1 = (res, w', db')"
proof -
  obtain m w1 where m: "moer w code = (m, w1)" by (cases "moer w code")
  show thesis
  proof (cases "code \<in> skip")
    case True
    then show ?thesis using assms pass by simp
  next
    case False
    show ?thesis
    proof (cases m)
      case (Inl e)
      then show ?thesis using assms False m pass stop by (cases e) auto
    next
      case (Inr found)
      show ?thesis
      proof (cases found)
        case None
        then show ?thesis using assms False m Inr none by simp
      next
        case (Some signal)
        then have "sg_region signal = code" using moer_region m Inr by simp
        then show ?thesis
          using assms False m Inr Some stop store by (cases "save_signal db_now signal db") auto
      qed
    qed
  qed
qed

text \<open>The loop touches nothing but signals, and never loses a point.\<close>

lemma refresh_loop_keeps:
  "refresh_loop moer db_now skip codes acc w db = (res, w', db') \<Longrightarrow> db_ok db \<Longrightarrow>
   db_ok db' \<and> (\<exists>t. db' = db\<lparr>carbon_signals := t\<rparr>) \<and>
   (\<forall>c t. latest_point db c = Some t \<longrightarrow> (\<exists>t'. latest_point db' c = Some t' \<and> t \<le> t')) \<and>
   (\<forall>c. c \<notin> set codes \<longrightarrow> latest_point db' c = latest_point db c)"
proof (induction codes arbitrary: acc w db)
  case Nil
  then show ?case by (auto intro: exI [of _ "carbon_signals db"])
next
  case (Cons code codes)
  from Cons.prems(1) show ?case
  proof (cases rule: refresh_loop_ConsE)
    case (pass w1)
    then show ?thesis using Cons.IH Cons.prems(2) by auto
  next
    case (none w1)
    then show ?thesis using Cons.IH [OF none(2) Cons.prems(2)] by auto
  next
    case (stop e)
    then show ?thesis using Cons.prems(2) by (auto intro: exI [of _ "carbon_signals db"])
  next
    case (store signal w1 db1)
    note step = save_signal_step [OF store(3) Cons.prems(2)]
    note ih = Cons.IH [OF store(4) step(1)]
    obtain t1 t where "db1 = db\<lparr>carbon_signals := t1\<rparr>" "db' = db1\<lparr>carbon_signals := t\<rparr>"
      using step(2) ih by blast
    then have "db' = db\<lparr>carbon_signals := t\<rparr>" by simp
    moreover have "\<exists>t'. latest_point db' c = Some t' \<and> t \<le> t'" if "latest_point db c = Some t" for c t
      using step(5) [OF that] ih by (meson order_trans)
    ultimately show ?thesis using ih step(3) store(2) by auto
  qed
qed

text \<open>What it reports: the stored points are there, and each region is in one of three classes.\<close>

lemma refresh_loop_reports:
  "refresh_loop moer db_now skip codes acc w db = (Inr r, w', db') \<Longrightarrow> db_ok db \<Longrightarrow> distinct codes \<Longrightarrow>
   \<forall>c \<in> set codes. map_of (stored acc) c = None \<Longrightarrow>
   (\<forall>c t. map_of (stored r) c = Some t \<longrightarrow> map_of (stored acc) c = Some t \<and> c \<notin> set codes \<or>
      c \<in> set codes - skip \<and> (\<exists>t'. latest_point db' c = Some t' \<and> t \<le> t')) \<and>
   (\<forall>c \<in> set codes. map_of (stored r) c = None \<longrightarrow> latest_point db' c = latest_point db c) \<and>
   (\<forall>c. c \<notin> set codes \<longrightarrow> map_of (stored r) c = map_of (stored acc) c) \<and>
   (\<forall>c \<in> set (unavailable r). c \<in> set (unavailable acc) \<or> c \<in> set codes - skip \<and> map_of (stored r) c = None)"
proof (induction codes arbitrary: acc w db)
  case (Cons code codes)
  have d: "distinct codes" "code \<notin> set codes" using Cons.prems(3) by simp_all
  from Cons.prems(1) show ?case
  proof (cases rule: refresh_loop_ConsE)
    case (pass w1)
    have "latest_point db' code = latest_point db code"
      using refresh_loop_keeps [OF pass Cons.prems(2)] d by blast
    then show ?thesis using Cons.IH [OF pass Cons.prems(2) d(1)] d Cons.prems(4) by auto
  next
    case (none w1)
    have "latest_point db' code = latest_point db code"
      using refresh_loop_keeps [OF none(2) Cons.prems(2)] d by blast
    then show ?thesis using Cons.IH [OF none(2) Cons.prems(2) d(1)] d none(1) Cons.prems(4) by auto
  next
    case (stop e)
    then show ?thesis by simp
  next
    case (store signal w1 db1)
    note step = save_signal_step [OF store(3) Cons.prems(2)]
    have fresh: "\<forall>c \<in> set codes. map_of (stored (acc\<lparr>stored := AList.update code (sg_point_time signal) (stored acc)\<rparr>)) c = None"
      using Cons.prems(4) d by (auto simp: update_conv')
    note ih = Cons.IH [OF store(4) step(1) d(1) fresh]
    have here: "\<exists>t. latest_point db' code = Some t \<and> sg_point_time signal \<le> t"
      using refresh_loop_keeps [OF store(4) step(1)] d step(4) store(2) by auto
    have other: "latest_point db1 c = latest_point db c" if "c \<in> set codes" for c
      using step(3) [of c] store(2) that d(2) by auto
    show ?thesis
    proof (intro conjI allI ballI impI)
      fix c t
      assume "map_of (stored r) c = Some t"
      then show "map_of (stored acc) c = Some t \<and> c \<notin> set (code # codes) \<or>
          c \<in> set (code # codes) - skip \<and> (\<exists>t'. latest_point db' c = Some t' \<and> t \<le> t')"
        using ih [THEN conjunct1, rule_format, of c t] ih here store(1) d(2)
        by (cases "c = code") (simp_all add: update_conv')
    next
      fix c
      assume "c \<in> set (code # codes)" "map_of (stored r) c = None"
      then show "latest_point db' c = latest_point db c"
        using ih other d(2) by (cases "c = code") (simp_all add: update_conv')
    next
      fix c
      assume "c \<notin> set (code # codes)"
      then show "map_of (stored r) c = map_of (stored acc) c" using ih by (simp add: update_conv')
    next
      fix c
      assume "c \<in> set (unavailable r)"
      then show "c \<in> set (unavailable acc) \<or> c \<in> set (code # codes) - skip \<and> map_of (stored r) c = None"
        using ih by auto
    qed
  qed
qed simp

end


lemma slot_start_bounds:
  "slot_start now period = Some slot \<Longrightarrow> 0 < period \<Longrightarrow> slot \<le> now \<and> now < slot + secs period"
  by (auto simp: slot_start_def secs_def split: if_splits)



lemma watched_refresh:
  "fst (refresh_carbon (current_moer sample_env) 0 (secs 1789474000) 3600 300 {''COAL''} (new_client ''co2_moer'' 10 5)
      (watched_db (secs 1789473000))) = Inr \<lparr>stored = [(''WIND'', secs 1789473900)], unavailable = []\<rparr>"
  by code_simp


end
