(* ===== verification/Metrics.thy ===== *)
theory Metrics
  imports Monitor_Tasks
begin

text \<open>
  The gauges that the monitor recomputes from the database (\<open>metrics.py\<close>). A gauge with a label
  is a dict from the labels to the values; what was set once stays until it is set again. The
  counters, incremented where the work happens, and the HTTP endpoint are left out.
\<close>

section \<open>Gauges\<close>

record Gauges =
  domains_by_status :: "(status \<times> nat) list"
  served_domains :: nat
  queue_depth :: "(qstate \<times> nat) list"
  queue_oldest_seconds :: rat
  endpoints_total :: "(bool \<times> nat) list"
  region_moer :: "(string \<times> rat) list"
  expected_saving :: rat
  saving_domains :: nat

text \<open>\<open>SELECT key, count(*) ... GROUP BY key\<close> as a dict, and \<open>get(key, 0)\<close>.\<close>

definition count_by :: "('r \<Rightarrow> 'k) \<Rightarrow> 'r list \<Rightarrow> ('k \<times> nat) list" where
  "count_by key rows = map (\<lambda>k. (k, length (filter (\<lambda>r. key r = k) rows))) (remdups (map key rows))"

definition get_count :: "('k \<times> nat) list \<Rightarrow> 'k \<Rightarrow> nat" where
  "get_count counts k = (case map_of counts k of None \<Rightarrow> 0 | Some n \<Rightarrow> n)"

text \<open>The gauge of one label after another.\<close>

definition set_labels :: "('k \<Rightarrow> 'v) \<Rightarrow> 'k list \<Rightarrow> ('k \<times> 'v) list \<Rightarrow> ('k \<times> 'v) list" where
  "set_labels f ks g = fold (\<lambda>k. AList.update k (f k)) ks g"

definition counted_as_served :: "timestamp \<Rightarrow> db \<Rightarrow> domain_row \<Rightarrow> bool" where
  "counted_as_served now db d \<longleftrightarrow> domain_rows db d \<noteq> [] \<and> \<not> (\<exists>t \<in> set (per_type (domain_rows db d)). t \<le> now)"

definition oldest_seconds :: "timestamp \<Rightarrow> db \<Rightarrow> rat" where
  "oldest_seconds now db =
     (case sql_min (map q_enqueued_at (filter (\<lambda>r. q_state r = QPending) (measurement_queue db))) of
        None \<Rightarrow> 0 | Some t \<Rightarrow> of_int (now - t) / 1000000)"

text \<open>\<open>DISTINCT ON (region_code) ... ORDER BY region_code, point_time DESC\<close>.\<close>

definition latest_moers :: "db \<Rightarrow> (string \<times> rat) list" where
  "latest_moers db = concat (map (\<lambda>c. case latest_signal db c of None \<Rightarrow> [] | Some s \<Rightarrow> [(c, s_moer s)])
     (remdups (map s_region_code (carbon_signals db))))"

text \<open>
  The MOER values that the saving query joins to a domain and a type: one for every fresh
  record whose endpoint is located in a region with a signal and not anycast.
\<close>

definition group_moers :: "timestamp \<Rightarrow> db \<Rightarrow> domain_row \<Rightarrow> rtype \<Rightarrow> rat list" where
  "group_moers now db d t =
     concat (map (\<lambda>r. case moer_of db (r_address r) of None \<Rightarrow> [] | Some m \<Rightarrow> [m])
       (fresh_rows now t (domain_rows db d)))"

definition mean :: "rat list \<Rightarrow> rat" where
  "mean xs = sum_list xs / of_nat (length xs)"

definition saving_groups :: "timestamp \<Rightarrow> db \<Rightarrow> (domain_row \<times> rtype) list" where
  "saving_groups now db = filter (\<lambda>(d, t). 1 < card (set (group_moers now db d t)))
     (concat (map (\<lambda>d. [(d, RT_A), (d, RT_AAAA)]) (domains db)))"

definition saving_of :: "timestamp \<Rightarrow> db \<Rightarrow> domain_row \<times> rtype \<Rightarrow> rat" where
  "saving_of now db g = (case g of (d, t) \<Rightarrow>
     mean (group_moers now db d t) - Min (set (group_moers now db d t)))"

definition refresh_from_database :: "timestamp \<Rightarrow> db \<Rightarrow> Gauges \<Rightarrow> Gauges" where
  "refresh_from_database now db g =
     (let seen = count_by d_status (domains db);
          depth = count_by q_state (measurement_queue db);
          located = count_by (\<lambda>e. e_lat e \<noteq> None) (endpoints db);
          groups = saving_groups now db
      in \<lparr>domains_by_status = set_labels (get_count seen) [Pending, Resolved, Nxdomain, Nodata, Failed] (domains_by_status g),
          served_domains = length (filter (counted_as_served now db) (domains db)),
          queue_depth = set_labels (get_count depth) [QPending, QDead] (queue_depth g),
          queue_oldest_seconds = oldest_seconds now db,
          endpoints_total = set_labels (get_count located) [True, False] (endpoints_total g),
          region_moer = fold (\<lambda>(c, m). AList.update c m) (latest_moers db) (region_moer g),
          expected_saving = (if groups = [] then 0 else mean (map (saving_of now db) groups)),
          saving_domains = length groups\<rparr>)"

section \<open>Counts\<close>

lemma get_count_by [simp]: "get_count (count_by key rows) k = length (filter (\<lambda>r. key r = k) rows)"
proof -
  have "map_of (map (\<lambda>k. (k, f k)) ks) k = (if k \<in> set ks then Some (f k) else None)" for f :: "'a \<Rightarrow> nat" and ks
    by (induction ks) auto
  then show ?thesis
    by (auto simp: get_count_def count_by_def filter_empty_conv)
qed

lemma map_of_set_labels:
  "map_of (set_labels f ks g) k = (if k \<in> set ks then Some (f k) else map_of g k)"
  unfolding set_labels_def by (induction ks arbitrary: g) (auto simp: update_conv')

section \<open>Served domains\<close>

text \<open>A served name is the canonical name of a domain row.\<close>

lemma rows_of_domain:
  assumes "domains_ok db" and "d \<in> set (domains db)"
  shows "rows_of db (normalize_name (d_name d)) = domain_rows db d"
proof -
  have "normalize_name (d_name d) = d_name d"
    using assms by (auto simp: domains_ok_def domain_ok_def canonical_def)
  moreover have "find_row d_name (d_name d) (domains db) = Some d"
    using assms by (auto simp: domains_ok_def find_row_unique)
  ultimately show ?thesis by (simp add: rows_of_def domain_rows_def)
qed

lemma counted_as_served_iff:
  assumes "domains_ok db" and "d \<in> set (domains db)"
  shows "counted_as_served now db d \<longleftrightarrow> dlz_findzone now db (d_name d)"
  using rows_of_domain [OF assms]
  by (auto simp: counted_as_served_def dlz_findzone_def Let_def not_le)

lemma findzone_domain:
  assumes "dlz_findzone now db name" and "canonical name"
  shows "\<exists>d \<in> set (domains db). d_name d = name"
proof -
  have n: "normalize_name name = name" using assms(2) by (simp add: canonical_def)
  show ?thesis
    using assms(1) by (auto simp: dlz_findzone_def rows_of_def n split: option.splits dest: find_row_SomeD)
qed

lemma served_gauge:
  assumes "domains_ok db"
  shows "served_domains (refresh_from_database now db g) = card {n. canonical n \<and> dlz_findzone now db n}"
proof -
  let ?served = "filter (counted_as_served now db) (domains db)"
  have "distinct (map d_name ?served)"
    using assms unique_key_filter by (auto simp: domains_ok_def unique_key_def)
  then have "length ?served = card (d_name ` set ?served)"
    by (metis distinct_card length_map list.set_map)
  moreover have "d_name ` set ?served = {n. canonical n \<and> dlz_findzone now db n}"
    using assms findzone_domain [of now db] counted_as_served_iff [OF assms, of _ now]
    by (auto simp: domains_ok_def domain_ok_def image_iff)
  ultimately show ?thesis by (simp add: refresh_from_database_def Let_def)
qed

lemma count_partition:
  assumes "distinct ks" and "key ` set rows \<subseteq> set ks"
  shows "(\<Sum>k\<leftarrow>ks. length (filter (\<lambda>r. key r = k) rows)) = length rows"
  using assms(2)
proof (induction rows)
  case (Cons r rows)
  have "(\<Sum>k\<leftarrow>ks. if key r = k then (1::nat) else 0) = 1"
    using assms(1) Cons.prems by (simp add: sum_list_distinct_conv_sum_set)
  moreover have "(\<Sum>k\<leftarrow>ks. length (filter (\<lambda>x. key x = k) (r # rows))) =
      (\<Sum>k\<leftarrow>ks. if key r = k then 1 else 0) + (\<Sum>k\<leftarrow>ks. length (filter (\<lambda>x. key x = k) rows))"
    by (simp add: sum_list_addf [symmetric]) (intro arg_cong [of _ _ sum_list] map_cong, simp_all)
  ultimately show ?case using Cons by simp
qed simp

text \<open>
  C23: The gauges describe the database. The gauge of served domains is the number of names
  that the answer policy serves at that moment. The gauges of domains, queue entries and
  endpoints have a value for every label, also for those without a row, and their values sum
  up to the number of rows.
\<close>

theorem gauges_describe_the_database:
  assumes "domains_ok db" and "refresh_from_database now db g = g'"
  shows "served_domains g' = card {n. canonical n \<and> dlz_findzone now db n} \<and>
    (\<forall>s. map_of (domains_by_status g') s = Some (length (filter (\<lambda>d. d_status d = s) (domains db)))) \<and>
    (\<Sum>s\<leftarrow>[Pending, Resolved, Nxdomain, Nodata, Failed]. the (map_of (domains_by_status g') s)) = length (domains db) \<and>
    (\<Sum>s\<leftarrow>[QPending, QDead]. the (map_of (queue_depth g') s)) = length (measurement_queue db) \<and>
    (\<Sum>b\<leftarrow>[True, False]. the (map_of (endpoints_total g') b)) = length (endpoints db)"
proof -
  have g: "domains_by_status g' = set_labels (get_count (count_by d_status (domains db)))
        [Pending, Resolved, Nxdomain, Nodata, Failed] (domains_by_status g)"
    "queue_depth g' = set_labels (get_count (count_by q_state (measurement_queue db))) [QPending, QDead] (queue_depth g)"
    "endpoints_total g' = set_labels (get_count (count_by (\<lambda>e. e_lat e \<noteq> None) (endpoints db))) [True, False] (endpoints_total g)"
    using assms(2) by (auto simp: refresh_from_database_def Let_def)
  have s: "s \<in> set [Pending, Resolved, Nxdomain, Nodata, Failed]" for s by (cases s) simp_all
  have q: "s \<in> set [QPending, QDead]" for s by (cases s) simp_all
  show ?thesis
  proof (intro conjI allI)
    show "served_domains g' = card {n. canonical n \<and> dlz_findzone now db n}"
      using served_gauge [OF assms(1)] assms(2) by auto
    show "map_of (domains_by_status g') x = Some (length (filter (\<lambda>d. d_status d = x) (domains db)))" for x
      using s [of x] unfolding g by (simp only: map_of_set_labels if_True get_count_by)
    show "(\<Sum>x\<leftarrow>[Pending, Resolved, Nxdomain, Nodata, Failed]. the (map_of (domains_by_status g') x)) = length (domains db)"
      using count_partition [of "[Pending, Resolved, Nxdomain, Nodata, Failed]" d_status "domains db"] s
      unfolding g by (simp add: map_of_set_labels subset_iff)
    show "(\<Sum>x\<leftarrow>[QPending, QDead]. the (map_of (queue_depth g') x)) = length (measurement_queue db)"
      using count_partition [of "[QPending, QDead]" q_state "measurement_queue db"] q
      unfolding g by (simp add: map_of_set_labels subset_iff)
    show "(\<Sum>b\<leftarrow>[True, False]. the (map_of (endpoints_total g') b)) = length (endpoints db)"
      using count_partition [of "[True, False]" "\<lambda>e. e_lat e \<noteq> None" "endpoints db"]
      unfolding g by (simp add: map_of_set_labels subset_iff)
  qed
qed

definition no_gauges :: Gauges where
  "no_gauges = \<lparr>domains_by_status = [], served_domains = 0, queue_depth = [], queue_oldest_seconds = 0,
     endpoints_total = [], region_moer = [], expected_saving = 0, saving_domains = 0\<rparr>"

theorem gauges_describe_the_database_witness:
  "card {n. canonical n \<and> dlz_findzone 5 green_db n} = 1"
proof -
  have "served_domains (refresh_from_database 5 green_db no_gauges) = 1" by code_simp
  moreover have "domains_ok green_db" using green_db_ok by (simp add: db_ok_def)
  ultimately show ?thesis using gauges_describe_the_database [OF _ refl, of green_db 5 no_gauges] by simp
qed

section \<open>The expected saving\<close>

lemma mean_ge:
  assumes "\<And>x. x \<in> set xs \<Longrightarrow> m \<le> x" and "xs \<noteq> []"
  shows "m \<le> mean xs" and "\<exists>x \<in> set xs. m < x \<Longrightarrow> m < mean xs"
proof -
  have "m * of_nat (length ys) \<le> sum_list ys \<and> ((\<exists>y \<in> set ys. m < y) \<longrightarrow> m * of_nat (length ys) < sum_list ys)"
    if "\<forall>y \<in> set ys. m \<le> y" for ys
    using that by (induction ys) (auto simp: algebra_simps intro: add_mono add_less_le_mono add_le_less_mono)
  from this [of xs] show "m \<le> mean xs" and "\<exists>x \<in> set xs. m < x \<Longrightarrow> m < mean xs"
    using assms by (simp_all add: mean_def field_simps)
qed

lemma set_group_moers: "set (group_moers now db d t) =
    {m. \<exists>r \<in> set (fresh_rows now t (domain_rows db d)). moer_of db (r_address r) = Some m}"
  by (auto simp: group_moers_def split: option.splits)

lemma saving_of_pos:
  assumes "g \<in> set (saving_groups now db)"
  shows "0 < saving_of now db g"
proof -
  obtain d t where g: "g = (d, t)" by (cases g)
  let ?xs = "group_moers now db d t"
  have c: "1 < card (set ?xs)" using assms by (auto simp: saving_groups_def g)
  then have ne: "?xs \<noteq> []" by auto
  have "set ?xs \<noteq> {Min (set ?xs)}" using c by (metis is_singletonI is_singleton_altdef less_irrefl)
  then obtain x where "x \<in> set ?xs" "x \<noteq> Min (set ?xs)" using ne Min_in [of "set ?xs"] by auto
  then have "\<exists>x \<in> set ?xs. Min (set ?xs) < x" by (metis List.finite_set Min_le order_less_le)
  then show ?thesis using mean_ge(2) [of ?xs "Min (set ?xs)"] ne by (simp add: saving_of_def g)
qed

lemma hd_sort_key_le: "xs \<noteq> [] \<Longrightarrow> x \<in> set xs \<Longrightarrow> f (hd (sort_key f xs)) \<le> f x"
proof -
  assume "xs \<noteq> []" "x \<in> set xs"
  then obtain y ys where y: "sort_key f xs = y # ys" by (metis list.exhaust set_empty set_sort)
  then have "sorted (map f (y # ys))" "x \<in> set (y # ys)"
    using \<open>x \<in> set xs\<close> sorted_sort_key [of f xs] by (metis, metis set_sort)
  then show ?thesis using y by auto
qed

text \<open>The address answered first has the smallest of the MOER values.\<close>

lemma greenest_first:
  assumes "1 \<le> answer_k (settings db)" and "group_moers now db d t \<noteq> []"
  shows "chosen now rnd db t (domain_rows db d) \<noteq> [] \<and>
    moer_of db (c_address (hd (chosen now rnd db t (domain_rows db d)))) = Some (Min (set (group_moers now db d t)))"
proof -
  let ?rows = "domain_rows db d" and ?ms = "set (group_moers now db d t)"
  let ?cs = "candidates now t ?rows" and ?f = "\<lambda>c. (nulls_last (moer_of db (c_address c)), rnd (c_address c))"
  have addresses: "c_address ` set ?cs = r_address ` set (fresh_rows now t ?rows)"
    using candidate_addresses [of now t ?rows] by (metis list.set_map set_remdups)
  have "Min ?ms \<in> ?ms" using assms(2) by simp
  then obtain r where r: "r \<in> set (fresh_rows now t ?rows)" "moer_of db (r_address r) = Some (Min ?ms)"
    unfolding set_group_moers by blast
  have "r_address r \<in> c_address ` set ?cs" unfolding addresses using r(1) by (rule imageI)
  then obtain c where c: "c \<in> set ?cs" "moer_of db (c_address c) = Some (Min ?ms)"
    using r(2) by auto
  then have ne: "?cs \<noteq> []" "sort_key ?f ?cs \<noteq> []"
    using set_sort [of ?f ?cs] by (metis empty_iff list.set(1))+
  let ?h = "hd (sort_key ?f ?cs)"
  have "chosen now rnd db t ?rows \<noteq> []" "hd (chosen now rnd db t ?rows) = ?h"
    using assms(1) ne(2) by (simp_all add: chosen_def ranked_def hd_take)
  moreover have "nulls_last (moer_of db (c_address ?h)) \<le> (0, Min ?ms)"
    using hd_sort_key_le [OF ne(1) c(1), of ?f] c(2) by (auto simp: nulls_last_def)
  then obtain v where v: "moer_of db (c_address ?h) = Some v" "v \<le> Min ?ms"
    by (auto simp: nulls_last_def split: option.splits)
  have "?h \<in> set ?cs" using ne(2) by (metis hd_in_set set_sort)
  then have "c_address ?h \<in> r_address ` set (fresh_rows now t ?rows)" unfolding addresses [symmetric] by (rule imageI)
  then have "v \<in> ?ms" using v(1) by (auto simp: set_group_moers)
  then have "v = Min ?ms" using v(2) by (simp add: antisym)
  ultimately show ?thesis using v(1) by simp
qed


lemma green_gauges:
  "refresh_from_database 5 green_db no_gauges =
     \<lparr>domains_by_status = [(Pending, 0), (Resolved, 1), (Nxdomain, 0), (Nodata, 0), (Failed, 0)], served_domains = 1,
      queue_depth = [(QPending, 0), (QDead, 0)], queue_oldest_seconds = 0, endpoints_total = [(True, 0), (False, 3)],
      region_moer = [(''COAL'', 800), (''WIND'', 20)], expected_saving = 390, saving_domains = 1\<rparr>"
  by code_simp


text \<open>
  The mean weighs an address by the number of resolvers that answered it, while the policy
  chooses among addresses: a second resolver with the same address changes the gauge.
\<close>

definition two_resolvers_db :: db where
  "two_resolvers_db = green_db\<lparr>rrset_records := (hd sample_rows)\<lparr>r_resolver := ''1.1.1.1''\<rparr> # sample_rows\<rparr>"

lemma saving_weighs_by_resolvers:
  "map c_address (candidates 5 RT_A (rrset_records two_resolvers_db)) = map c_address (candidates 5 RT_A (rrset_records green_db)) \<and>
   expected_saving (refresh_from_database 5 green_db no_gauges) = 390 \<and>
   expected_saving (refresh_from_database 5 two_resolvers_db no_gauges) = 520"
  by code_simp

end
