(* ===== verification/Cli.thy ===== *)
theory Cli
  imports Collector Worker_Service Monitor_Service Metrics
begin

text \<open>
  The command line (\<open>cli.py\<close>): how the services are put together from the settings, the
  closures of the monitor, the report of \<open>cadns measure\<close> and the health check. Whether a file
  exists, the reader of an MMDB file and the transport that belongs to an API token are
  arguments. Parsing the arguments, log lines and signals are left out.
\<close>

section \<open>Construction\<close>

definition build_geolocator ::
  "(string \<Rightarrow> bool) \<Rightarrow> (string \<Rightarrow> string \<Rightarrow> json option) \<Rightarrow> (string \<Rightarrow> api_transport) \<Rightarrow> Settings \<Rightarrow> Geolocator option" where
  "build_geolocator is_file open_database http s =
     (let sources =
        (case ipinfo_mmdb s of None \<Rightarrow> [] | Some path \<Rightarrow> if is_file path then [Mmdb (open_database path)] else []) @
        (case ipinfo_token s of None \<Rightarrow> [] | Some token \<Rightarrow> [Api (http token)])
      in if sources = [] then None
         else Some \<lparr>geo_sources_of = sources, anycast_lookup = anycast_lookup_setting s\<rparr>)"

text \<open>The client as of the monotonic time \<open>start\<close>.\<close>

definition build_watttime :: "rat \<Rightarrow> Settings \<Rightarrow> WattTimeClient option" where
  "build_watttime start s =
     (if watttime_username s = None \<or> watttime_password s = None then None
      else Some (new_client (watttime_signal_type s) (watttime_requests_per_second s) start))"

definition cli_worker :: "string \<Rightarrow> Settings \<Rightarrow> Worker" where
  "cli_worker i s = new_worker i (worker_concurrency s)"

definition cli_collector :: "Settings \<Rightarrow> Collector" where
  "cli_collector s = new_collector (Config.ignore_suffixes s) (nat (collector_max_batch s))"

definition cli_freshness :: "Settings \<Rightarrow> FreshnessPolicy" where
  "cli_freshness s = \<lparr>activity_window_seconds = monitor_activity_window_seconds s,
     lead_seconds = monitor_lead_seconds s, min_remeasure_seconds = monitor_min_remeasure_seconds s\<rparr>"

definition cli_retention :: "Settings \<Rightarrow> RetentionPolicy" where
  "cli_retention s = \<lparr>domain_days = gc_domain_retention_days s, endpoint_days = gc_endpoint_retention_days s,
     carbon_history_days = gc_carbon_history_days s, batch_size = batch_size default_retention\<rparr>"

definition cli_schedules :: "Settings \<Rightarrow> Schedule list" where
  "cli_schedules s =
     [new_schedule ''expiry-scan'' (monitor_scan_seconds s), new_schedule ''metrics'' (metrics_refresh_seconds s)] @
     (if build_watttime 0 s = None then [] else [new_schedule ''carbon-refresh'' (monitor_carbon_check_seconds s)]) @
     [new_schedule ''gc'' (monitor_gc_seconds s)]"

section \<open>The carbon job of the monitor\<close>

text \<open>
  Its state is the dict \<open>unavailable_until\<close>, the client and the database; \<open>loop_time\<close> is the
  monotonic time of the event loop. An exception of the refresh leaves the dict as it was.
\<close>

definition carbon_skip :: "rat \<Rightarrow> (string \<times> rat) list \<Rightarrow> string set" where
  "carbon_skip loop_time until = fst ` set (filter (\<lambda>(r, u). u > loop_time) until)"

definition carbon_refresh ::
  "('w \<Rightarrow> string \<Rightarrow> (client_error + Signal option) \<times> 'w) \<Rightarrow> Settings \<Rightarrow> rat \<Rightarrow> timestamp \<Rightarrow> timestamp \<Rightarrow>
   (string \<times> rat) list \<times> 'w \<times> db \<Rightarrow> (refresh_error + CarbonRefresh) \<times> (string \<times> rat) list \<times> 'w \<times> db" where
  "carbon_refresh moer s loop_time db_now now st = (case st of (until, w, db) \<Rightarrow>
     (case refresh_carbon moer db_now now (monitor_activity_window_seconds s) (carbon_period_seconds s)
             (carbon_skip loop_time until) w db of
        (Inl e, w', db') \<Rightarrow> (Inl e, until, w', db')
      | (Inr result, w', db') \<Rightarrow>
          (Inr result,
           fold (\<lambda>r. AList.update r (loop_time + of_int (carbon_unavailable_backoff_seconds s))) (unavailable result) until,
           w', db')))"

text \<open>One run after the other; before each, others may have changed the database.\<close>

definition carbon_runs ::
  "('w \<Rightarrow> string \<Rightarrow> (client_error + Signal option) \<times> 'w) \<Rightarrow> Settings \<Rightarrow>
   (rat \<times> timestamp \<times> timestamp \<times> (db \<Rightarrow> db)) list \<Rightarrow>
   (string \<times> rat) list \<times> 'w \<times> db \<Rightarrow> (string \<times> rat) list \<times> 'w \<times> db" where
  "carbon_runs moer s = fold (\<lambda>(loop_time, db_now, now, world) (until, w, db).
     snd (carbon_refresh moer s loop_time db_now now (until, w, world db)))"

section \<open>Commands\<close>

record measure_report =
  rp_answers :: "Answer list"
  rp_endpoints :: "(endpoint \<times> (rat \<times> timestamp) option) list"
  rp_served :: "(int \<times> rdata) list"

definition rtype_rank :: "rtype \<Rightarrow> nat" where
  "rtype_rank t = (case t of RT_A \<Rightarrow> 0 | RT_AAAA \<Rightarrow> 1)"

text \<open>What \<open>print_report\<close> shows, in its order.\<close>

definition print_report ::
  "timestamp \<Rightarrow> (string \<Rightarrow> rat) \<Rightarrow> (string \<Rightarrow> nat) \<Rightarrow> Measurement \<Rightarrow> db \<Rightarrow> measure_report" where
  "print_report now rnd inet_key m db =
     \<lparr>rp_answers = sort_key (\<lambda>a. (rtype_rank (a_rtype a), a_resolver a)) (oc_answers (m_outcome m)),
      rp_endpoints = (let addresses = outcome_addresses (m_outcome m)
        in if addresses = {} then [] else endpoint_report inet_key addresses db),
      rp_served = filter (\<lambda>(ttl, d). case d of D_Address _ _ \<Rightarrow> True | _ \<Rightarrow> False)
        (dlz_answer now rnd db (m_domain m))\<rparr>"

text \<open>Its text. \<open>:.0f\<close> rounds half to even, and \<open>:<n\<close> fills up with blanks.\<close>

fun nat_text :: "nat \<Rightarrow> string" where
  "nat_text n = (if n < 10 then [char_of (48 + n)] else nat_text (n div 10) @ [char_of (48 + n mod 10)])"

declare nat_text.simps [simp del]

definition int_text :: "int \<Rightarrow> string" where
  "int_text n = (if n < 0 then ''-'' @ nat_text (nat (- n)) else nat_text (nat n))"

definition pad :: "nat \<Rightarrow> string \<Rightarrow> string" where
  "pad n s = s @ replicate (n - length s) (CHR '' '')"

definition newline_text :: string where
  "newline_text = [CHR 0x0A]"

definition rtype_text :: "rtype \<Rightarrow> string" where
  "rtype_text t = (case t of RT_A \<Rightarrow> ''A'' | RT_AAAA \<Rightarrow> ''AAAA'')"

definition status_text :: "status \<Rightarrow> string" where
  "status_text s = (case s of Pending \<Rightarrow> ''pending'' | Resolved \<Rightarrow> ''resolved'' | Nxdomain \<Rightarrow> ''nxdomain''
     | Nodata \<Rightarrow> ''nodata'' | Failed \<Rightarrow> ''failed'')"

definition astatus_text :: "astatus \<Rightarrow> string" where
  "astatus_text s = (case s of A_noerror \<Rightarrow> ''noerror'' | A_nxdomain \<Rightarrow> ''nxdomain'' | A_servfail \<Rightarrow> ''servfail''
     | A_refused \<Rightarrow> ''refused'' | A_timeout \<Rightarrow> ''timeout'' | A_error \<Rightarrow> ''error'')"

definition answer_line :: "Answer \<Rightarrow> string" where
  "answer_line a = ''  '' @ pad 4 (rtype_text (a_rtype a)) @ '' @'' @ pad 15 (a_resolver a) @ '' '' @
     pad 9 (astatus_text (a_status a)) @ '' '' @
     pad 9 (case a_ttl a of None \<Rightarrow> [] | Some t \<Rightarrow> ''ttl='' @ int_text t) @ '' '' @
     (if a_addresses a = [] then ''-'' else join '', '' (a_addresses a)) @ newline_text"

text \<open>\<open>x or fallback\<close> for text that may be null.\<close>

definition text_or :: "string option \<Rightarrow> string \<Rightarrow> string" where
  "text_or s fallback = (case s of None \<Rightarrow> fallback | Some t \<Rightarrow> if t = [] then fallback else t)"

definition endpoint_line :: "endpoint \<times> (rat \<times> timestamp) option \<Rightarrow> string" where
  "endpoint_line em = (case em of (e, moer) \<Rightarrow>
     let place = filter (\<lambda>s. s \<noteq> []) [text_or (e_city e) [], text_or (e_country e) []]
     in ''  '' @ pad 39 (e_address e) @ '' '' @ pad 28 (if place = [] then ''unlocated'' else join '', '' place) @ '' '' @
        pad 9 (case e_asn e of None \<Rightarrow> [] | Some n \<Rightarrow> if n = 0 then [] else ''AS'' @ int_text n) @ '' '' @
        pad 14 (text_or (e_region_code e) ''-'') @ '' '' @
        (case moer of None \<Rightarrow> ''MOER unknown'' | Some (m, t) \<Rightarrow> int_text (py_round m) @ '' gCO2/kWh'') @
        (if e_is_anycast e then '' anycast'' else []) @ newline_text)"

definition served_line :: "int \<times> rdata \<Rightarrow> string" where
  "served_line td = (case td of
      (ttl, D_Address t a) \<Rightarrow> ''  '' @ pad 4 (rtype_text t) @ '' '' @ a @ '' ttl='' @ int_text ttl @ newline_text
    | _ \<Rightarrow> [])"

definition report_text :: "Measurement \<Rightarrow> measure_report \<Rightarrow> string" where
  "report_text m rp =
     newline_text @ m_domain m @ '': '' @ status_text (oc_status (m_outcome m)) @
     (case oc_retry_after_seconds (m_outcome m) of None \<Rightarrow> [] | Some s \<Rightarrow> '' (retry after '' @ int_text s @ ''s)'') @
     newline_text @ newline_text @ ''Upstream answers'' @ newline_text @ concat (map answer_line (rp_answers rp)) @
     (if outcome_addresses (m_outcome m) = {} then []
      else newline_text @ ''Endpoints (greenest first)'' @ newline_text @ concat (map endpoint_line (rp_endpoints rp))) @
     newline_text @ ''CA-DNS answer (cadns.dlz_lookup)'' @ newline_text @
     (if rp_served rp = [] then ''  not served (clients get the normal recursive answer)'' @ newline_text
      else concat (map served_line (rp_served rp)))"

text \<open>\<open>cadns measure\<close>: the exit code, and the printed report unless an exception ended it.\<close>

definition measure_command ::
  "'n pipeline \<Rightarrow> timestamp \<Rightarrow> timestamp \<Rightarrow> (string \<Rightarrow> rat) \<Rightarrow> (string \<Rightarrow> nat) \<Rightarrow> string \<Rightarrow> pstate \<Rightarrow>
   int \<times> string option \<times> pstate" where
  "measure_command p now report_now rnd inet_key domain st =
     (case measure_domain p now domain st of
        (Inl e, st') \<Rightarrow> (1, None, st')
      | (Inr m, st') \<Rightarrow>
          (if oc_status (m_outcome m) \<noteq> Failed then 0 else 1,
           Some (report_text m (print_report report_now rnd inet_key m (ps_db st'))), st'))"

text \<open>\<open>health.age_seconds\<close> of the heartbeat file, if there is one, and the health check.\<close>

definition age_seconds :: "rat \<Rightarrow> rat option \<Rightarrow> rat option" where
  "age_seconds now mtime = map_option (\<lambda>t. max 0 (now - t)) mtime"

definition healthcheck :: "rat \<Rightarrow> rat option \<Rightarrow> rat \<Rightarrow> int" where
  "healthcheck now mtime max_age =
     (case age_seconds now mtime of None \<Rightarrow> 1 | Some age \<Rightarrow> if age > max_age then 1 else 0)"

section \<open>Denied regions rest\<close>

lemma refresh_loop_cong:
  assumes "\<And>w c. c \<notin> skip \<Longrightarrow> moer' w c = moer w c"
  shows "refresh_loop moer' db_now skip codes acc w db = refresh_loop moer db_now skip codes acc w db"
  using assms
  by (induction moer db_now skip codes acc w db rule: refresh_loop.induct)
     (auto split: prod.split sum.split client_error.split option.split)

lemma refresh_loop_unavailable:
  "refresh_loop moer db_now skip codes acc w db = (Inr result, w', db') \<Longrightarrow>
   set (unavailable result) \<subseteq> set (unavailable acc) \<union> (set codes - skip)"
proof (induction moer db_now skip codes acc w db rule: refresh_loop.induct)
  case (2 moer db_now skip code codes acc w db)
  then show ?case
    by (cases "code \<in> skip") (fastforce split: prod.splits sum.splits client_error.splits option.splits)+
qed auto

lemma until_update:
  "map_of (fold (\<lambda>r. AList.update r u) rs until) k = (if k \<in> set rs then Some u else map_of until k)"
  by (induction rs arbitrary: until) (auto simp: update_conv')

lemma distinct_until: "distinct (map fst until) \<Longrightarrow> distinct (map fst (fold (\<lambda>r. AList.update r u) rs until))"
  by (induction rs arbitrary: until) (auto intro: distinct_update)

lemma carbon_skip_iff:
  "distinct (map fst until) \<Longrightarrow> r \<in> carbon_skip t until \<longleftrightarrow> (\<exists>u. map_of until r = Some u \<and> t < u)"
  by (force simp: carbon_skip_def map_of_eq_Some_iff)

text \<open>A run while the region is on the list does not depend on what the source says about it.\<close>

lemma resting_refresh:
  assumes "distinct (map fst until)" and "map_of until code = Some u" and "t < u"
    and "\<And>w c. c \<noteq> code \<Longrightarrow> moer' w c = moer w c"
  shows "carbon_refresh moer' s t db_now now (until, w, db) = carbon_refresh moer s t db_now now (until, w, db)"
    and "carbon_refresh moer s t db_now now (until, w, db) = (r, until', w', db') \<Longrightarrow>
      distinct (map fst until') \<and> map_of until' code = Some u"
proof -
  have skip: "code \<in> carbon_skip t until" using assms(1-3) by (simp add: carbon_skip_iff)
  have same: "moer' w c = moer w c" if "c \<notin> carbon_skip t until" for w c
    using assms(4) [of c w] skip that by blast
  have "refresh_carbon moer' db_now now a b (carbon_skip t until) w db =
      refresh_carbon moer db_now now a b (carbon_skip t until) w db" for a b
    using refresh_loop_cong [of "carbon_skip t until" moer' moer, OF same]
    by (simp add: refresh_carbon_def split: option.split)
  then show "carbon_refresh moer' s t db_now now (until, w, db) = carbon_refresh moer s t db_now now (until, w, db)"
    by (simp add: carbon_refresh_def)
  show "distinct (map fst until') \<and> map_of until' code = Some u"
    if "carbon_refresh moer s t db_now now (until, w, db) = (r, until', w', db')"
    using that assms(1,2) skip
    by (auto simp: carbon_refresh_def refresh_carbon_def until_update distinct_until
        split: prod.splits sum.splits option.splits dest!: refresh_loop_unavailable)
qed

lemma resting_runs:
  assumes "distinct (map fst until)" and "map_of until code = Some u" and "\<forall>(t, rest) \<in> set events. t < u"
    and "\<And>w c. c \<noteq> code \<Longrightarrow> moer' w c = moer w c"
  shows "carbon_runs moer' s events (until, w, db) = carbon_runs moer s events (until, w, db) \<and>
    map_of (fst (carbon_runs moer s events (until, w, db))) code = Some u \<and>
    distinct (map fst (fst (carbon_runs moer s events (until, w, db))))"
  using assms(1-3)
proof (induction events arbitrary: until w db)
  case Nil
  then show ?case by (simp add: carbon_runs_def)
next
  case (Cons ev events)
  obtain t db_now now f where e: "ev = (t, db_now, now, f)" by (cases ev)
  obtain r until1 w1 db1 where c: "carbon_refresh moer s t db_now now (until, w, f db) = (r, until1, w1, db1)"
    by (metis prod_cases4)
  have "t < u" using Cons.prems(3) e by simp
  note rest = resting_refresh(1) [OF Cons.prems(1,2) this assms(4), where s = s and db_now = db_now and now = now
      and w = w and db = "f db"] resting_refresh(2) [OF Cons.prems(1,2) this refl c]
  have same: "carbon_refresh moer' s t db_now now (until, w, f db) = (r, until1, w1, db1)"
    and next1: "distinct (map fst until1)" "map_of until1 code = Some u" using rest c by auto
  have step: "carbon_runs m s (ev # events) (until, w, db) =
      carbon_runs m s events (snd (carbon_refresh m s t db_now now (until, w, f db)))" for m
    by (simp add: carbon_runs_def e)
  show ?case unfolding step same c snd_conv using Cons.IH [OF next1] Cons.prems(3) by simp
qed

text \<open>
  C21: A region without data rests. When a refresh of the monitor finds that WattTime has no
  data for a region, no refresh before the configured backoff has passed asks for it again:
  they all run as they would if the source said anything else about that region, whatever
  happens to the database in between. When the backoff has passed it is no longer skipped.
\<close>

theorem denied_regions_rest:
  assumes "distinct (map fst until)"
    and "carbon_refresh moer s t db_now now (until, w, db) = (Inr result, until1, w1, db1)"
    and "code \<in> set (unavailable result)"
    and "\<forall>(t', rest) \<in> set events. t' < t + of_int (carbon_unavailable_backoff_seconds s)"
    and "\<And>w c. c \<noteq> code \<Longrightarrow> moer' w c = moer w c"
  shows "carbon_runs moer' s events (until1, w1, db1) = carbon_runs moer s events (until1, w1, db1) \<and>
    (\<forall>t''. code \<in> carbon_skip t'' (fst (carbon_runs moer s events (until1, w1, db1))) \<longleftrightarrow>
      t'' < t + of_int (carbon_unavailable_backoff_seconds s))"
proof -
  let ?u = "t + of_int (carbon_unavailable_backoff_seconds s)"
  have "distinct (map fst until1)" "map_of until1 code = Some ?u"
    using assms(1-3) by (auto simp: carbon_refresh_def until_update distinct_until split: prod.splits sum.splits)
  from resting_runs [OF this assms(4,5), where s = s and w = w1 and db = db1] show ?thesis
    by (auto simp: carbon_skip_iff)
qed

definition denying :: "(client_error + Signal option) \<Rightarrow> unit \<Rightarrow> string \<Rightarrow> (client_error + Signal option) \<times> unit" where
  "denying coal w code = (if code = ''COAL'' then coal else Inr None, w)"

lemma coal_denied:
  "map_sum (\<lambda>_. ()) unavailable (fst (carbon_refresh (denying (Inr None)) default_config 100 0 (secs 1789474000)
     ([], (), watched_db (secs 1789473000)))) = Inr [''COAL'', ''WIND'']"
  by code_simp

theorem denied_regions_rest_witness:
  "\<exists>r st. carbon_refresh (denying (Inr None)) default_config 100 0 (secs 1789474000)
       ([], (), watched_db (secs 1789473000)) = (r, st) \<and>
     carbon_runs (denying (Inl (Unexpected KeyError))) default_config [(3000, 1, secs 1789477000, \<lambda>db. db)] st =
     carbon_runs (denying (Inr None)) default_config [(3000, 1, secs 1789477000, \<lambda>db. db)] st"
proof -
  obtain r until1 w1 db1 where c: "carbon_refresh (denying (Inr None)) default_config 100 0 (secs 1789474000)
      ([], (), watched_db (secs 1789473000)) = (r, until1, w1, db1)" by (metis prod_cases4)
  then obtain result where r: "r = Inr result" "unavailable result = [''COAL'', ''WIND'']"
    using coal_denied by (cases r) auto
  have backoff: "carbon_unavailable_backoff_seconds default_config = 3600" by (simp add: default_config_def)
  show ?thesis
    using denied_regions_rest [OF _ c [unfolded r(1)], of "''COAL''" "[(3000, 1, secs 1789477000, \<lambda>db. db)]"
        "denying (Inl (Unexpected KeyError))"] c r(2)
    by (auto simp: denying_def backoff)
qed

section \<open>The configured services\<close>

text \<open>What the services need of their configuration follows from the bounds on the settings.\<close>

lemma cli_schedules_ok:
  assumes "fields_valid s"
  shows "distinct (map sc_name (cli_schedules s)) \<and> cli_schedules s \<noteq> [] \<and>
    (\<forall>x \<in> set (cli_schedules s). 0 < interval_seconds x \<and> next_run x = 0)"
  using assms by (auto simp: cli_schedules_def new_schedule_def fields_valid_def)

lemma cli_retention_ok: "0 < batch_size (cli_retention s)"
  by (simp add: cli_retention_def default_retention_def)

lemma validated_fields: "validated is_address s = Some s' \<Longrightarrow> fields_valid s'"
  by (auto simp: validated_def fields_valid_def split: if_splits option.splits)

text \<open>Nothing of the report of \<open>cadns measure\<close> but the answered addresses says that a name is served.\<close>

lemma report_served:
  "(ttl, d) \<in> set (rp_served (print_report now rnd inet_key m db)) \<longleftrightarrow>
     (\<exists>t a. d = D_Address t a \<and> (ttl, D_Address t a) \<in> set (dlz_lookup now rnd db (m_domain m) ''@''))"
  by (auto simp: print_report_def dlz_answer_def split: rdata.splits)

lemma sample_report:
  "fst (snd (measure_command sample_pipeline 7 8 (\<lambda>_. 0) (\<lambda>_. 0) ''a.net'' sample_pstate)) = Some
     (newline_text @ ''a.net: resolved'' @ newline_text @ newline_text @ ''Upstream answers'' @ newline_text @
      ''  A    @9.9.9.9         noerror   ttl=60    192.0.2.1'' @ newline_text @
      ''  AAAA @9.9.9.9         noerror             -'' @ newline_text @ newline_text @
      ''Endpoints (greenest first)'' @ newline_text @
      ''  192.0.2.1                               unlocated                              -              MOER unknown'' @
      newline_text @ newline_text @ ''CA-DNS answer (cadns.dlz_lookup)'' @ newline_text @
      ''  A    192.0.2.1 ttl=59'' @ newline_text)"
  by code_simp

end
