(* ===== verification/System.thy ===== *)
theory System
  imports Cli
begin

text \<open>
  All services together: one collector, any number of workers that start, stop or crash, the
  monitor, and people who run \<open>cadns measure\<close>, around one database. A step is one of them doing
  one thing: a frame, a flush, a step of a worker (\<open>worker_act\<close>), a job of the monitor, one
  batch of the garbage collection. It is labelled with the measurements it stores. The theorems
  say what holds in every state the services can reach together: the constraints and
  the locks, and where an answer comes from.
\<close>

section \<open>Records and answers\<close>

lemma records_of_rows: "records_of db n = map (\<lambda>r. r\<lparr>r_domain_id := 0\<rparr>) (rows_of db n)"
  by (simp add: records_of_def rows_of_def split: option.split)

text \<open>Whether a name is served, in terms of its records without the surrogate key.\<close>

lemma findzone_records:
  "dlz_findzone t db name \<longleftrightarrow> (let rows = records_of db (normalize_name name) in
     rows \<noteq> [] \<and> (\<forall>r \<in> set rows. \<exists>r' \<in> set rows. r_rtype r' = r_rtype r \<and> t < r_expires_at r'))"
proof -
  have "(\<forall>ty. of_type ty rows \<noteq> [] \<longrightarrow> (\<exists>r \<in> set (of_type ty rows). t < r_expires_at r)) \<longleftrightarrow>
      (\<forall>r \<in> set rows. \<exists>r' \<in> set rows. r_rtype r' = r_rtype r \<and> t < r_expires_at r')" for rows
    by (auto simp: of_type_def filter_empty_conv)
  then show ?thesis unfolding dlz_findzone_iff records_of_rows Let_def by simp
qed

lemma answered_record:
  assumes "(ttl, D_Address ty a) \<in> set (dlz_lookup t rnd db name ''@'')"
  shows "\<exists>r \<in> set (records_of db (normalize_name name)). r_rtype r = ty \<and> r_address r = a \<and> t < r_expires_at r"
proof -
  obtain c where "c \<in> set (candidates t ty (rows_of db (normalize_name name)))" "a = c_address c"
    using assms set_chosen by (fastforce simp: lookup_address_iff Let_def)
  then show ?thesis using candidate_expiry [of c t ty] by (fastforce simp: records_of_rows of_type_def)
qed

text \<open>What a measurement leaves of a name.\<close>

lemma measured_records:
  assumes "db_ok (ps_db st)" and "measure_domain p now domain st = (Inr m, st')"
  shows "normalize_name (m_domain m) = m_domain m"
    and "oc_status (m_outcome m) \<noteq> Failed \<Longrightarrow> oc_status (m_outcome m) = Resolved \<longleftrightarrow> outcome_records (m_outcome m) \<noteq> []"
    and "records_of (ps_db st') n = (if n = m_domain m \<and> oc_status (m_outcome m) \<noteq> Failed
      then map (record_row now 0 (min_record_ttl (settings (ps_db st)))) (outcome_records (m_outcome m))
      else records_of (ps_db st) n)"
    and "settings (ps_db st') = settings (ps_db st)"
proof -
  note cases = measure_domain_cases [OF assms(2,1)]
  have all: "normalize_name (m_domain m) = m_domain m \<and>
    (oc_status (m_outcome m) \<noteq> Failed \<longrightarrow> (oc_status (m_outcome m) = Resolved \<longleftrightarrow> outcome_records (m_outcome m) \<noteq> [])) \<and>
    records_of (ps_db st') n = (if n = m_domain m \<and> oc_status (m_outcome m) \<noteq> Failed
      then map (record_row now 0 (min_record_ttl (settings (ps_db st)))) (outcome_records (m_outcome m))
      else records_of (ps_db st) n) \<and> settings (ps_db st') = settings (ps_db st)"
  proof (rule cases)
    fix m' st1
    assume r: "Inr m = Inr m'" and s: "sound (tables_of (ps_db st)) st1"
      and o: "m_outcome m' = classify_answers (oc_answers (m_outcome m')) (pl_settings p)"
      and w: "store_measurement now (m_domain m') (oc_status (m_outcome m')) (oc_retry_after_seconds (m_outcome m'))
         (map snd (m_endpoints m')) (outcome_records (m_outcome m')) (ps_db st1) = Inr (ps_db st')"
    have ok: "db_ok (ps_db st1)" and t: "tables_of (ps_db st1) = tables_of (ps_db st)" using s by (simp_all add: sound_def)
    have "canonical (m_domain m')" using w by (auto simp: store_measurement_def split: if_splits)
    moreover have "oc_status (m_outcome m') \<noteq> Failed \<longrightarrow>
        (oc_status (m_outcome m') = Resolved \<longleftrightarrow> outcome_records (m_outcome m') \<noteq> [])"
      by (subst (1 2) o) (auto simp: classify_answers_def Let_def outcome_records_def)
    moreover have "records_of (ps_db st1) n = records_of (ps_db st) n" "settings (ps_db st1) = settings (ps_db st)"
      using t records_of_cong [of "ps_db st1" "ps_db st" n] by (auto simp: tables_of_def)
    ultimately show ?thesis
      using r store_measurement_rows(2) [OF ok w, of n] store_measurement_endpoints(2) [OF ok w] by (simp add: canonical_def)
  qed simp
  then show "normalize_name (m_domain m) = m_domain m"
    and "oc_status (m_outcome m) \<noteq> Failed \<Longrightarrow> oc_status (m_outcome m) = Resolved \<longleftrightarrow> outcome_records (m_outcome m) \<noteq> []"
    and "records_of (ps_db st') n = (if n = m_domain m \<and> oc_status (m_outcome m) \<noteq> Failed
      then map (record_row now 0 (min_record_ttl (settings (ps_db st)))) (outcome_records (m_outcome m))
      else records_of (ps_db st) n)"
    and "settings (ps_db st') = settings (ps_db st)" by blast+
qed

section \<open>The system\<close>

record worker_node =
  pr_worker :: Worker
  pr_api :: api_state
  pr_client :: WattTimeClient

record system =
  sy_db :: db
  sy_collector :: Collector
  sy_workers :: "string \<rightharpoonup> worker_node"
  sy_until :: "(string \<times> rat) list"
  sy_monitor :: WattTimeClient

text \<open>
  What the services are given: for each worker, by its identity, the surroundings of its
  pipeline with its settings; the settings of the others, and the monitor's WattTime server.
\<close>

record 'n deployment =
  dp_pipeline :: "string \<Rightarrow> 'n pipeline"
  dp_settings :: Settings
  dp_describe :: "pipeline_error option \<Rightarrow> string"
  dp_from_wire :: "bytes \<Rightarrow> dns_message option"
  dp_watttime :: environment

definition pstate_of :: "db \<Rightarrow> worker_node \<Rightarrow> pstate" where
  "pstate_of db w = \<lparr>ps_db = db, ps_api = pr_api w, ps_client = pr_client w\<rparr>"

definition node_of :: "Worker \<Rightarrow> pstate \<Rightarrow> worker_node" where
  "node_of w st = \<lparr>pr_worker = w, pr_api = ps_api st, pr_client = ps_client st\<rparr>"

text \<open>The statements of the garbage collection, each for one batch.\<close>

inductive gc_statement :: "timestamp \<Rightarrow> RetentionPolicy \<Rightarrow> db \<Rightarrow> db \<Rightarrow> bool" for now policy where
  gc_domains: "gc_statement now policy db (snd (delete_domains (now - days (domain_days policy)) (batch_size policy) db))"
| gc_jobs: "gc_statement now policy db (snd (delete_dead_jobs (now - days (domain_days policy)) (batch_size policy) db))"
| gc_endpoints: "gc_statement now policy db (snd (delete_endpoints (now - days (endpoint_days policy)) (batch_size policy) db))"
| gc_signals: "carbon_history_days policy > 0 \<Longrightarrow>
    gc_statement now policy db (snd (delete_signals (now - days (carbon_history_days policy)) (batch_size policy) db))"

text \<open>
  Workers have identities of their own: a new one is not a running one, nor holds a crashed one
  of the same name a lock (\<open>worker_id\<close> is unique).
\<close>

inductive sys_step ::
  "bool \<Rightarrow> 'n deployment \<Rightarrow> system \<Rightarrow> (timestamp \<times> Measurement) list \<Rightarrow> system \<Rightarrow> bool" for reliable d where
  frame: "on_frame (dp_from_wire d) now frame (sy_collector s) = Inr c \<Longrightarrow>
    sys_step reliable d s [] (s\<lparr>sy_collector := c\<rparr>)"
| flush: "flush now link (sy_collector s) (sy_db s) = (ok, c, db) \<Longrightarrow>
    sys_step reliable d s [] (s\<lparr>sy_collector := c, sy_db := db\<rparr>)"
| lost: "conn (sy_collector s) = OpenConn \<Longrightarrow>
    sys_step reliable d s [] (s\<lparr>sy_collector := (sy_collector s)\<lparr>conn := ClosedConn\<rparr>\<rparr>)"
| collector: "sys_step reliable d s [] (s\<lparr>sy_collector := cli_collector (dp_settings d)\<rparr>)"
| start: "sy_workers s i = None \<Longrightarrow> locked_for i (sy_db s) = {} \<Longrightarrow>
    sys_step reliable d s [] (s\<lparr>sy_workers := (sy_workers s)(i \<mapsto>
      \<lparr>pr_worker = cli_worker i (pl_settings (dp_pipeline d i)), pr_api = api, pr_client = client\<rparr>)\<rparr>)"
| crash: "sys_step reliable d s [] (s\<lparr>sy_workers := (sy_workers s)(i := None)\<rparr>)"
| work: "sy_workers s i = Some w \<Longrightarrow>
    worker_act reliable (dp_pipeline d i) (queue_policy (pl_settings (dp_pipeline d i))) (dp_describe d)
      (pr_worker w, pstate_of (sy_db s) w) ms (w', st) \<Longrightarrow>
    sys_step reliable d s ms (s\<lparr>sy_workers := (sy_workers s)(i \<mapsto> node_of w' st), sy_db := ps_db st\<rparr>)"
| scan: "scan_expiring db_now now (cli_freshness (dp_settings d)) (sy_db s) = Inr (queued, db) \<Longrightarrow>
    sys_step reliable d s [] (s\<lparr>sy_db := db\<rparr>)"
| refresh: "carbon_refresh (current_moer (dp_watttime d)) (dp_settings d) loop_time db_now now
      (sy_until s, sy_monitor s, sy_db s) = (r, until, client, db) \<Longrightarrow>
    sys_step reliable d s [] (s\<lparr>sy_until := until, sy_monitor := client, sy_db := db\<rparr>)"
| collect: "gc_statement now (cli_retention (dp_settings d)) (sy_db s) db \<Longrightarrow>
    sys_step reliable d s [] (s\<lparr>sy_db := db\<rparr>)"
| measure: "measure_command (dp_pipeline d who) now report_now rnd inet_key domain \<lparr>ps_db = sy_db s, ps_api = api, ps_client = client\<rparr> =
      (code, out, st) \<Longrightarrow>
    sys_step reliable d s (made (dp_pipeline d who) now domain \<lparr>ps_db = sy_db s, ps_api = api, ps_client = client\<rparr>) (s\<lparr>sy_db := ps_db st\<rparr>)"

inductive sys_run ::
  "bool \<Rightarrow> 'n deployment \<Rightarrow> system \<Rightarrow> (timestamp \<times> Measurement) list \<Rightarrow> system \<Rightarrow> bool" for reliable d s where
  start_run: "sys_run reliable d s [] s"
| more: "sys_run reliable d s ms t \<Longrightarrow> sys_step reliable d t ms' u \<Longrightarrow> sys_run reliable d s (ms @ ms') u"

text \<open>After the migrations, before any service has run.\<close>

definition fresh_system :: "'n deployment \<Rightarrow> WattTimeClient \<Rightarrow> system" where
  "fresh_system d client = \<lparr>sy_db = empty_db, sy_collector = cli_collector (dp_settings d),
     sy_workers = (\<lambda>_. None), sy_until = [], sy_monitor = client\<rparr>"


section \<open>What a step does to the database\<close>

text \<open>The latest measurement of a name that came to an answer, and the rows it stands for.\<close>

definition last_good :: "string \<Rightarrow> (timestamp \<times> Measurement) list \<Rightarrow> (timestamp \<times> Measurement) option" where
  "last_good n ms = find (\<lambda>tm. m_domain (snd tm) = n \<and> oc_status (m_outcome (snd tm)) \<noteq> Failed) (rev ms)"

definition rows_for :: "db \<Rightarrow> timestamp \<times> Measurement \<Rightarrow> rrset_row list" where
  "rows_for db tm =
     map (record_row (fst tm) 0 (min_record_ttl (settings db))) (outcome_records (m_outcome (snd tm)))"

lemma last_good_Nil [simp]: "last_good n [] = None"
  by (simp add: last_good_def)

lemma find_in_append: "find P (xs @ ys) = (case find P xs of None \<Rightarrow> find P ys | Some x \<Rightarrow> Some x)"
  by (induction xs) auto

lemma last_good_append:
  "last_good n (ms @ ms') = (case last_good n ms' of None \<Rightarrow> last_good n ms | Some tm \<Rightarrow> Some tm)"
  by (simp add: last_good_def find_in_append split: option.split)

lemma last_good_SomeD:
  assumes "last_good n ms = Some (t, m)"
  shows "(t, m) \<in> set ms \<and> m_domain m = n \<and> oc_status (m_outcome m) \<noteq> Failed"
proof -
  obtain i where i: "i < length (rev ms)" "rev ms ! i = (t, m)"
      "m_domain (snd (rev ms ! i)) = n \<and> oc_status (m_outcome (snd (rev ms ! i))) \<noteq> Failed"
    using assms unfolding last_good_def find_Some_iff by metis
  then have "(t, m) \<in> set (rev ms)" by (metis nth_mem)
  then show ?thesis using i(2,3) by simp
qed

text \<open>
  The records of every name are those of its last measurement among \<open>ms\<close>, or as before, or gone
  with the domain.
\<close>

definition accounted :: "db \<Rightarrow> (timestamp \<times> Measurement) list \<Rightarrow> db \<Rightarrow> bool" where
  "accounted db ms db' \<longleftrightarrow> settings db' = settings db \<and>
     (\<forall>n. records_of db' n = [] \<or>
        records_of db' n = (case last_good n ms of None \<Rightarrow> records_of db n | Some tm \<Rightarrow> rows_for db tm))"

lemma accounted_records:
  assumes "accounted db ms db'"
  obtains "records_of db' n = []"
  | "last_good n ms = None" "records_of db' n = records_of db n"
  | tm where "last_good n ms = Some tm" "records_of db' n = rows_for db tm"
  using assms unfolding accounted_def by (cases "last_good n ms") (metis option.case)+

lemma accounted_refl: "accounted db [] db"
  by (simp add: accounted_def)

lemma accounted_same:
  "settings db' = settings db \<Longrightarrow> (\<And>n. records_of db' n = records_of db n) \<Longrightarrow> accounted db [] db'"
  by (simp add: accounted_def)

lemma accounted_trans:
  assumes "accounted db ms db'" and "accounted db' ms' db''"
  shows "accounted db (ms @ ms') db''"
proof -
  have s: "settings db' = settings db" "settings db'' = settings db" using assms by (simp_all add: accounted_def)
  have "records_of db'' n = [] \<or>
      records_of db'' n = (case last_good n (ms @ ms') of None \<Rightarrow> records_of db n | Some tm \<Rightarrow> rows_for db tm)" for n
  proof (rule accounted_records [OF assms(2), of n])
    assume none: "last_good n ms' = None" and same: "records_of db'' n = records_of db' n"
    show ?thesis
      by (rule accounted_records [OF assms(1), of n]) (simp_all add: none same last_good_append)
  next
    fix tm
    assume "last_good n ms' = Some tm" "records_of db'' n = rows_for db' tm"
    then show ?thesis using s by (simp add: last_good_append rows_for_def)
  qed simp
  then show ?thesis using s by (simp add: accounted_def)
qed

subsection \<open>Measurements and queue operations\<close>

lemma measurement_accounted:
  assumes "db_ok (ps_db st)"
  shows "accounted (ps_db st) (made p now domain st) (ps_db (snd (measure_domain p now domain st)))"
proof -
  obtain r st' where r: "measure_domain p now domain st = (r, st')" by (cases "measure_domain p now domain st")
  show ?thesis
  proof (cases r)
    case (Inl e)
    have s: "sound (tables_of (ps_db st)) st'"
      using measure_domain_cases [OF r assms] Inl by (metis Inr_not_Inl)
    then have "settings (ps_db st') = settings (ps_db st)" "records_of (ps_db st') n = records_of (ps_db st) n" for n
      using records_of_cong [of "ps_db st'" "ps_db st" n] by (auto simp: sound_def tables_of_def)
    then show ?thesis using r Inl by (simp add: made_def accounted_same)
  next
    case (Inr m)
    note rec = measured_records(3,4) [OF assms r [unfolded Inr]]
    show ?thesis
      using r Inr rec by (auto simp: made_def accounted_def last_good_def rows_for_def)
  qed
qed

lemma queue_accounted: "accounted db [] (act_queue policy op db)"
  using act_queue_tables [of policy op db] by (intro accounted_same records_of_cong) simp_all

lemma gave_up_accounted: "gave_up policy job w db db' \<Longrightarrow> accounted db [] db'"
  using queue_accounted by (auto simp: gave_up_def)

lemma work_accounted:
  assumes "worker_act reliable p policy describe s ms s'" and "db_ok (ps_db (snd s))"
  shows "accounted (ps_db (snd s)) ms (ps_db (snd s'))"
  using assms(1)
proof cases
  case (claims w now busy reach st n w' db')
  then show ?thesis
    using queue_accounted [of "ps_db st" policy "Op_claim now (w_id w) (concurrency w - int (length (running w))) busy"]
    by (auto simp: worker_claim_def Let_def accounted_refl split: if_splits prod.splits)
next
  case (finishes job w reach recorded st granted now now')
  have "accounted (ps_db st) (if granted then made p now (j_domain job) st else []) (ps_db (attempted granted p now job st))"
    using assms(2) finishes(1) measurement_accounted [of st p now "j_domain job"] by (simp add: accounted_refl)
  moreover have "accounted (ps_db (attempted granted p now job st)) []
      (ps_db (process p policy describe now now' granted reach recorded (w_id w) job st))"
    using process_ends [OF refl, of p policy describe now now' granted reach recorded "w_id w" job st]
      gave_up_accounted accounted_refl by metis
  ultimately show ?thesis using accounted_trans finishes(1-3) by fastforce
next
  case (stops w st)
  then show ?thesis by (simp add: accounted_refl)
next
  case (cancels w job reach now st st1)
  have "accounted (ps_db st) ms (ps_db st1)"
    using cancels(6) assms(2) cancels(1) measurement_accounted [of st p now "j_domain job"]
      records_of_cong [of "ps_db st1" "ps_db st"]
    by (auto simp: cut_short_def sound_def tables_of_def intro!: accounted_same)
  moreover have "accounted (ps_db st1) [] (release_job reach (w_id w) job (ps_db st1))"
    using queue_accounted [of _ policy "Op_release job (w_id w)"] accounted_refl by (simp add: release_job_def)
  ultimately show ?thesis using accounted_trans cancels(1,2) by fastforce
qed


subsection \<open>Batches of the collector\<close>

text \<open>The records survive new domains: a number that was never given has no records.\<close>

lemma records_of_upsert_domain:
  assumes "\<forall>r \<in> set (rrset_records db). r_domain_id r \<noteq> next_domain_id db"
    and "\<And>d. d_name (f d) = d_name d" "\<And>d. d_id (f d) = d_id d" "\<And>i. d_name (new i) = name" "\<And>i. d_id (new i) = i"
  shows "records_of (upsert_domain new f db) n = records_of db n"
proof -
  have "filter (\<lambda>r. r_domain_id r = next_domain_id db) (rrset_records db) = []"
    using assms(1) by (auto simp: filter_empty_conv)
  then show ?thesis
    using assms(2-) by (auto simp: records_of_def find_upsert_domain split: option.split)
qed

lemma records_of_upsert_misses:
  assumes "\<forall>r \<in> set (rrset_records db). r_domain_id r < next_domain_id db"
  shows "records_of (fold (upsert_miss now) seen db) n = records_of db n"
  using assms
proof (induction seen arbitrary: db)
  case (Cons s seen)
  have "records_of (upsert_miss now s db) n = records_of db n"
    unfolding upsert_miss_def
    by (rule records_of_upsert_domain) (use Cons.prems in \<open>auto simp: pending_domain_def\<close>)
  moreover have "\<forall>r \<in> set (rrset_records (upsert_miss now s db)). r_domain_id r < next_domain_id (upsert_miss now s db)"
    using Cons.prems by (auto simp: upsert_miss_def upsert_domain_def)
  ultimately show ?case using Cons.IH [of "upsert_miss now s db"] by simp
qed simp

lemma records_of_write_hits: "records_of (write_hits hs db) n = records_of db n"
proof -
  have keep: "d_name (hit_row g d) = d_name d" "d_id (hit_row g d) = d_id d" for g d
    by (auto simp: hit_row_def split: option.split)
  have "find_row d_name n (map (hit_row g) t) = map_option (hit_row g) (find_row d_name n t)" for g t
    by (induction t) (auto simp: keep)
  then show ?thesis by (simp add: records_of_def write_hits_def keep split: option.split)
qed

lemma upsert_misses_tables:
  "settings (fold (upsert_miss now) seen db) = settings db \<and> grid_regions (fold (upsert_miss now) seen db) = grid_regions db \<and>
   carbon_signals (fold (upsert_miss now) seen db) = carbon_signals db \<and> endpoints (fold (upsert_miss now) seen db) = endpoints db \<and>
   rrset_records (fold (upsert_miss now) seen db) = rrset_records db \<and>
   location_regions (fold (upsert_miss now) seen db) = location_regions db \<and>
   d_id ` set (domains db) \<subseteq> d_id ` set (domains (fold (upsert_miss now) seen db))"
proof (induction seen arbitrary: db)
  case (Cons s seen)
  have "d_id ` set (domains db) \<subseteq> d_id ` set (domains (upsert_miss now s db))"
    unfolding upsert_miss_def by (rule ids_upsert_domain) simp
  then show ?case using Cons [of "upsert_miss now s db"] by (auto simp: upsert_miss_def)
qed simp

lemma db_ok_domains:
  assumes "db_ok db" and "domains_ok db'" and "d_id ` set (domains db) \<subseteq> d_id ` set (domains db')"
    and "settings db' = settings db" "grid_regions db' = grid_regions db" "carbon_signals db' = carbon_signals db"
    "endpoints db' = endpoints db" "rrset_records db' = rrset_records db" "location_regions db' = location_regions db"
    "measurement_queue db' = measurement_queue db"
  shows "db_ok db'"
proof -
  have "region_known db' = region_known db" using assms by (intro region_known_cong)
  moreover have "r_domain_id r \<in> d_id ` set (domains db')" if "r \<in> set (rrset_records db)" for r
    using that assms(1,3) by (auto simp: db_ok_def records_ok_def)
  ultimately show ?thesis
    using assms by (auto simp: db_ok_def settings_ok_def signals_ok_def endpoints_ok_def records_ok_def queue_ok_def locations_ok_def)
qed

text \<open>
  What every step that is not a worker's own keeps: the constraints, the queue, and for each
  worker the rows that are not locked for it; the records as \<open>accounted\<close> says.
\<close>

definition behaves :: "db \<Rightarrow> db \<Rightarrow> bool" where
  "behaves db db' \<longleftrightarrow> db_ok db' \<and> queue_inv db' \<and> (\<forall>i. locked_for i db' \<subseteq> locked_for i db) \<and> accounted db [] db'"

lemma behaves_refl: "db_ok db \<Longrightarrow> queue_inv db \<Longrightarrow> behaves db db"
  by (simp add: behaves_def accounted_refl)

lemma behaves_trans: "behaves db db' \<Longrightarrow> behaves db' db'' \<Longrightarrow> behaves db db''"
  using accounted_trans [of db "[]" db' "[]" db''] by (fastforce simp: behaves_def)

lemma behaves_queue:
  assumes "db_ok db" and "queue_inv db" and "\<And>i. \<not> acts_for i op"
  shows "behaves db (act_queue policy op db)"
  using assms act_queue_ok act_queue_inv locked_for_others queue_accounted by (simp add: behaves_def)

lemma behaves_same_queue:
  assumes "queue_inv db" and "db_ok db'" and "measurement_queue db' = measurement_queue db" and "accounted db [] db'"
  shows "behaves db db'"
  using assms same_queue [OF assms(3)] by (simp add: behaves_def)

lemma write_hits_behaves:
  assumes "db_ok db" and "queue_inv db" and "\<And>n c t. map_of hs n = Some (c, t) \<Longrightarrow> 0 < c"
  shows "behaves db (write_hits hs db)"
proof (rule behaves_same_queue [OF assms(2)])
  have "domains_ok (write_hits hs db)"
    using assms(1) domains_ok_write_hits [OF _ assms(3)] by (simp add: db_ok_def)
  moreover have "d_id (hit_row g d) = d_id d" for g d by (auto simp: hit_row_def split: option.split)
  ultimately show "db_ok (write_hits hs db)"
    by (intro db_ok_domains [OF assms(1)]) (auto simp: write_hits_def image_image)
  show "accounted db [] (write_hits hs db)"
    by (intro accounted_same records_of_write_hits) (simp add: write_hits_def)
qed (simp add: write_hits_def)

lemma write_misses_behaves:
  assumes "db_ok db" and "queue_inv db" and "write_misses now seen db = Inr (queued, db')"
  shows "behaves db db'"
proof -
  let ?u = "fold (upsert_miss now) seen db"
  have names: "\<forall>s \<in> set seen. fst s \<noteq> [] \<and> canonical (fst s)"
    and e: "enqueue now (map fst (filter (due now ?u) seen)) Miss ?u = Inr (queued, db')"
    using assms(3) by (auto simp: write_misses_def Let_def split: if_splits)
  have "domains_ok ?u" using assms(1) names by (intro domains_ok_upsert_misses) (auto simp: db_ok_def)
  then have "db_ok ?u"
    using upsert_misses_tables [of now seen db] fold_upsert_miss_frame [of now seen db]
    by (intro db_ok_domains [OF assms(1)]) auto
  moreover have "\<forall>r \<in> set (rrset_records db). r_domain_id r < next_domain_id db"
    using assms(1) by (fastforce simp: db_ok_def records_ok_def domains_ok_def)
  then have "accounted db [] ?u"
    using upsert_misses_tables [of now seen db] by (intro accounted_same records_of_upsert_misses) auto
  ultimately have u: "behaves db ?u"
    using fold_upsert_miss_frame [of now seen db] by (intro behaves_same_queue [OF assms(2)]) auto
  have "behaves ?u (act_queue policy (Op_enqueue now (map fst (filter (due now ?u) seen)) Miss) ?u)" for policy
    using u by (intro behaves_queue) (auto simp: behaves_def)
  then show ?thesis using u e behaves_trans by fastforce
qed

lemma write_batch_behaves:
  assumes "db_ok db" and "queue_inv db" and "batch_ok b" and "write_batch now link b db = (res, db')"
  shows "behaves db db'"
proof -
  have h: "behaves db (write_hits hs db)" if "map_of hs = stamped_hits b" for hs
    using assms(1-3) stamped_hits_pos that by (intro write_hits_behaves) auto
  show ?thesis
    using assms(4,3)
  proof (cases rule: write_batch_cases)
    case (both hs seen queued)
    show ?thesis
      using behaves_trans [OF h [OF both(1)] write_misses_behaves [OF _ _ both(5)]] h [OF both(1)]
      by (simp add: behaves_def)
  qed (use h behaves_refl assms(1,2) in auto)
qed

lemma flush_behaves:
  assumes "db_ok db" and "queue_inv db" and "batch_ok (batch c)" and "flush now link c db = (ok, c', db')"
  shows "behaves db db' \<and> batch_ok (batch c')"
proof -
  have "db' = db \<or> (\<exists>res. write_batch now link (batch c) db = (res, db'))"
    using assms(4) by (auto simp: flush_def Let_def split: if_splits sum.splits write_error.splits prod.splits)
  then show ?thesis
    using write_batch_behaves [OF assms(1-3)] behaves_refl [OF assms(1,2)] flush_fields(1) [OF assms(4)] empty_batch_ok
    by auto
qed

lemma frame_batch:
  assumes "on_frame from_wire t f c = Inr c'" and "batch_ok (batch c)"
  shows "batch_ok (batch c')"
  using on_frame_event [where from_wire = from_wire and t = t and f = f and c = c] assms
  by (auto simp: record_event_fields add_ok split: option.splits)


subsection \<open>Jobs of the monitor\<close>

lemma scan_behaves:
  assumes "db_ok db" and "queue_inv db" and "scan_expiring db_now now policy db = Inr (queued, db')"
  shows "behaves db db'"
proof -
  have "behaves db (act_queue default_policy (Op_enqueue db_now (expiring_domains now policy db) Expired) db)"
    using assms(1,2) by (rule behaves_queue) simp
  then show ?thesis using assms(3) by (simp add: scan_expiring_def)
qed

lemma refresh_behaves:
  assumes "db_ok db" and "queue_inv db"
    and "carbon_refresh (current_moer env) s loop_time db_now now (until, w, db) = (r, until', w', db')"
  shows "behaves db db'"
proof -
  have "db_ok db' \<and> (\<exists>t. db' = db\<lparr>carbon_signals := t\<rparr>)"
    using assms(3) watttime.refresh_loop_keeps [OF _ assms(1)] assms(1)
    by (auto simp: carbon_refresh_def refresh_carbon_def split: prod.splits sum.splits option.splits
        intro: exI [of _ "carbon_signals db"])
  then show ?thesis
    using assms(2) by (auto intro!: behaves_same_queue accounted_same records_of_cong)
qed

lemma locked_for_delete: "locked_for i (db\<lparr>measurement_queue := delete_where P (measurement_queue db)\<rparr>) \<subseteq> locked_for i db"
  by (auto simp: locked_for_def set_delete_where)

lemma records_of_delete_domains:
  fixes P :: "domain_row \<Rightarrow> bool"
  assumes "db_ok db"
  defines "db' \<equiv> db\<lparr>domains := delete_where P (domains db),
    rrset_records := delete_where (\<lambda>r. r_domain_id r \<in> d_id ` {d \<in> set (domains db). P d}) (rrset_records db)\<rparr>"
  shows "records_of db' n = [] \<or> records_of db' n = records_of db n"
proof (cases "find_row d_name n (domains db')")
  case None
  then show ?thesis by (simp add: records_of_def)
next
  case (Some d)
  have u: "unique_key d_name (domains db)" "unique_key d_id (domains db)"
    using assms(1) by (simp_all add: db_ok_def domains_ok_def)
  then have d: "find_row d_name n (domains db) = Some d" "\<not> P d"
    using Some by (auto simp: db'_def find_row_delete_where split: option.splits if_splits)
  then have "d \<in> set (domains db)" by (auto dest: find_row_SomeD)
  then have "d_id d \<notin> d_id ` {d \<in> set (domains db). P d}"
    using d(2) u(2) by (auto dest: unique_keyD)
  then have "filter (\<lambda>r. r_domain_id r = d_id d) (rrset_records db') = filter (\<lambda>r. r_domain_id r = d_id d) (rrset_records db)"
    by (auto simp: db'_def delete_where_def image_iff intro!: filter_cong)
  then show ?thesis using Some d(1) by (simp add: records_of_def)
qed

lemma gc_behaves:
  assumes "db_ok db" and "queue_inv db" and "gc_statement now policy db db'"
  shows "behaves db db'"
  using assms(3)
proof cases
  case gc_domains
  let ?gone = "batch_of (old_domain (now - days (domain_days policy))) (batch_size policy) (domains db)"
  let ?db = "db\<lparr>domains := delete_where (\<lambda>d. d \<in> ?gone) (domains db),
    rrset_records := delete_where (\<lambda>r. r_domain_id r \<in> d_id ` {d \<in> set (domains db). d \<in> ?gone}) (rrset_records db)\<rparr>"
  have db': "db' = ?db" using gc_domains by (simp add: delete_domains_eq [OF assms(1)] Let_def)
  have "accounted db [] ?db"
    using records_of_delete_domains [OF assms(1), of "\<lambda>d. d \<in> ?gone"] by (simp add: accounted_def)
  then show ?thesis unfolding db'
    using db_ok_delete_domains [OF assms(1), of "\<lambda>d. d \<in> ?gone"] by (intro behaves_same_queue [OF assms(2)]) simp_all
next
  case gc_jobs
  let ?P = "\<lambda>q. q \<in> batch_of (forgotten_job (now - days (domain_days policy)) db) (batch_size policy) (measurement_queue db)"
  let ?db = "db\<lparr>measurement_queue := delete_where ?P (measurement_queue db)\<rparr>"
  have db': "db' = ?db" using gc_jobs by (simp add: delete_jobs_eq [OF assms(1)])
  have "accounted db [] ?db" by (intro accounted_same records_of_cong) simp_all
  then show ?thesis
    unfolding db' behaves_def
    using db_ok_delete_jobs [OF assms(1), of ?P] queue_inv_delete_where [OF assms(2), of ?P] locked_for_delete by blast
next
  case gc_endpoints
  let ?P = "\<lambda>e. e \<in> batch_of (orphaned (now - days (endpoint_days policy)) db) (batch_size policy) (endpoints db)"
  have "\<And>e r. ?P e \<Longrightarrow> r \<in> set (rrset_records db) \<Longrightarrow> r_address r \<noteq> e_address e"
    using batch_of_subset [of "orphaned (now - days (endpoint_days policy)) db"] by (fastforce simp: orphaned_def)
  note ok = db_ok_delete_endpoints [of db ?P, OF assms(1) this]
  then show ?thesis
    using gc_endpoints by (auto simp: delete_endpoints_eq [OF assms(1)]
        intro!: behaves_same_queue [OF assms(2)] accounted_same records_of_cong)
next
  case gc_signals
  then show ?thesis
    using db_ok_delete_signals [OF assms(1)]
    by (auto simp: delete_signals_eq [OF assms(1)]
        intro!: behaves_same_queue [OF assms(2)] accounted_same records_of_cong)
qed

section \<open>What holds of the whole system\<close>

definition sys_inv :: "bool \<Rightarrow> 'n deployment \<Rightarrow> system \<Rightarrow> bool" where
  "sys_inv reliable d s \<longleftrightarrow> db_ok (sy_db s) \<and> queue_inv (sy_db s) \<and> batch_ok (batch (sy_collector s)) \<and>
     (\<forall>i w. sy_workers s i = Some w \<longrightarrow>
        worker_inv reliable (worker_concurrency (pl_settings (dp_pipeline d i))) i (pr_worker w, pstate_of (sy_db s) w))"

lemma pstate_of_fields [simp]: "ps_db (pstate_of db w) = db"
  by (simp add: pstate_of_def)

lemma worker_inv_behaves:
  assumes "worker_inv reliable c i (w, st)" and "behaves (ps_db st) (ps_db st')"
  shows "worker_inv reliable c i (w, st')"
  using assms by (fastforce simp: worker_inv_def behaves_def)

text \<open>A step of the others: the workers stay as they are, and the database behaves.\<close>

lemma sys_inv_behaves:
  assumes "sys_inv reliable d s" and "behaves (sy_db s) (sy_db s')" and "sy_workers s' = sy_workers s"
    and "batch_ok (batch (sy_collector s'))"
  shows "sys_inv reliable d s'"
  using assms worker_inv_behaves [where st = "pstate_of (sy_db s) w" and st' = "pstate_of (sy_db s') w" for w]
  by (auto simp: sys_inv_def behaves_def)

lemma measure_behaves:
  assumes "db_ok (ps_db st)" and "queue_inv (ps_db st)" and "measure_command p now report_now rnd inet_key domain st = (code, out, st')"
  shows "db_ok (ps_db st') \<and> queue_inv (ps_db st') \<and> (\<forall>i. locked_for i (ps_db st') = locked_for i (ps_db st)) \<and>
    accounted (ps_db st) (made p now domain st) (ps_db st')"
proof -
  have st': "st' = snd (measure_domain p now domain st)"
    using assms(3) by (auto simp: measure_command_def split: prod.splits sum.splits)
  show ?thesis
    unfolding st' using measured_queue [OF surjective_pairing assms(1), of p now domain]
      measurement_accounted [OF assms(1), of p now domain] same_queue assms(2) by metis
qed


lemma sys_step_inv:
  assumes "sys_step reliable d s ms s'" and "sys_inv reliable d s"
  shows "sys_inv reliable d s'"
proof -
  have ok: "db_ok (sy_db s)" "queue_inv (sy_db s)" "batch_ok (batch (sy_collector s))"
    and own: "\<And>i w. sy_workers s i = Some w \<Longrightarrow>
      worker_inv reliable (worker_concurrency (pl_settings (dp_pipeline d i))) i (pr_worker w, pstate_of (sy_db s) w)"
    using assms(2) by (simp_all add: sys_inv_def)
  note same = behaves_refl [OF ok(1,2)] and keeps = sys_inv_behaves [OF assms(2)]
  show ?thesis
    using assms(1)
  proof cases
    case (frame now frame c)
    then show ?thesis using keeps same frame_batch [OF _ ok(3)] by auto
  next
    case (flush now link ok' c db)
    then show ?thesis using keeps flush_behaves [OF ok flush(3)] by auto
  next
    case lost
    then show ?thesis using keeps same ok(3) by auto
  next
    case collector
    then show ?thesis using keeps same empty_batch_ok by (auto simp: cli_collector_def new_collector_def)
  next
    case (start i api client)
    have "worker_inv reliable c i (new_worker i c, pstate_of (sy_db s) v)" for c v
      using new_worker_inv [of "pstate_of (sy_db s) v" i] ok start(4) by simp
    then show ?thesis using start(2) assms(2) by (auto simp: sys_inv_def cli_worker_def)
  next
    case (crash i)
    then show ?thesis using assms(2) by (auto simp: sys_inv_def)
  next
    case (work i w w' st)
    note inv = worker_act_inv [OF work(3) own [OF work(2)]]
    have id: "w_id (pr_worker w) = i" using own [OF work(2)] by (simp add: worker_inv_def)
    have ok': "db_ok (ps_db st)" "queue_inv (ps_db st)" using inv by (simp_all add: worker_inv_def)
    have "worker_inv reliable (worker_concurrency (pl_settings (dp_pipeline d j))) j (pr_worker v, pstate_of (ps_db st) v)"
      if "sy_workers s j = Some v" "j \<noteq> i" for j v
      using own [OF that(1)] worker_act_spares [OF work(3)] ok ok' that(2) id by (fastforce simp: worker_inv_def)
    moreover have "worker_inv reliable c i (pr_worker (node_of w' st), pstate_of (ps_db st) (node_of w' st)) =
        worker_inv reliable c i (w', st)" for c
      by (simp add: worker_inv_def node_of_def)
    ultimately show ?thesis using work(1) inv ok' ok(3) by (auto simp: sys_inv_def)
  next
    case (scan db_now now queued db)
    then show ?thesis using keeps scan_behaves [OF ok(1,2) scan(3)] ok(3) by auto
  next
    case (refresh loop_time db_now now r "until" client db)
    then show ?thesis using keeps refresh_behaves [OF ok(1,2) refresh(3)] ok(3) by auto
  next
    case (collect now db)
    then show ?thesis using keeps gc_behaves [OF ok(1,2) collect(3)] ok(3) by auto
  next
    case (measure who now report_now rnd inet_key domain api client code out st)
    note m = measure_behaves [OF _ _ measure(3), simplified, OF ok(1,2)]
    have "worker_inv reliable c i (v, pstate_of (ps_db st) w)"
      if "worker_inv reliable c i (v, pstate_of (sy_db s) w)" for c i v w
      using that m by (simp add: worker_inv_def)
    then show ?thesis using measure(2) m ok(3) own by (auto simp: sys_inv_def)
  qed
qed

lemma sys_step_accounted:
  assumes "sys_step reliable d s ms s'" and "sys_inv reliable d s"
  shows "accounted (sy_db s) ms (sy_db s')"
proof -
  have ok: "db_ok (sy_db s)" "queue_inv (sy_db s)" "batch_ok (batch (sy_collector s))"
    using assms(2) by (simp_all add: sys_inv_def)
  show ?thesis
    using assms(1)
  proof cases
    case (flush now link ok' c db)
    then show ?thesis using flush_behaves [OF ok flush(3)] by (simp add: behaves_def)
  next
    case (work i w w' st)
    then show ?thesis using work_accounted [OF work(3)] ok by simp
  next
    case (scan db_now now queued db)
    then show ?thesis using scan_behaves [OF ok(1,2) scan(3)] by (simp add: behaves_def)
  next
    case (refresh loop_time db_now now r "until" client db)
    then show ?thesis using refresh_behaves [OF ok(1,2) refresh(3)] by (simp add: behaves_def)
  next
    case (collect now db)
    then show ?thesis using gc_behaves [OF ok(1,2) collect(3)] by (simp add: behaves_def)
  next
    case (measure who now report_now rnd inet_key domain api client code out st)
    then show ?thesis using measure_behaves [OF _ _ measure(3), simplified, OF ok(1,2)] by simp
  qed (simp_all add: accounted_refl)
qed

text \<open>A measurement on the label was given its answers by the resolvers of one of the services.\<close>

definition resolved_by :: "'n deployment \<Rightarrow> string \<Rightarrow> Answer list \<Rightarrow> bool" where
  "resolved_by d name answers \<longleftrightarrow> (\<exists>who. let p = dp_pipeline d who in
     resolve (pl_from_text p) (pl_query p) (resolvers (pl_settings p)) name = Inr answers)"

lemma made_resolved:
  assumes "(t, m) \<in> set (made (dp_pipeline d who) now domain st)"
  shows "resolved_by d (m_domain m) (oc_answers (m_outcome m))"
proof -
  obtain st' where "measure_domain (dp_pipeline d who) now domain st = (Inr m, st')"
    using assms by (cases "measure_domain (dp_pipeline d who) now domain st") (auto simp: made_def split: sum.splits)
  then show ?thesis
    unfolding resolved_by_def Let_def
    by (intro exI [of _ who])
       (auto simp: measure_domain_def classify_answers_def Let_def split: option.splits sum.splits prod.splits if_splits)
qed

lemma sys_step_resolved:
  assumes "sys_step reliable d s ms s'" and "(t, m) \<in> set ms"
  shows "resolved_by d (m_domain m) (oc_answers (m_outcome m))"
  using assms
proof cases
  case (work i w w' st)
  from work(3) assms(2) show ?thesis
    by cases (auto simp: cut_short_def dest: made_resolved split: if_splits)
qed (auto dest: made_resolved)

lemma sys_run_inv:
  assumes "sys_run reliable d s ms t" and "sys_inv reliable d s"
  shows "sys_inv reliable d t \<and> accounted (sy_db s) ms (sy_db t) \<and>
    (\<forall>(t0, m) \<in> set ms. resolved_by d (m_domain m) (oc_answers (m_outcome m)))"
  using assms
proof induction
  case start_run
  then show ?case by (simp add: accounted_refl)
next
  case (more ms t ms' u)
  then have t: "sys_inv reliable d t" "accounted (sy_db s) ms (sy_db t)"
      "\<forall>(t0, m) \<in> set ms. resolved_by d (m_domain m) (oc_answers (m_outcome m))" by simp_all
  show ?case
    using sys_step_inv [OF more.hyps(2) t(1)] accounted_trans [OF t(2) sys_step_accounted [OF more.hyps(2) t(1)]]
      t(3) sys_step_resolved [OF more.hyps(2)] by auto
qed


text \<open>Before any service has run: the collector is new, and there are no workers.\<close>

definition idle :: "'n deployment \<Rightarrow> system \<Rightarrow> bool" where
  "idle d s \<longleftrightarrow> db_ok (sy_db s) \<and> queue_inv (sy_db s) \<and> sy_workers s = (\<lambda>_. None) \<and>
     sy_collector s = cli_collector (dp_settings d)"

lemma idle_inv: "idle d s \<Longrightarrow> sys_inv reliable d s"
  by (simp add: idle_def sys_inv_def cli_collector_def new_collector_def empty_batch_ok)

lemma fresh_system_idle: "idle d (fresh_system d client)"
  by (simp add: idle_def fresh_system_def empty_db_ok empty_queue_inv)




text \<open>A worker starts and claims the only job; somebody measures a name on the command line.\<close>

definition sample_deployment :: "string deployment" where
  "sample_deployment = \<lparr>dp_pipeline = (\<lambda>_. sample_pipeline), dp_settings = default_config, dp_describe = (\<lambda>_. []),
     dp_from_wire = (\<lambda>_. None), dp_watttime = sample_env\<rparr>"

definition sample_system :: "db \<Rightarrow> system" where
  "sample_system db = \<lparr>sy_db = db, sy_collector = cli_collector default_config, sy_workers = (\<lambda>_. None),
     sy_until = [], sy_monitor = ps_client sample_pstate\<rparr>"

lemma sample_system_idle: "db_ok db \<Longrightarrow> queue_inv db \<Longrightarrow> idle sample_deployment (sample_system db)"
  by (simp add: idle_def sample_system_def sample_deployment_def)


lemma sample_records:
  "map_sum (\<lambda>_. ()) (\<lambda>m. (m_domain m, oc_status (m_outcome m), outcome_records (m_outcome m)))
     (fst (measure_domain sample_pipeline 7 '' A.Net'' sample_pstate)) =
   Inr (''a.net'', Resolved, [\<lparr>rc_rtype = RT_A, rc_address = ''192.0.2.1'', rc_resolver = ''9.9.9.9'', rc_ttl = 60\<rparr>])"
  by code_simp


end
