(* ===== verification/Journey.thy ===== *)
theory Journey
  imports System
begin

text \<open>
  The way of a name through the services: a client asks for it, BIND has to recurse and the
  collector notes a miss; the flush puts the name on the queue; a worker claims it, measures it and
  takes it off the queue; from then on BIND is told to answer from the database.
\<close>

section \<open>From the batch to the queue\<close>

text \<open>A batch that the database accepts.\<close>

definition writable :: "Batch \<Rightarrow> bool" where
  "writable b \<longleftrightarrow> batch_ok b \<and> (\<forall>(n, c, t) \<in> set (hits b). ts t \<noteq> None) \<and>
     (\<forall>(n, t) \<in> set (misses b). ts t \<noteq> None \<and> n \<noteq> [] \<and> canonical n)"

definition good_link :: "link \<Rightarrow> bool" where
  "good_link l \<longleftrightarrow> connects l \<and> hits_ok l \<and> misses_ok l"

lemma stamp_all_total: "\<forall>(n, v) \<in> set m. f v \<noteq> None \<Longrightarrow> \<exists>r. stamp_all f m = Some r"
  by (induction f m rule: stamp_all.induct) auto

lemma write_batch_total:
  assumes "writable b" and "good_link link"
  obtains queued db' where "write_batch now link b db = (Inr queued, db')"
proof -
  have "\<forall>(n, v) \<in> set (by_name (hits b)). (\<lambda>(c, t). map_option (Pair c) (ts t)) v \<noteq> None"
    using assms(1) by (fastforce simp: by_name_def writable_def)
  from stamp_all_total [OF this]
  obtain hs where hs: "stamp_all (\<lambda>(n, t). map_option (Pair n) (ts t)) (by_name (hits b)) = Some hs" by blast
  have "\<forall>(n, t) \<in> set (by_name (misses b)). ts t \<noteq> None"
    using assms(1) by (fastforce simp: by_name_def writable_def)
  from stamp_all_total [OF this] obtain seen where seen: "stamp_all ts (by_name (misses b)) = Some seen" by blast
  have "fst ` set seen = fst ` set (misses b)"
    using arg_cong [OF stamp_all_keys [OF seen], of set] by (simp add: by_name_def)
  moreover have "\<forall>n \<in> fst ` set (misses b). n \<noteq> [] \<and> canonical n"
    using assms(1) by (auto simp: writable_def)
  ultimately have "\<forall>s \<in> set seen. fst s \<noteq> [] \<and> canonical (fst s)" by (metis imageI)
  then obtain queued db' where "write_misses now seen (if hits b = [] then db else write_hits hs db) = Inr (queued, db')"
    by (rule write_misses_total)
  then show ?thesis
    using that hs seen assms(2) by (cases "misses b = []") (auto simp: write_batch_def good_link_def Let_def)
qed

lemma flushed_miss_is_queued:
  assumes "writable (batch c)" and "good_link link" and "queue_ok db"
    and "n \<in> fst ` set (misses (batch c))" and "about db n = None" and "find_row q_domain n (measurement_queue db) = None"
    and "flush now link c db = (ok, c', db')"
  shows "ok \<and> find_row q_domain n (measurement_queue db') = Some (new_job now Miss n)"
proof -
  obtain queued db1 where w: "write_batch now link (batch c) db = (Inr queued, db1)"
    by (rule write_batch_total [OF assms(1,2)])
  have "batch_len (batch c) \<noteq> 0" using assms(4) by (auto simp: batch_len_def)
  then have f: "ok" "db' = db1" using assms(2,7) w by (auto simp: flush_def Let_def good_link_def)
  have b: "batch_ok (batch c)" using assms(1) by (simp add: writable_def)
  have "find_row q_domain n (measurement_queue db1) = Some (new_job now Miss n)"
    using w b
  proof (cases rule: write_batch_cases)
    case (hits_only hs)
    then show ?thesis using assms(4) by simp
  next
    case (both hs seen queued')
    have d: "distinct (map fst seen)" using b both(4) by (simp add: batch_ok_def distinct_by_name)
    have q: "queue_ok (write_hits hs db)" "measurement_queue (write_hits hs db) = measurement_queue db"
      using assms(3) by (simp_all add: queue_ok_def write_hits_def)
    have "n \<in> fst ` set seen"
      using arg_cong [OF both(4), of set] assms(4) by (simp add: by_name_def)
    then obtain t where "map_of seen n = Some t" by (metis map_of_eq_None_iff option.exhaust)
    moreover have "about (write_hits hs db) n = None" using assms(5) by (simp add: about_write_hits)
    ultimately have "n \<in> set queued'"
      using write_misses_effect(2) [OF both(5) d q(1), of n] assms(6) q(2) by (simp add: wanted_def)
    then show ?thesis using write_misses_effect(3) [OF both(5) d q(1), of n] assms(6) q(2) by simp
  qed auto
  then show ?thesis using f by simp
qed

section \<open>From the queue to the worker\<close>

lemma claim_takes_all:
  assumes "claim now worker limit policy busy db = (jobs, db')" and "queue_ok db"
    and "find_row q_domain n (measurement_queue db) = Some r" and "ready now policy r" and "n \<notin> busy"
    and "int (length (measurement_queue db)) \<le> limit"
  shows "job_of (claim_row now worker r) \<in> set jobs"
    and "find_row q_domain n (measurement_queue db') = Some (claim_row now worker r)"
proof -
  let ?rows = "measurement_queue db"
  have r: "r \<in> set ?rows" "q_domain r = n" using find_row_SomeD [OF assms(3)] by simp_all
  then have "0 < length ?rows" by (cases ?rows) auto
  then have pos: "0 < limit" using assms(6) by linarith
  have "length (filter (\<lambda>r. ready now policy r \<and> q_domain r \<notin> busy) ?rows) \<le> nat limit"
    using assms(6) length_filter_le [of _ ?rows] by (meson le_nat_iff nat_int order_trans pos zle_int order_less_imp_le)
  then have "set (pick now limit policy busy ?rows) = {r \<in> set ?rows. ready now policy r \<and> q_domain r \<notin> busy}"
    by (simp add: pick_def)
  then have "r \<in> set (pick now limit policy busy ?rows)" using r assms(4,5) by simp
  then show job: "job_of (claim_row now worker r) \<in> set jobs"
    using claim_jobs [OF assms(1,2)] pos by simp
  have "j_domain (job_of (claim_row now worker r)) = n" using r(2) by (simp add: job_of_def)
  then have "n \<in> j_domain ` set jobs" using job by force
  then show "find_row q_domain n (measurement_queue db') = Some (claim_row now worker r)"
    using claim_look [OF assms(1,2), of n] assms(3) by simp
qed

section \<open>From the worker to the answer\<close>

lemma process_serves:
  assumes "db_ok (ps_db st)" and "measure_domain p now (j_domain job) st = (Inr m, st1)"
    and "m_domain m = j_domain job" and "oc_status (m_outcome m) = Resolved"
    and "find_row q_domain (j_domain job) (measurement_queue (ps_db st)) = Some r" and "q_locked_by r = Some worker"
    and "st' = process p policy describe now now' True True recorded worker job st"
  shows "find_row q_domain (j_domain job) (measurement_queue (ps_db st')) = None"
    and "records_of (ps_db st') (j_domain job) =
      map (record_row now 0 (min_record_ttl (settings (ps_db st)))) (outcome_records (m_outcome m))"
    and "outcome_records (m_outcome m) \<noteq> []" and "settings (ps_db st') = settings (ps_db st)"
    and "normalize_name (j_domain job) = j_domain job"
proof -
  have st': "st' = st1\<lparr>ps_db := complete job worker (ps_db st1)\<rparr>"
    using assms(2,4) by (simp add: assms(7) process_def)
  have q: "db_ok (ps_db st1)" "measurement_queue (ps_db st1) = measurement_queue (ps_db st)"
    using measured_queue [OF assms(2,1)] by simp_all
  have own: "owned job worker r" using assms(6) find_row_SomeD [OF assms(5)] by (simp add: owned_def)
  show "find_row q_domain (j_domain job) (measurement_queue (ps_db st')) = None"
    using complete_look [of "ps_db st1" "j_domain job"] q assms(5) own by (simp add: st' db_ok_def)
  note rec = measured_records [OF assms(1,2)]
  have "records_of (ps_db st') (j_domain job) = records_of (ps_db st1) (j_domain job)"
    by (rule records_of_cong) (simp_all add: st' complete_def)
  then show "records_of (ps_db st') (j_domain job) =
      map (record_row now 0 (min_record_ttl (settings (ps_db st)))) (outcome_records (m_outcome m))"
    using rec(3) [of "j_domain job"] assms(3,4) by simp
  show "outcome_records (m_outcome m) \<noteq> []" using rec(2) assms(4) by simp
  show "settings (ps_db st') = settings (ps_db st)" using rec(4) by (simp add: st' complete_def)
  show "normalize_name (j_domain job) = j_domain job" using rec(1) assms(3) by simp
qed


text \<open>A name that is served has an answer with an address.\<close>

lemma served_has_answer:
  assumes "db_ok db" and "dlz_findzone t db name"
  shows "\<exists>ttl ty a. (ttl, D_Address ty a) \<in> set (dlz_lookup t rnd db name ''@'')"
proof -
  let ?rows = "rows_of db (normalize_name name)"
  have "records_of db (normalize_name name) \<noteq> []" and
    fresh: "\<forall>r \<in> set (records_of db (normalize_name name)). \<exists>r' \<in> set (records_of db (normalize_name name)).
      r_rtype r' = r_rtype r \<and> t < r_expires_at r'"
    using assms(2) by (simp_all add: findzone_records Let_def)
  then obtain r where "r \<in> set ?rows" "t < r_expires_at r"
    unfolding records_of_rows by (cases ?rows) auto
  then have "fresh_rows t (r_rtype r) ?rows \<noteq> []" by (auto simp: of_type_def filter_empty_conv)
  then have "chosen t rnd db (r_rtype r) ?rows \<noteq> []"
    using assms(1) by (intro chosen_nonempty) (simp_all add: db_ok_def settings_ok_def)
  then obtain c where "c \<in> set (chosen t rnd db (r_rtype r) ?rows)" by (meson list.set_sel(1))
  then show ?thesis using assms(2) lookup_address_iff [of _ "r_rtype r" _ t rnd db name] by (metis imageI)
qed

text \<open>
  C7: A missed name gets served. If the collector has noted a miss of a name the database does
  not know, and the batch can be written, the flush puts the name on the queue; if a worker with
  as many free slots as there are rows then claims, it gets the name, whatever else is there; and
  when the measurement of that job finds addresses, the job is off the queue and the name
  is served with an address until the first of its records expires.
\<close>

theorem missed_name_gets_served:
  assumes "db_ok db" and "queue_inv db" and "writable (batch c)" and "good_link link"
    and "n \<in> fst ` set (misses (batch c))" and "about db n = None" and "find_row q_domain n (measurement_queue db) = None"
    and "flush now link c db = (ok, c', db1)"
    and "now \<le> now1" and "n \<notin> busy" and "int (length (measurement_queue db1) + length (running w)) \<le> concurrency w"
    and "worker_claim now1 policy busy True w db1 = (k, w', db2)"
    and "measure_domain p now2 n (st\<lparr>ps_db := db2\<rparr>) = (Inr m, st1)" and "m_domain m = n" and "oc_status (m_outcome m) = Resolved"
  shows "ok \<and> (\<exists>job \<in> set (running w'). j_domain job = n \<and>
    (let db' = ps_db (process p policy describe now2 now3 True True recorded (w_id w') job (st\<lparr>ps_db := db2\<rparr>)) in
     find_row q_domain n (measurement_queue db') = None \<and>
     (\<forall>t. (\<forall>r \<in> set (outcome_records (m_outcome m)). t < now2 + secs (max (rc_ttl r) (min_record_ttl (settings db)))) \<longrightarrow>
        dlz_findzone t db' n \<and> (\<exists>ttl ty a. (ttl, D_Address ty a) \<in> set (dlz_lookup t rnd db' n ''@'')))))"
proof -
  have b: "batch_ok (batch c)" and q: "queue_ok db" using assms(2,3) by (simp_all add: writable_def queue_inv_def)
  have queued: "ok" "find_row q_domain n (measurement_queue db1) = Some (new_job now Miss n)"
    using flushed_miss_is_queued [OF assms(3,4) q assms(5-8)] by simp_all
  have "behaves db db1" using flush_behaves [OF assms(1,2) b assms(8)] by simp
  then have db1: "db_ok db1" "queue_inv db1" "settings db1 = settings db" by (simp_all add: behaves_def accounted_def)
  let ?free = "concurrency w - int (length (running w))"
  have free: "int (length (measurement_queue db1)) \<le> ?free" using assms(11) by simp
  have "measurement_queue db1 \<noteq> []" using queued(2) by auto
  then have "0 < ?free" using free by (cases "measurement_queue db1") auto
  then obtain jobs where jobs: "claim now1 (w_id w) ?free policy busy db1 = (jobs, db2)" "w' = w\<lparr>running := running w @ jobs\<rparr>"
    using assms(12) by (auto simp: worker_claim_def Let_def split: prod.splits)
  have ready: "ready now1 policy (new_job now Miss n)" using assms(9) by (simp add: ready_def new_job_def)
  let ?r = "claim_row now1 (w_id w) (new_job now Miss n)" and ?job = "job_of (claim_row now1 (w_id w) (new_job now Miss n))"
  have q1: "queue_ok db1" using db1(2) by (simp add: queue_inv_def)
  note got = claim_takes_all [OF jobs(1) q1 queued(2) ready assms(10) free]
  have job: "?job \<in> set (running w')" "j_domain ?job = n" "w_id w' = w_id w"
    using got(1) jobs(2) by (simp_all add: job_of_def new_job_def)
  have db2: "db_ok db2" "settings db2 = settings db"
    using act_queue_ok [OF db1(1,2), of policy "Op_claim now1 (w_id w) ?free busy"] jobs(1) db1(3)
      act_queue_tables [of policy "Op_claim now1 (w_id w) ?free busy" db1] by simp_all
  let ?st' = "process p policy describe now2 now3 True True recorded (w_id w') ?job (st\<lparr>ps_db := db2\<rparr>)"
  have locked: "q_locked_by ?r = Some (w_id w')" using job(3) by (simp add: claim_row_def)
  note served = process_serves [OF _ _ _ assms(15) _ locked refl, of "st\<lparr>ps_db := db2\<rparr>" p now2 ?job st1,
      unfolded job(2), simplified, OF db2(1) assms(13,14) got(2)]
  have "dlz_findzone t (ps_db ?st') n"
    if "\<forall>r \<in> set (outcome_records (m_outcome m)). t < now2 + secs (max (rc_ttl r) (min_record_ttl (settings db)))" for t
    using that served(2,3,5) db2(2) by (auto simp: findzone_records Let_def record_row_def)
  moreover have "db_ok (ps_db ?st')"
    using process_steps [where p = p and st = "st\<lparr>ps_db := db2\<rparr>", OF refl] db2(1) act_queue_inv [OF db1(2), of policy "Op_claim now1 (w_id w) ?free busy"] jobs(1)
    by simp
  ultimately show ?thesis
    using queued(1) job(1,2) served(1) served_has_answer unfolding Let_def by blast
qed


text \<open>One missed name, one worker.\<close>

definition missed_collector :: Collector where
  "missed_collector = (new_collector {} 100)\<lparr>batch := add MISS ''a.net'' 2 empty_batch\<rparr>"

definition queued_db :: db where
  "queued_db = empty_db\<lparr>domains := [pending_domain 9 ''a.net'' (secs 2) 1], next_domain_id := 2,
     measurement_queue := [new_job 9 Miss ''a.net''], notifications := 1\<rparr>"

definition claimed_db :: db where
  "claimed_db = queued_db\<lparr>measurement_queue := [claim_row 9 ''w'' (new_job 9 Miss ''a.net'')]\<rparr>"

lemma missed_misses: "misses (batch missed_collector) = [(''a.net'', 2)]" "hits (batch missed_collector) = []"
  by (simp_all add: missed_collector_def add_def empty_batch_def)

lemma missed_flushed:
  "flush 9 \<lparr>connects = True, hits_ok = True, misses_ok = True\<rparr> missed_collector empty_db =
   (True, missed_collector\<lparr>batch := empty_batch, conn := OpenConn, enqueued_total := 1\<rparr>, queued_db)"
proof -
  have w: "write_misses 9 [(''a.net'', secs 2)] empty_db = Inr ([''a.net''], queued_db)" by code_simp
  have r: "py_round 2000000 = 2000000" using py_round_of_int [of 2000000] by simp
  have "write_batch 9 \<lparr>connects = True, hits_ok = True, misses_ok = True\<rparr> (batch missed_collector) empty_db =
      (Inr [''a.net''], queued_db)"
    using w by (simp add: missed_misses write_batch_def by_name_def ts_def secs_def r)
  then show ?thesis
    by (simp add: flush_def Let_def batch_len_def missed_misses) (simp add: missed_collector_def new_collector_def)
qed

lemma missed_claimed:
  "worker_claim 9 default_policy {} True (new_worker ''w'' 4) queued_db =
     (1, (new_worker ''w'' 4)\<lparr>running := [\<lparr>j_domain = ''a.net'', j_reason = Miss, j_attempts = 1\<rparr>]\<rparr>, claimed_db)"
  by code_simp

lemma missed_measured:
  "map_sum (\<lambda>_. ()) (\<lambda>m. (m_domain m, oc_status (m_outcome m), outcome_records (m_outcome m)))
     (fst (measure_domain sample_pipeline 10 ''a.net'' (sample_pstate\<lparr>ps_db := claimed_db\<rparr>))) =
   Inr (''a.net'', Resolved, [\<lparr>rc_rtype = RT_A, rc_address = ''192.0.2.1'', rc_resolver = ''9.9.9.9'', rc_ttl = 60\<rparr>])"
  by code_simp

theorem missed_name_gets_served_witness:
  "\<exists>job db'. j_domain job = ''a.net'' \<and>
     db' = ps_db (process sample_pipeline default_policy (\<lambda>_. []) 10 11 True True True ''w'' job (sample_pstate\<lparr>ps_db := claimed_db\<rparr>)) \<and>
     find_row q_domain ''a.net'' (measurement_queue db') = None \<and> dlz_findzone 11 db' ''a.net''"
proof -
  let ?link = "\<lparr>connects = True, hits_ok = True, misses_ok = True\<rparr>" and ?st = "sample_pstate\<lparr>ps_db := claimed_db\<rparr>"
  obtain x st1 where x: "measure_domain sample_pipeline 10 ''a.net'' ?st = (x, st1)"
    by (cases "measure_domain sample_pipeline 10 ''a.net'' ?st")
  then obtain m where m: "x = Inr m" "m_domain m = ''a.net''" "oc_status (m_outcome m) = Resolved"
      "outcome_records (m_outcome m) = [\<lparr>rc_rtype = RT_A, rc_address = ''192.0.2.1'', rc_resolver = ''9.9.9.9'', rc_ttl = 60\<rparr>]"
    using missed_measured by (cases x) auto
  have c: "canonical ''a.net''" by code_simp
  have r: "py_round 2000000 = 2000000" using py_round_of_int [of 2000000] by simp
  have w: "writable (batch missed_collector)"
    using c r unfolding writable_def missed_misses
    by (simp add: missed_collector_def add_ok empty_batch_ok ts_def secs_def)
  have "\<exists>job \<in> set (running ((new_worker ''w'' 4)\<lparr>running := [\<lparr>j_domain = ''a.net'', j_reason = Miss, j_attempts = 1\<rparr>]\<rparr>)).
      j_domain job = ''a.net'' \<and>
      (let db' = ps_db (process sample_pipeline default_policy (\<lambda>_. []) 10 11 True True True
          (w_id ((new_worker ''w'' 4)\<lparr>running := [\<lparr>j_domain = ''a.net'', j_reason = Miss, j_attempts = 1\<rparr>]\<rparr>)) job ?st)
       in find_row q_domain ''a.net'' (measurement_queue db') = None \<and>
       (\<forall>t. (\<forall>r \<in> set (outcome_records (m_outcome m)). t < 10 + secs (max (rc_ttl r) (min_record_ttl (settings empty_db)))) \<longrightarrow>
          dlz_findzone t db' ''a.net'' \<and> (\<exists>ttl ty a. (ttl, D_Address ty a) \<in> set (dlz_lookup t (\<lambda>_. 0) db' ''a.net'' ''@''))))"
    by (rule missed_name_gets_served [OF empty_db_ok empty_queue_inv w _ _ _ _ missed_flushed _ _ _ missed_claimed,
          of "''a.net''" sample_pipeline 10 sample_pstate m st1, THEN conjunct2])
       (use x m in \<open>simp_all add: good_link_def missed_misses about_def empty_db_def queued_db_def new_worker_def\<close>)
  then show ?thesis
    using m(4) by (fastforce simp: Let_def new_worker_def empty_db_def default_settings_def secs_def)
qed

end
