(* ===== verification/Worker_Loop.thy ===== *)
theory Worker_Loop
  imports Worker_Service
begin

text \<open>
  When the worker acts (the loop \<open>run\<close>, \<open>_wake_on\<close> and \<open>_listen\<close> of \<open>worker/service.py\<close>). The
  event loop runs one task at a time up to its next \<open>await\<close>; the steps below are those pieces,
  in any order: a pass clears the wake-up event and then claims, the loop waits for
  the event or the poll interval, tasks end, the listener connects, hears
  notifications and loses its connection, the stop signal arrives, and other clients change the queue. Steps
  are labelled with what happens to queued names. Every run of the loop is a run of
  \<open>worker_step\<close>; the invariant is that no announced job is slept over.
\<close>

section \<open>The loop\<close>

datatype phase = Top | Claiming | Waiting | Draining

text \<open>
  The listener: without a connection, with \<open>LISTEN\<close> executed at the server but not yet told, and
  in its loop over the notifications.
\<close>

datatype listener = Off | Subscribed | Listening

record Loop =
  lp_worker :: Worker
  lp_state :: pstate
  lp_stop :: bool
  lp_wake :: bool
  lp_phase :: phase
  lp_listener :: listener
  lp_notified :: nat
  lp_beats :: nat
  lp_now :: timestamp

definition new_loop :: "string \<Rightarrow> int \<Rightarrow> pstate \<Rightarrow> timestamp \<Rightarrow> Loop" where
  "new_loop i c st now = \<lparr>lp_worker = new_worker i c, lp_state = st, lp_stop = False, lp_wake = False,
     lp_phase = Top, lp_listener = Off, lp_notified = 0, lp_beats = 0, lp_now = now\<rparr>"

text \<open>The head of the loop up to the claim: the loop is left, or the event is cleared.\<close>

definition begin_pass :: "Loop \<Rightarrow> Loop" where
  "begin_pass s =
     (if lp_stop s then s\<lparr>lp_phase := Draining, lp_worker := (lp_worker s)\<lparr>stopping := True\<rparr>\<rparr>
      else s\<lparr>lp_beats := lp_beats s + 1, lp_wake := False, lp_phase := Claiming\<rparr>)"

text \<open>The claim, and whether the loop goes on at once.\<close>

definition claim_pass :: "timestamp \<Rightarrow> QueuePolicy \<Rightarrow> string set \<Rightarrow> bool \<Rightarrow> Loop \<Rightarrow> Loop" where
  "claim_pass now policy busy reach s =
     (case worker_claim now policy busy reach (lp_worker s) (ps_db (lp_state s)) of (claimed, w, db) \<Rightarrow>
        s\<lparr>lp_worker := w, lp_state := (lp_state s)\<lparr>ps_db := db\<rparr>, lp_now := now,
          lp_phase := (if claimed \<noteq> 0 \<and> int (length (running w)) < concurrency w then Top else Waiting)\<rparr>)"

text \<open>A notification reaches the connections that listen when it is committed.\<close>

definition others_act :: "QueuePolicy \<Rightarrow> queue_op \<Rightarrow> timestamp \<Rightarrow> Loop \<Rightarrow> Loop" where
  "others_act policy op now s =
     (let db = ps_db (lp_state s); db' = act_queue policy op db in
      s\<lparr>lp_state := (lp_state s)\<lparr>ps_db := db'\<rparr>, lp_now := now,
        lp_notified := lp_notified s + (if lp_listener s \<noteq> Off \<and> notifications db < notifications db' then 1 else 0)\<rparr>)"

section \<open>Steps\<close>

text \<open>
  What a step says of queued names: some were announced, some were claimed by another
  client, or by this worker, and then which it could not have seen.
\<close>

datatype loop_event =
    Announced "string list"
  | Taken "string set"
  | Claimed "string set" "string set"
  | Quiet

fun event_of_op :: "QueuePolicy \<Rightarrow> queue_op \<Rightarrow> db \<Rightarrow> loop_event" where
  "event_of_op policy (Op_enqueue now names reason) db =
     Announced (case enqueue now names reason db of Inl _ \<Rightarrow> [] | Inr (queued, _) \<Rightarrow> queued)"
| "event_of_op policy (Op_claim now worker limit busy) db = Taken (claimed_by policy (Op_claim now worker limit busy) db)"
| "event_of_op policy _ db = Quiet"

fun op_time :: "queue_op \<Rightarrow> timestamp option" where
  "op_time (Op_enqueue now names reason) = Some now"
| "op_time (Op_claim now worker limit busy) = Some now"
| "op_time (Op_fail now job worker err) = Some now"
| "op_time _ = None"

text \<open>The clock of the database does not go back.\<close>

inductive loop_step ::
  "bool \<Rightarrow> 'n pipeline \<Rightarrow> QueuePolicy \<Rightarrow> (pipeline_error option \<Rightarrow> string) \<Rightarrow> Loop \<Rightarrow> loop_event \<Rightarrow> Loop \<Rightarrow> bool"
  for reliable p policy describe where
  pass: "lp_phase s = Top \<Longrightarrow> loop_step reliable p policy describe s Quiet (begin_pass s)"
| claiming: "lp_phase s = Claiming \<Longrightarrow> lp_now s \<le> now \<Longrightarrow>
    new = (if reach then claimed_by policy (Op_claim now (w_id (lp_worker s))
      (concurrency (lp_worker s) - int (length (running (lp_worker s)))) busy) (ps_db (lp_state s)) else {}) \<Longrightarrow>
    loop_step reliable p policy describe s (Claimed new (if reach then busy else UNIV)) (claim_pass now policy busy reach s)"
| woken: "lp_phase s = Waiting \<Longrightarrow> lp_wake s \<Longrightarrow> loop_step reliable p policy describe s Quiet (s\<lparr>lp_phase := Top\<rparr>)"
| polls: "lp_phase s = Waiting \<Longrightarrow> loop_step reliable p policy describe s Quiet (s\<lparr>lp_phase := Top\<rparr>)"
| task_ends: "worker_act reliable p policy describe (lp_worker s, lp_state s) ms (w, st) \<Longrightarrow>
    processed w = processed (lp_worker s) + 1 \<Longrightarrow>
    loop_step reliable p policy describe s Quiet (s\<lparr>lp_worker := w, lp_state := st, lp_wake := True\<rparr>)"
| stop_set: "loop_step reliable p policy describe s Quiet (s\<lparr>lp_stop := True\<rparr>)"
| stopper: "lp_stop s \<Longrightarrow> loop_step reliable p policy describe s Quiet (s\<lparr>lp_wake := True\<rparr>)"
| subscribes: "lp_listener s = Off \<Longrightarrow> loop_step reliable p policy describe s Quiet (s\<lparr>lp_listener := Subscribed\<rparr>)"
| listens: "lp_listener s = Subscribed \<Longrightarrow>
    loop_step reliable p policy describe s Quiet (s\<lparr>lp_listener := Listening, lp_wake := True\<rparr>)"
| hears: "lp_listener s = Listening \<Longrightarrow> 0 < lp_notified s \<Longrightarrow>
    loop_step reliable p policy describe s Quiet (s\<lparr>lp_notified := lp_notified s - 1, lp_wake := True\<rparr>)"
| drops: "loop_step reliable p policy describe s Quiet (s\<lparr>lp_listener := Off, lp_notified := 0\<rparr>)"
| world: "\<not> acts_for (w_id (lp_worker s)) op \<Longrightarrow> op_time op = None \<or> op_time op = Some now \<Longrightarrow> lp_now s \<le> now \<Longrightarrow>
    loop_step reliable p policy describe s (event_of_op policy' op (ps_db (lp_state s))) (others_act policy' op now s)"

inductive loop_run ::
  "bool \<Rightarrow> 'n pipeline \<Rightarrow> QueuePolicy \<Rightarrow> (pipeline_error option \<Rightarrow> string) \<Rightarrow> Loop \<Rightarrow> loop_event list \<Rightarrow> Loop \<Rightarrow> bool"
  for reliable p policy describe s where
  no_step: "loop_run reliable p policy describe s [] s"
| one_more: "loop_run reliable p policy describe s evs t \<Longrightarrow> loop_step reliable p policy describe t ev u \<Longrightarrow>
    loop_run reliable p policy describe s (evs @ [ev]) u"

text \<open>The announced names nobody has claimed since, and those the worker's last claim could not see.\<close>

fun noted :: "loop_event \<Rightarrow> string set \<Rightarrow> string set" where
  "noted (Announced names) A = A \<union> set names"
| "noted (Taken names) A = A - names"
| "noted (Claimed names unseen) A = A - names"
| "noted Quiet A = A"

definition unclaimed :: "loop_event list \<Rightarrow> string set" where
  "unclaimed evs = fold noted evs {}"

fun last_unseen :: "loop_event \<Rightarrow> string set \<Rightarrow> string set" where
  "last_unseen (Claimed names unseen) u = unseen"
| "last_unseen _ u = u"

definition unseen :: "loop_event list \<Rightarrow> string set" where
  "unseen evs = fold last_unseen evs {}"

section \<open>An announced job stays ready until it is claimed\<close>

definition announced_row :: "timestamp \<Rightarrow> db \<Rightarrow> string \<Rightarrow> bool" where
  "announced_row now db n \<longleftrightarrow> (\<exists>r. find_row q_domain n (measurement_queue db) = Some r \<and> q_state r = QPending \<and>
     q_locked_by r = None \<and> q_locked_at r = None \<and> q_next_attempt_at r \<le> now)"

lemma announced_row_later: "announced_row now db n \<Longrightarrow> now \<le> now' \<Longrightarrow> announced_row now' db n"
  by (fastforce simp: announced_row_def)

lemma announced_row_act:
  assumes "announced_row now db n" and "queue_ok db" and "n \<notin> claimed_by policy op db"
  shows "announced_row now (act_queue policy op db) n"
proof -
  obtain r where r: "find_row q_domain n (measurement_queue db) = Some r" "q_state r = QPending"
      "q_locked_by r = None" "q_locked_at r = None" "q_next_attempt_at r \<le> now"
    using assms(1) by (auto simp: announced_row_def)
  have "find_row q_domain n (measurement_queue (act_queue policy op db)) = Some r"
  proof (cases op)
    case (Op_enqueue t names reason)
    then show ?thesis
      using r assms(2)
      by (cases "enqueue t names reason db") (auto simp: enqueue_look revive_def revivable_def)
  next
    case (Op_claim t v limit busy)
    then show ?thesis using r(1) claim_look [OF surjective_pairing assms(2)] assms(3) by simp
  next
    case (Op_collect names)
    then show ?thesis using r(1,2) assms(2) by (simp add: find_row_delete_where queue_ok_def)
  qed (use r assms(2) in \<open>simp_all add: complete_look fail_look release_look owned_def\<close>)
  then show ?thesis using r(2-) by (simp add: announced_row_def)
qed

lemma enqueued_announced:
  assumes "enqueue now names reason db = Inr (queued, db')" and "queue_ok db" and "n \<in> set queued"
  shows "announced_row now db' n" and "notifications db < notifications db'"
proof -
  have q: "n \<in> set names" "queued \<noteq> []" "case find_row q_domain n (measurement_queue db) of None \<Rightarrow> True | Some r \<Rightarrow> revivable now r"
    using assms(1,3) by (auto elim!: enqueue_InrE)
  then show "announced_row now db' n"
    using enqueue_look [OF assms(1,2), of n]
    by (auto simp: announced_row_def new_job_def revive_def split: option.splits)
  show "notifications db < notifications db'"
    using assms(1) q(2) by (cases rule: enqueue_InrE) auto
qed

text \<open>A claim leaves an announced row only if it takes as many as it may, or cannot see the row.\<close>

lemma claim_leaves_none:
  assumes "claim now worker limit policy busy db = (jobs, db')" and "queue_ok db" and "int (length jobs) < limit"
    and "announced_row now db n" and "n \<notin> busy"
  shows "n \<in> j_domain ` set jobs"
proof -
  let ?rows = "measurement_queue db" and ?ready = "\<lambda>r. ready now policy r \<and> q_domain r \<notin> busy"
  obtain r where r: "r \<in> set ?rows" "q_domain r = n" "ready now policy r"
    using assms(4) by (auto simp: announced_row_def ready_def dest!: find_row_SomeD)
  have pos: "0 < limit" using assms(3) by linarith
  have "length (pick now limit policy busy ?rows) < nat limit"
    using claim_length [OF assms(1,2) pos] assms(3) by linarith
  then have "pick now limit policy busy ?rows = sort_key q_enqueued_at (filter ?ready ?rows)"
    by (simp add: pick_def)
  then have "r \<in> set (pick now limit policy busy ?rows)" using r assms(5) by simp
  then show ?thesis
    using claim_jobs [OF assms(1,2)] pos r(2) by (force simp: job_of_def)
qed


section \<open>The loop is a run of the worker\<close>

lemma worker_claim_stopping: "worker_claim now policy busy reach w db = (n, w', db') \<Longrightarrow> stopping w' = stopping w"
  by (auto simp: worker_claim_def Let_def split: if_splits prod.splits)

lemma worker_act_processed:
  assumes "worker_act reliable p policy describe (w, st) ms (w', st')" and "processed w' = processed w + 1"
  shows "stopping w' = stopping w \<and> concurrency w' = concurrency w \<and> w_id w' = w_id w \<and> length (running w') \<le> length (running w)"
  using assms
  by cases (auto simp: task_done_def length_remove1 worker_claim_def Let_def split: if_splits prod.splits)

lemma loop_step_worker:
  assumes "loop_step reliable p policy describe s ev s'" and "stopping (lp_worker s) \<longrightarrow> lp_phase s = Draining"
  shows "((lp_worker s', lp_state s') = (lp_worker s, lp_state s) \<or>
      worker_step reliable p policy describe (lp_worker s, lp_state s) (lp_worker s', lp_state s')) \<and>
    (stopping (lp_worker s') \<longrightarrow> lp_phase s' = Draining)"
  using assms(1)
proof cases
  case pass
  then show ?thesis using assms(2) by (auto simp: begin_pass_def intro: own stops)
next
  case (claiming now new reach busy)
  obtain claimed w db where c: "worker_claim now policy busy reach (lp_worker s) (ps_db (lp_state s)) = (claimed, w, db)"
    by (cases "worker_claim now policy busy reach (lp_worker s) (ps_db (lp_state s))")
  have run: "\<not> stopping (lp_worker s)" using assms(2) claiming by auto
  have "worker_step reliable p policy describe (lp_worker s, lp_state s) (w, (lp_state s)\<lparr>ps_db := db\<rparr>)"
    using own [OF claims [OF run c]] .
  then show ?thesis using c claiming(2) run worker_claim_stopping [OF c] by (simp add: claim_pass_def)
next
  case (task_ends ms w st)
  then show ?thesis using assms(2) worker_act_processed [OF task_ends(3,4)] by (auto intro: own)
next
  case (world op now policy')
  then show ?thesis using assms(2) others [where w = "lp_worker s" and op = op and p = p and st = "lp_state s"] by (simp add: others_act_def Let_def)
qed (use assms(2) in auto)

lemma loop_run_worker:
  assumes "loop_run reliable p policy describe s evs t" and "\<not> stopping (lp_worker s)"
  shows "worker_reaches reliable p policy describe (lp_worker s, lp_state s) (lp_worker t, lp_state t) \<and>
    (stopping (lp_worker t) \<longrightarrow> lp_phase t = Draining)"
  using assms
proof induction
  case no_step
  then show ?case by (simp add: here)
next
  case (one_more evs t ev u)
  then show ?case using loop_step_worker [OF one_more.hyps(2)] by (metis further)
qed

section \<open>No announced job is slept over\<close>

text \<open>Why the loop may wait although something was announced.\<close>

definition excused :: "Loop \<Rightarrow> string set \<Rightarrow> string set \<Rightarrow> bool" where
  "excused s announced hidden \<longleftrightarrow> lp_wake s \<or> lp_listener s \<noteq> Listening \<or> 0 < lp_notified s \<or>
     concurrency (lp_worker s) \<le> int (length (running (lp_worker s))) \<or> announced \<subseteq> hidden"

definition loop_inv :: "Loop \<Rightarrow> string set \<Rightarrow> string set \<Rightarrow> bool" where
  "loop_inv s announced hidden \<longleftrightarrow>
     (\<forall>n \<in> announced. announced_row (lp_now s) (ps_db (lp_state s)) n) \<and>
     (lp_phase s = Waiting \<longrightarrow> excused s announced hidden)"

lemma act_queue_queue_ok: "queue_inv db \<Longrightarrow> queue_ok (act_queue policy op db)"
  using act_queue_inv [of db policy op] by (simp add: queue_inv_def)

text \<open>What a task does to the queue at its end leaves announced rows alone.\<close>

lemma announced_row_same_queue:
  "measurement_queue db' = measurement_queue db \<Longrightarrow> announced_row now db' n = announced_row now db n"
  by (simp add: announced_row_def)

lemma gave_up_announced:
  assumes "gave_up policy job w db db'" and "queue_ok db" and "announced_row now db n"
  shows "announced_row now db' n"
proof -
  obtain op t err where "op = Op_complete job w \<or> op = Op_fail t job w err \<or> op = Op_release job w"
    "db' = act_queue policy op db" using assms(1) by (auto simp: gave_up_def)
  then show ?thesis using announced_row_act [OF assms(3,2), of policy op] by auto
qed

lemma task_end_announced:
  assumes "worker_act reliable p policy describe s ms s'" and "processed (fst s') = processed (fst s) + 1"
    and "db_ok (ps_db (snd s))" and "announced_row now (ps_db (snd s)) n"
  shows "announced_row now (ps_db (snd s')) n"
  using assms(1)
proof cases
  case (claims w t busy reach st k w' db')
  then show ?thesis using assms(2) by (auto simp: worker_claim_def Let_def split: if_splits prod.splits)
next
  case (finishes job w reach recorded st granted t t')
  note m = process_cases [of st granted p t job]
  have "announced_row now (ps_db (attempted granted p t job st)) n"
    using m announced_row_same_queue assms(3,4) finishes(1) by (metis snd_conv)
  then show ?thesis
    using process_ends [OF refl, of p policy describe t t' granted reach recorded "w_id w" job st]
      gave_up_announced m assms(3) finishes(1,3) by (fastforce simp: db_ok_def)
next
  case (stops w st)
  then show ?thesis using assms(4) by simp
next
  case (cancels w job reach t st st1)
  have ok: "db_ok (ps_db st1)" "measurement_queue (ps_db st1) = measurement_queue (ps_db st)"
    using cut_short_queue [OF cancels(6)] assms(3) cancels(1) by simp_all
  then have "announced_row now (ps_db st1) n"
    using announced_row_same_queue [OF ok(2)] assms(4) cancels(1) by simp
  then show ?thesis
    using ok(1) cancels(2) gave_up_announced [OF gave_up_intros(3)] by (auto simp: release_job_def db_ok_def)
qed


lemma excused_mono:
  "excused s A H \<Longrightarrow> lp_wake s' = lp_wake s \<Longrightarrow> lp_listener s' = lp_listener s \<Longrightarrow> lp_notified s \<le> lp_notified s' \<Longrightarrow>
   lp_worker s' = lp_worker s \<Longrightarrow> A' \<subseteq> A \<Longrightarrow> excused s' A' H"
  by (auto simp: excused_def)

lemma claiming_inv:
  assumes "loop_inv s A H" and "queue_ok (ps_db (lp_state s))" and "lp_now s \<le> now"
    and "new = (if reach then claimed_by policy (Op_claim now (w_id (lp_worker s))
      (concurrency (lp_worker s) - int (length (running (lp_worker s)))) busy) (ps_db (lp_state s)) else {})"
  shows "loop_inv (claim_pass now policy busy reach s) (A - new) (if reach then busy else UNIV)"
proof -
  let ?w = "lp_worker s" and ?db = "ps_db (lp_state s)" and ?free = "concurrency (lp_worker s) - int (length (running (lp_worker s)))"
  have A: "announced_row now ?db n" if "n \<in> A" for n
    using assms(1,3) that announced_row_later by (auto simp: loop_inv_def)
  obtain jobs db' where c: "claim now (w_id ?w) ?free policy busy ?db = (jobs, db')" by fastforce
  show ?thesis
  proof (cases "?free \<le> 0 \<or> \<not> reach")
    case True
    then have "claim_pass now policy busy reach s = s\<lparr>lp_now := now, lp_phase := Waiting\<rparr>"
      by (simp add: claim_pass_def worker_claim_def)
    then show ?thesis using A True by (auto simp: loop_inv_def excused_def)
  next
    case False
    then have new: "new = j_domain ` set jobs" using assms(4) c by simp
    have cp: "claim_pass now policy busy reach s = s\<lparr>lp_worker := ?w\<lparr>running := running ?w @ jobs\<rparr>,
        lp_state := (lp_state s)\<lparr>ps_db := db'\<rparr>, lp_now := now,
        lp_phase := (if jobs \<noteq> [] \<and> int (length (running ?w @ jobs)) < concurrency ?w then Top else Waiting)\<rparr>"
      using False c by (simp add: claim_pass_def worker_claim_def Let_def)
    have rows: "announced_row now db' n" if "n \<in> A - new" for n
      using announced_row_act [OF A assms(2), of n policy "Op_claim now (w_id ?w) ?free busy"] that new c by simp
    have "concurrency ?w \<le> int (length (running ?w @ jobs)) \<or> A - new \<subseteq> busy"
    proof (cases "int (length jobs) < ?free")
      case True
      then show ?thesis using claim_leaves_none [OF c assms(2) True A] new by blast
    qed simp
    then show ?thesis unfolding cp using rows False by (auto simp: loop_inv_def excused_def)
  qed
qed

lemma world_inv:
  assumes "loop_inv s A H" and "queue_ok (ps_db (lp_state s))" and "lp_now s \<le> now"
    and "op_time op = None \<or> op_time op = Some now"
  shows "loop_inv (others_act policy op now s) (noted (event_of_op policy op (ps_db (lp_state s))) A) H"
proof -
  let ?db = "ps_db (lp_state s)" and ?db' = "act_queue policy op (ps_db (lp_state s))"
  let ?A = "noted (event_of_op policy op (ps_db (lp_state s))) A"
  have A: "announced_row now ?db' n" if "n \<in> A" "n \<notin> claimed_by policy op ?db" for n
    using announced_row_act [OF _ assms(2) that(2)] assms(1,3) that(1) announced_row_later by (auto simp: loop_inv_def)
  have s': "ps_db (lp_state (others_act policy op now s)) = ?db'" "lp_now (others_act policy op now s) = now"
      "lp_phase (others_act policy op now s) = lp_phase s" "lp_wake (others_act policy op now s) = lp_wake s"
      "lp_listener (others_act policy op now s) = lp_listener s" "lp_notified s \<le> lp_notified (others_act policy op now s)"
      "lp_worker (others_act policy op now s) = lp_worker s"
      "lp_listener s \<noteq> Off \<Longrightarrow> notifications ?db < notifications ?db' \<Longrightarrow> 0 < lp_notified (others_act policy op now s)"
    by (simp_all add: others_act_def Let_def)
  have keep: "excused (others_act policy op now s) A' H" if "lp_phase s = Waiting" "A' \<subseteq> A" for A'
    using excused_mono [OF _ s'(4-7) that(2)] assms(1) that(1) by (simp add: loop_inv_def)
  show ?thesis
  proof (cases op)
    case (Op_enqueue t names reason)
    then have t: "t = now" using assms(4) by simp
    show ?thesis
    proof (cases "enqueue t names reason ?db")
      case (Inl e)
      then have "?A = A" using Op_enqueue by simp
      then show ?thesis using A keep s' Op_enqueue by (auto simp: loop_inv_def)
    next
      case (Inr r)
      obtain queued db1 where r: "r = (queued, db1)" by (cases r)
      note e = Inr [unfolded r]
      have db1: "?db' = db1" "?A = A \<union> set queued" using Op_enqueue e by simp_all
      have "announced_row now ?db' n" if "n \<in> ?A" for n
        using that A enqueued_announced(1) [OF e assms(2)] Op_enqueue t unfolding db1 by auto
      moreover have "excused (others_act policy op now s) ?A H" if "lp_phase s = Waiting"
      proof (cases "queued = []")
        case True
        then show ?thesis using keep [OF that] unfolding db1 by simp
      next
        case False
        then have "notifications ?db < notifications ?db'"
          using enqueued_announced(2) [OF e assms(2)] unfolding db1 by (cases queued) auto
        then show ?thesis using s'(5,8) by (cases "lp_listener s") (simp_all add: excused_def)
      qed
      ultimately show ?thesis using s' by (simp add: loop_inv_def)
    qed
  qed (use A keep s' in \<open>auto simp: loop_inv_def\<close>)
qed

lemma loop_step_inv:
  assumes "loop_step reliable p policy describe s ev s'" and "loop_inv s A H"
    and "db_ok (ps_db (lp_state s))"
  shows "loop_inv s' (noted ev A) (last_unseen ev H)"
  using assms(1)
proof cases
  case pass
  then show ?thesis using assms(2) by (simp add: loop_inv_def begin_pass_def)
next
  case (claiming now new reach busy)
  have q: "queue_ok (ps_db (lp_state s))" using assms(3) by (simp add: db_ok_def)
  show ?thesis using claiming_inv [OF assms(2) q claiming(4,5)] claiming(1,2) by simp
next
  case (task_ends ms w st)
  have "announced_row (lp_now s) (ps_db st) n" if "n \<in> A" for n
    using task_end_announced [OF task_ends(3)] task_ends(4) assms(2,3) that by (simp add: loop_inv_def)
  then show ?thesis using task_ends(1,2) by (simp add: loop_inv_def excused_def)
next
  case (world op now policy')
  have q: "queue_ok (ps_db (lp_state s))" using assms(3) by (simp add: db_ok_def)
  have "last_unseen ev H = H" unfolding world(1) by (cases op) simp_all
  then show ?thesis using world_inv [OF assms(2) q world(5,4)] world(1,2) by simp
qed (use assms(2) in \<open>auto simp: loop_inv_def excused_def\<close>)

lemma loop_run_inv:
  assumes "loop_run reliable p policy describe s evs t" and "s = new_loop i c st now"
    and "db_ok (ps_db st)" and "queue_inv (ps_db st)" and "locked_for i (ps_db st) = {}"
  shows "loop_inv t (unclaimed evs) (unseen evs) \<and> worker_inv reliable c i (lp_worker t, lp_state t)"
  using assms
proof induction
  case no_step
  then show ?case
    using new_worker_inv by (simp add: loop_inv_def unclaimed_def unseen_def new_loop_def)
next
  case (one_more evs t ev u)
  then have t: "loop_inv t (unclaimed evs) (unseen evs)" "worker_inv reliable c i (lp_worker t, lp_state t)" by simp_all
  have run: "loop_run reliable p policy describe s (evs @ [ev]) u"
    using one_more.hyps by (rule loop_run.one_more)
  have "worker_inv reliable c i (lp_worker s, lp_state s)"
    using new_worker_inv [OF one_more.prems(2-4)] one_more.prems(1) by (simp add: new_loop_def)
  moreover have "\<not> stopping (lp_worker s)" using one_more.prems(1) by (simp add: new_loop_def new_worker_def)
  ultimately have "worker_inv reliable c i (lp_worker u, lp_state u)"
    using loop_run_worker [OF run] worker_reaches_inv by blast
  then show ?case
    using loop_step_inv [OF one_more.hyps(2) t(1)] t(2)
    by (simp add: unclaimed_def unseen_def worker_inv_def)
qed


text \<open>
  C9: No announced job is slept over. Whatever tasks, other clients, the network and the stop signal do:
  a name that was announced on the queue and not claimed since has a pending row that nobody
  holds; and if the worker waits while there is such a name, then its wake-up event is set, or a
  notification is on its way, or the listener is not listening (and sets the event when
  it does), or all its slots are taken (and a task that ends sets the event), or its last claim
  could not see the row, because the database was away or another claim held it.
\<close>

theorem no_announced_job_is_slept_over:
  assumes "loop_run reliable p policy describe (new_loop i c st now) evs s"
    and "db_ok (ps_db st)" and "queue_inv (ps_db st)" and "locked_for i (ps_db st) = {}"
  shows "(\<forall>n \<in> unclaimed evs. \<exists>r. find_row q_domain n (measurement_queue (ps_db (lp_state s))) = Some r \<and>
      q_state r = QPending \<and> q_locked_by r = None \<and> q_next_attempt_at r \<le> lp_now s) \<and>
    (lp_phase s = Waiting \<longrightarrow> lp_wake s \<or> 0 < lp_notified s \<or> lp_listener s \<noteq> Listening \<or>
      concurrency (lp_worker s) \<le> int (length (running (lp_worker s))) \<or> unclaimed evs \<subseteq> unseen evs)"
  using loop_run_inv [OF assms(1) refl assms(2-4)]
  by (fastforce simp: loop_inv_def excused_def announced_row_def)

text \<open>A worker with nothing to do, and a name that is announced.\<close>

definition waiting_loop :: Loop where
  "waiting_loop = claim_pass 5 default_policy {} True
     (begin_pass (new_loop ''w'' 4 sample_pstate 0\<lparr>lp_listener := Listening, lp_wake := True\<rparr>))"

lemma waiting_loop_fields:
  "lp_phase waiting_loop = Waiting" "\<not> lp_wake waiting_loop" "lp_listener waiting_loop = Listening"
  "lp_now waiting_loop = 5" "lp_worker waiting_loop = new_worker ''w'' 4" "ps_db (lp_state waiting_loop) = empty_db"
  by code_simp+

theorem no_announced_job_is_slept_over_witness:
  "\<exists>evs s. loop_run True sample_pipeline default_policy (\<lambda>_. []) (new_loop ''w'' 4 sample_pstate 0) evs s \<and>
     unclaimed evs = {''a.net''} \<and> lp_phase s = Waiting \<and> \<not> lp_wake s \<and> 0 < lp_notified s"
proof -
  let ?R = "loop_run True sample_pipeline default_policy (\<lambda>_. []) (new_loop ''w'' 4 sample_pstate 0)"
  let ?s0 = "new_loop ''w'' 4 sample_pstate 0"
  let ?s1 = "?s0\<lparr>lp_listener := Subscribed\<rparr>" and ?s2 = "?s0\<lparr>lp_listener := Listening, lp_wake := True\<rparr>"
  let ?op = "Op_enqueue 6 [''a.net''] Miss"
  let ?s5 = "others_act default_policy ?op 6 waiting_loop"
  have 1: "?R [Quiet] ?s1"
    using one_more [OF no_step subscribes, of ?s0] by (simp add: new_loop_def)
  have 2: "?R [Quiet, Quiet] ?s2"
    using one_more [OF 1 listens] by (simp add: new_loop_def)
  have 3: "?R [Quiet, Quiet, Quiet] (begin_pass ?s2)"
    using one_more [OF 2 pass] by (simp add: new_loop_def)
  have b: "lp_phase (begin_pass ?s2) = Claiming" "lp_now (begin_pass ?s2) = 0" by (simp_all add: begin_pass_def new_loop_def)
  obtain new where 4: "?R [Quiet, Quiet, Quiet, Claimed new {}] waiting_loop"
    using one_more [OF 3 claiming [where now = 5 and reach = True and busy = "{}", OF b(1) _ refl]] b(2) by (simp add: waiting_loop_def)
  have e: "event_of_op default_policy ?op empty_db = Announced [''a.net'']" by code_simp
  have 5: "?R [Quiet, Quiet, Quiet, Claimed new {}, Announced [''a.net'']] ?s5"
    using one_more [OF 4 world [where op = ?op and now = 6 and policy' = default_policy]] waiting_loop_fields(4,6) e by simp
  have u: "unclaimed [Quiet, Quiet, Quiet, Claimed new {}, Announced [''a.net'']] = {''a.net''}"
    "unseen [Quiet, Quiet, Quiet, Claimed new {}, Announced [''a.net'']] = {}"
    by (simp_all add: unclaimed_def unseen_def)
  have s5: "lp_phase ?s5 = Waiting" "\<not> lp_wake ?s5" "lp_listener ?s5 = Listening" "lp_worker ?s5 = new_worker ''w'' 4"
    using waiting_loop_fields by (simp_all add: others_act_def Let_def)
  have st: "ps_db sample_pstate = empty_db" "locked_for ''w'' empty_db = {}"
    by (simp_all add: sample_pstate_def locked_for_def empty_db_def)
  from no_announced_job_is_slept_over [OF 5] have "0 < lp_notified ?s5"
    unfolding st u using s5 empty_db_ok empty_queue_inv by (simp add: new_worker_def st(2))
  then show ?thesis using 5 u(1) s5(1,2) by blast
qed

end
