(* ===== verification/Queue_Refinement.thy ===== *)
theory Queue_Refinement
  imports Queue_Pg
begin

text \<open>
  What the measurement queue promises, and that \<open>queue/pg.py\<close> keeps it. The specification knows
  nothing of rows, columns and statements: a queue is a map from domains to entries, which wait,
  are leased to a worker, or are dead. The locale \<open>simulation\<close> has the run of a program
  refine a run of its specification when every step does; it is interpreted on the operations
  of the queue and the abstraction \<open>abs_queue\<close> that reads the entries off the table.
\<close>

section \<open>Simulation\<close>

text \<open>Runs of a specification that leaves choices open.\<close>

fun spec_run :: "('op \<Rightarrow> 'a \<Rightarrow> 'a \<Rightarrow> bool) \<Rightarrow> 'op list \<Rightarrow> 'a \<Rightarrow> 'a \<Rightarrow> bool" where
  "spec_run step [] a a' \<longleftrightarrow> a' = a"
| "spec_run step (op # ops) a a' \<longleftrightarrow> (\<exists>b. step op a b \<and> spec_run step ops b a')"

locale simulation =
  fixes good :: "'s \<Rightarrow> bool"
    and act :: "'op \<Rightarrow> 's \<Rightarrow> 's"
    and abs :: "'s \<Rightarrow> 'a"
    and step :: "'op \<Rightarrow> 'a \<Rightarrow> 'a \<Rightarrow> bool"
  assumes keeps: "good s \<Longrightarrow> good (act op s)"
    and simulates: "good s \<Longrightarrow> step op (abs s) (abs (act op s))"
begin

lemma run_simulates: "good s \<Longrightarrow> spec_run step ops (abs s) (abs (fold act ops s))"
  by (induction ops arbitrary: s) (auto intro: keeps simulates)

end

section \<open>Specification\<close>

text \<open>
  An entry that waits was queued at a time, is due from another on and was tried a number of
  times; one that is leased has a worker and the time of the lease besides.
\<close>

datatype entry =
    Waiting (since: timestamp) (due_from: timestamp) (tries: int)
  | Leased (since: timestamp) (due_from: timestamp) (tries: int) (leased_to: string) (leased_at: timestamp)
  | Dead (until: timestamp)

type_synonym spec_queue = "string \<Rightarrow> entry option"

fun claimable :: "timestamp \<Rightarrow> QueuePolicy \<Rightarrow> entry \<Rightarrow> bool" where
  "claimable now policy (Waiting s d n) \<longleftrightarrow> d \<le> now"
| "claimable now policy (Leased s d n w t) \<longleftrightarrow> d \<le> now \<and> t < now - secs (lock_timeout_seconds policy)"
| "claimable now policy (Dead u) \<longleftrightarrow> False"

fun lease_to :: "timestamp \<Rightarrow> string \<Rightarrow> entry \<Rightarrow> entry" where
  "lease_to now worker (Dead u) = Dead u"
| "lease_to now worker e = Leased (since e) (due_from e) (tries e + 1) worker now"

text \<open>The end of a lease of that worker; \<open>f\<close> says what becomes of the entry.\<close>

definition end_lease :: "(entry \<Rightarrow> entry option) \<Rightarrow> string \<Rightarrow> string \<Rightarrow> spec_queue \<Rightarrow> spec_queue" where
  "end_lease f domain worker q = (\<lambda>d. case q d of
      Some (Leased s n k w t) \<Rightarrow> if d = domain \<and> w = worker then f (Leased s n k w t) else q d
    | _ \<Rightarrow> q d)"

definition spec_enqueue :: "timestamp \<Rightarrow> string list \<Rightarrow> spec_queue \<Rightarrow> spec_queue" where
  "spec_enqueue now names q =
     (if \<forall>d \<in> set names. canonical d
      then (\<lambda>d. if d \<in> set names \<and> (case q d of None \<Rightarrow> True | Some (Dead u) \<Rightarrow> u \<le> now | _ \<Rightarrow> False)
                then Some (Waiting now now 0) else q d)
      else q)"

text \<open>Any of the oldest claimable entries, as many as there are up to the limit.\<close>

definition spec_claim ::
  "timestamp \<Rightarrow> string \<Rightarrow> int \<Rightarrow> QueuePolicy \<Rightarrow> string set \<Rightarrow> spec_queue \<Rightarrow> spec_queue \<Rightarrow> bool" where
  "spec_claim now worker limit policy busy q q' \<longleftrightarrow>
     (let C = {d. d \<notin> busy \<and> (\<exists>e. q d = Some e \<and> claimable now policy e)}
      in \<exists>S \<subseteq> C. card S = min (nat limit) (card C) \<and>
        (\<forall>d \<in> S. \<forall>d' \<in> C - S. since (the (q d)) \<le> since (the (q d'))) \<and>
        q' = (\<lambda>d. if d \<in> S then map_option (lease_to now worker) (q d) else q d))"

fun after_failure :: "timestamp \<Rightarrow> int \<Rightarrow> QueuePolicy \<Rightarrow> entry \<Rightarrow> entry option" where
  "after_failure now n policy e =
     (if n \<ge> max_attempts policy then Some (Dead (now + secs (dead_cooldown_seconds policy)))
      else Some (Waiting (since e) (now + secs (retry_delay policy n)) (tries e)))"

fun queue_step :: "QueuePolicy \<Rightarrow> queue_op \<Rightarrow> spec_queue \<Rightarrow> spec_queue \<Rightarrow> bool" where
  "queue_step policy (Op_enqueue now names reason) q q' \<longleftrightarrow> q' = spec_enqueue now names q"
| "queue_step policy (Op_claim now worker limit busy) q q' \<longleftrightarrow> spec_claim now worker limit policy busy q q'"
| "queue_step policy (Op_complete job worker) q q' \<longleftrightarrow> q' = end_lease (\<lambda>_. None) (j_domain job) worker q"
| "queue_step policy (Op_fail now job worker err) q q' \<longleftrightarrow>
     q' = end_lease (after_failure now (j_attempts job) policy) (j_domain job) worker q"
| "queue_step policy (Op_release job worker) q q' \<longleftrightarrow>
     q' = end_lease (\<lambda>e. Some (Waiting (since e) (due_from e) (max 0 (tries e - 1)))) (j_domain job) worker q"
| "queue_step policy (Op_collect names) q q' \<longleftrightarrow>
     q' = (\<lambda>d. case q d of Some (Dead u) \<Rightarrow> if d \<in> names then None else q d | _ \<Rightarrow> q d)"

section \<open>Abstraction\<close>

definition entry_of :: "queue_row \<Rightarrow> entry" where
  "entry_of r =
     (if q_state r = QDead then Dead (q_next_attempt_at r)
      else case (q_locked_by r, q_locked_at r) of
        (Some w, Some t) \<Rightarrow> Leased (q_enqueued_at r) (q_next_attempt_at r) (q_attempts r) w t
      | _ \<Rightarrow> Waiting (q_enqueued_at r) (q_next_attempt_at r) (q_attempts r))"

definition abs_queue :: "db \<Rightarrow> spec_queue" where
  "abs_queue db d = map_option entry_of (find_row q_domain d (measurement_queue db))"

text \<open>A row that the invariant allows is dead, leased or waiting.\<close>

lemma row_cases:
  assumes "job_row_ok r" and "lease_ok r"
  obtains (dead) "q_state r = QDead" "q_locked_by r = None" "q_locked_at r = None"
      "entry_of r = Dead (q_next_attempt_at r)"
  | (leased) w t where "q_state r = QPending" "q_locked_by r = Some w" "q_locked_at r = Some t"
      "entry_of r = Leased (q_enqueued_at r) (q_next_attempt_at r) (q_attempts r) w t"
  | (waiting) "q_state r = QPending" "q_locked_by r = None" "q_locked_at r = None"
      "entry_of r = Waiting (q_enqueued_at r) (q_next_attempt_at r) (q_attempts r)"
  using assms that
  by (cases "q_state r"; cases "q_locked_by r"; cases "q_locked_at r")
     (auto simp: job_row_ok_def lease_ok_def entry_of_def)

lemma found_ok:
  assumes "queue_inv db" and "find_row q_domain d (measurement_queue db) = Some r"
  shows "job_row_ok r" and "lease_ok r"
  using assms by (auto simp: queue_inv_def queue_ok_def dest!: find_row_SomeD)

lemma claimable_entry: "job_row_ok r \<Longrightarrow> lease_ok r \<Longrightarrow> claimable now policy (entry_of r) = ready now policy r"
  by (erule (1) row_cases) (auto simp: ready_def)

lemma lease_entry:
  "job_row_ok r \<Longrightarrow> lease_ok r \<Longrightarrow> q_state r \<noteq> QDead \<Longrightarrow> entry_of (claim_row now w r) = lease_to now w (entry_of r)"
  by (erule (1) row_cases) (simp_all add: claim_row_def entry_of_def)

lemma since_entry: "q_state r \<noteq> QDead \<Longrightarrow> since (entry_of r) = q_enqueued_at r"
  by (simp add: entry_of_def split: option.split)

section \<open>Every operation refines its specification\<close>

text \<open>The three ways to end a lease.\<close>

lemma end_lease_refines:
  assumes "queue_inv db"
    and look: "\<And>d. find_row q_domain d (measurement_queue db') =
      (case find_row q_domain d (measurement_queue db) of
         None \<Rightarrow> None | Some r \<Rightarrow> if owned job worker r then g r else Some r)"
    and "\<And>r t. q_state r = QPending \<Longrightarrow> q_locked_by r = Some worker \<Longrightarrow> q_locked_at r = Some t \<Longrightarrow>
      map_option entry_of (g r) = f (Leased (q_enqueued_at r) (q_next_attempt_at r) (q_attempts r) worker t)"
  shows "abs_queue db' = end_lease f (j_domain job) worker (abs_queue db)"
proof
  fix d
  show "abs_queue db' d = end_lease f (j_domain job) worker (abs_queue db) d"
  proof (cases "find_row q_domain d (measurement_queue db)")
    case None
    then show ?thesis by (simp add: abs_queue_def end_lease_def look)
  next
    case (Some r)
    then have "q_domain r = d" by (auto dest: find_row_SomeD)
    then show ?thesis
      using found_ok [OF assms(1) Some]
    proof (elim row_cases)
      fix w t
      assume "q_state r = QPending" "q_locked_by r = Some w" "q_locked_at r = Some t"
        "entry_of r = Leased (q_enqueued_at r) (q_next_attempt_at r) (q_attempts r) w t"
      then show ?thesis
        using Some \<open>q_domain r = d\<close> assms(3) [of r t]
        by (auto simp: abs_queue_def end_lease_def look owned_def)
    qed (simp_all add: Some abs_queue_def end_lease_def look owned_def)
  qed
qed

lemma complete_refines:
  "queue_inv db \<Longrightarrow> abs_queue (complete job worker db) = end_lease (\<lambda>_. None) (j_domain job) worker (abs_queue db)"
  by (rule end_lease_refines [where g = "\<lambda>_. None"]) (simp_all add: complete_look queue_inv_def)

lemma fail_refines:
  assumes "queue_inv db"
  shows "abs_queue (snd (fail now job worker err policy db)) =
    end_lease (after_failure now (j_attempts job) policy) (j_domain job) worker (abs_queue db)"
proof (rule end_lease_refines [OF assms, where g = "\<lambda>r. Some (r\<lparr>
      q_state := (if j_attempts job \<ge> max_attempts policy then QDead else QPending),
      q_next_attempt_at := now + secs (if j_attempts job \<ge> max_attempts policy
        then dead_cooldown_seconds policy else retry_delay policy (j_attempts job)),
      q_last_error := Some (take 1000 err), q_locked_by := None, q_locked_at := None\<rparr>)"])
qed (auto simp: fail_look entry_of_def split: option.split)

lemma release_refines:
  assumes "queue_inv db"
  shows "abs_queue (release job worker db) =
    end_lease (\<lambda>e. Some (Waiting (since e) (due_from e) (max 0 (tries e - 1)))) (j_domain job) worker (abs_queue db)"
proof (rule end_lease_refines [OF assms, where g = "\<lambda>r. Some (r\<lparr>q_locked_by := None, q_locked_at := None,
      q_attempts := max 0 (q_attempts r - 1)\<rparr>)"])
qed (auto simp: release_look entry_of_def split: option.split)

lemma enqueue_refines:
  assumes "queue_inv db"
  shows "abs_queue (act_queue policy (Op_enqueue now names reason) db) = spec_enqueue now names (abs_queue db)"
proof (cases "\<forall>d \<in> set names. canonical d")
  case False
  then have "enqueue now names reason db = Inl CheckViolation" by (auto simp: enqueue_def Let_def)
  then show ?thesis using False by (auto simp: spec_enqueue_def)
next
  case True
  then obtain queued db' where e: "enqueue now names reason db = Inr (queued, db')"
    using enqueue_total [of names now reason db] by blast
  have ok: "queue_ok db" using assms by (simp add: queue_inv_def)
  have "abs_queue db' d = spec_enqueue now names (abs_queue db) d" for d
  proof (cases "find_row q_domain d (measurement_queue db)")
    case None
    then show ?thesis
      using True by (auto simp: abs_queue_def spec_enqueue_def enqueue_look [OF e ok] new_job_def entry_of_def)
  next
    case (Some r)
    from found_ok [OF assms this] show ?thesis
      by (elim row_cases)
         (auto simp: Some True abs_queue_def spec_enqueue_def enqueue_look [OF e ok] revive_def revivable_def entry_of_def)
  qed
  then show ?thesis using e by auto
qed

lemma collect_refines:
  assumes "queue_inv db"
  shows "abs_queue (act_queue policy (Op_collect names) db) =
    (\<lambda>d. case abs_queue db d of Some (Dead u) \<Rightarrow> if d \<in> names then None else abs_queue db d | _ \<Rightarrow> abs_queue db d)"
proof
  fix d
  have look: "find_row q_domain d (measurement_queue (act_queue policy (Op_collect names) db)) =
      (case find_row q_domain d (measurement_queue db) of None \<Rightarrow> None
       | Some r \<Rightarrow> if q_state r = QDead \<and> q_domain r \<in> names then None else Some r)"
    using assms by (simp add: find_row_delete_where queue_inv_def queue_ok_def)
  show "abs_queue (act_queue policy (Op_collect names) db) d =
    (case abs_queue db d of Some (Dead u) \<Rightarrow> if d \<in> names then None else abs_queue db d | _ \<Rightarrow> abs_queue db d)"
  proof (cases "find_row q_domain d (measurement_queue db)")
    case None
    then show ?thesis using look by (simp add: abs_queue_def)
  next
    case (Some r)
    then have "q_domain r = d" by (auto dest: find_row_SomeD)
    from found_ok [OF assms Some] show ?thesis
      by (elim row_cases) (use \<open>q_domain r = d\<close> look Some in \<open>simp_all add: abs_queue_def\<close>)
  qed
qed

text \<open>The rows a claim may take are the claimable entries.\<close>

lemma claimable_rows:
  assumes "queue_inv db"
  shows "{d. d \<notin> busy \<and> (\<exists>e. abs_queue db d = Some e \<and> claimable now policy e)} =
    q_domain ` set (filter (\<lambda>r. ready now policy r \<and> q_domain r \<notin> busy) (measurement_queue db))"
    (is "?C = q_domain ` set ?rows")
proof (intro set_eqI iffI)
  fix d
  assume "d \<in> ?C"
  then obtain r where r: "find_row q_domain d (measurement_queue db) = Some r" "claimable now policy (entry_of r)" "d \<notin> busy"
    by (auto simp: abs_queue_def)
  then have "ready now policy r" using claimable_entry found_ok [OF assms r(1)] by blast
  then show "d \<in> q_domain ` set ?rows" using r find_row_SomeD [OF r(1)] by auto
next
  fix d
  assume "d \<in> q_domain ` set ?rows"
  then obtain r where r: "r \<in> set (measurement_queue db)" "ready now policy r" "d \<notin> busy" "q_domain r = d" by auto
  moreover have "unique_key q_domain (measurement_queue db)" using assms by (simp add: queue_inv_def queue_ok_def)
  ultimately have "find_row q_domain d (measurement_queue db) = Some r" by (auto simp: find_row_unique)
  moreover from this have "claimable now policy (entry_of r)"
    using r(2) claimable_entry found_ok [OF assms] by blast
  ultimately show "d \<in> ?C" using r(3) by (auto simp: abs_queue_def)
qed

lemma card_domains:
  assumes "unique_key q_domain rows" and "distinct rs" and "set rs \<subseteq> set rows"
  shows "card (q_domain ` set rs) = length rs"
proof -
  have "inj_on q_domain (set rs)" using assms(1,3) by (auto intro!: inj_onI dest: unique_keyD)
  then show ?thesis using assms(2) by (simp add: card_image distinct_card)
qed

lemma claim_refines:
  assumes "queue_inv db"
  shows "spec_claim now worker limit policy busy (abs_queue db) (abs_queue (snd (claim now worker limit policy busy db)))"
proof -
  let ?rows = "measurement_queue db" and ?p = "if 0 < limit then pick now limit policy busy (measurement_queue db) else []"
  let ?f = "filter (\<lambda>r. ready now policy r \<and> q_domain r \<notin> busy) ?rows"
  obtain jobs db' where c: "claim now worker limit policy busy db = (jobs, db')"
    by (cases "claim now worker limit policy busy db")
  have ok: "queue_ok db" and u: "unique_key q_domain ?rows" using assms by (simp_all add: queue_inv_def queue_ok_def)
  then have d: "distinct ?rows" by (auto simp: unique_key_def distinct_map)
  have S: "j_domain ` set jobs = q_domain ` set ?p"
    using claim_jobs [OF c ok] by (simp add: image_image job_of_def)
  have sub: "set ?p \<subseteq> set ?f" using set_pick_subset [of now limit policy busy ?rows] by auto
  note C = claimable_rows [OF assms, of busy now policy]
  have found: "abs_queue db (q_domain r) = Some (entry_of r)" "q_state r \<noteq> QDead" if "r \<in> set ?f" for r
    using that u by (auto simp: abs_queue_def find_row_unique ready_def)
  have "card (q_domain ` set ?p) = min (nat limit) (card (q_domain ` set ?f))"
  proof -
    have "card (q_domain ` set ?p) = length ?p" using d sub by (intro card_domains [OF u]) (auto simp: pick_def)
    moreover have "card (q_domain ` set ?f) = length ?f" using d by (intro card_domains [OF u]) auto
    ultimately show ?thesis by (simp add: pick_def min.commute)
  qed
  moreover have "since (the (abs_queue db x)) \<le> since (the (abs_queue db y))"
    if x: "x \<in> q_domain ` set ?p" and y: "y \<in> q_domain ` set ?f - q_domain ` set ?p" for x y
  proof -
    obtain r s where r: "r \<in> set ?p" "x = q_domain r" and s: "s \<in> set ?f" "s \<notin> set ?p" "y = q_domain s" using x y by auto
    then have "q_enqueued_at r \<le> q_enqueued_at s"
      unfolding pick_def by (intro take_sort_key_le [of r "nat limit" q_enqueued_at ?f]) (auto split: if_splits)
    moreover have "r \<in> set ?f" using r(1) sub by blast
    ultimately show ?thesis using found [of r] found [of s] r(2) s by (simp add: since_entry del: set_filter)
  qed
  moreover have "abs_queue db' = (\<lambda>x. if x \<in> q_domain ` set ?p then map_option (lease_to now worker) (abs_queue db x) else abs_queue db x)"
  proof
    fix x
    show "abs_queue db' x = (if x \<in> q_domain ` set ?p then map_option (lease_to now worker) (abs_queue db x) else abs_queue db x)"
    proof (cases "find_row q_domain x ?rows")
      case None
      then show ?thesis by (simp add: abs_queue_def claim_look [OF c ok] S)
    next
      case (Some r)
      have "q_state r \<noteq> QDead" if x: "x \<in> q_domain ` set ?p"
      proof -
        obtain s where s: "s \<in> set ?f" "x = q_domain s" using x sub by blast
        then have "find_row q_domain x ?rows = Some s" using u by (auto simp: find_row_unique)
        then show ?thesis using found(2) [OF s(1)] Some by simp
      qed
      then show ?thesis
        using lease_entry [of r] found_ok [OF assms Some] by (simp add: abs_queue_def claim_look [OF c ok] S Some)
    qed
  qed
  moreover have "q_domain ` set ?p \<subseteq> q_domain ` set ?f" using sub by blast
  ultimately show ?thesis
    unfolding spec_claim_def Let_def C c snd_conv by (intro exI [of _ "q_domain ` set ?p"] conjI) blast+
qed

interpretation queue_spec: simulation queue_inv "act_queue policy" abs_queue "queue_step policy" for policy
proof
  show "queue_inv (act_queue policy op db)" if "queue_inv db" for op db using that by (rule act_queue_inv)
  show "queue_step policy op (abs_queue db) (abs_queue (act_queue policy op db))" if "queue_inv db" for op db
  proof (cases op)
    case (Op_enqueue now names reason)
    then show ?thesis using enqueue_refines [OF that] by (simp only: queue_step.simps)
  next
    case (Op_claim now worker limit busy)
    then show ?thesis using claim_refines [OF that] by simp
  next
    case (Op_complete job worker)
    then show ?thesis using complete_refines [OF that] by simp
  next
    case (Op_fail now job worker err)
    then show ?thesis using fail_refines [OF that] by simp
  next
    case (Op_release job worker)
    then show ?thesis using release_refines [OF that] by simp
  next
    case (Op_collect names)
    then show ?thesis using collect_refines [OF that] by (simp only: queue_step.simps)
  qed
qed

text \<open>
  C3: The queue refines its specification. Whatever the clients do, in any order, and with
  every failed statement counted in, the table behaves like a map from domains to entries
  that wait, are leased or are dead: enqueueing adds absent entries and revives dead ones from
  the end of their cooldown on; a claim leases some of the oldest claimable entries, as many
  as there are up to the limit; only the worker that holds a lease can end it, by removing the
  entry, by having it wait again or die after a failure, or by giving the attempt back; and
  garbage collection removes dead entries only.
\<close>

theorem queue_refines_its_specification:
  assumes "queue_inv db"
  shows "spec_run (queue_step policy) ops (abs_queue db) (abs_queue (fold (act_queue policy) ops db))"
  using assms by (rule queue_spec.run_simulates)

theorem queue_refines_its_specification_witness:
  "spec_run (queue_step default_policy)
     [Op_enqueue 3 [''a.net'', ''b.net''] Miss, Op_claim 5 ''w'' 1 {}] Map.empty
     (abs_queue (fold (act_queue default_policy)
       [Op_enqueue 3 [''a.net'', ''b.net''] Miss, Op_claim 5 ''w'' 1 {}] empty_db)) \<and>
   map (\<lambda>r. (q_domain r, entry_of r)) (measurement_queue (fold (act_queue default_policy)
       [Op_enqueue 3 [''a.net'', ''b.net''] Miss, Op_claim 5 ''w'' 1 {}] empty_db)) =
     [(''a.net'', Leased 3 3 1 ''w'' 5), (''b.net'', Waiting 3 3 0)]"
proof
  have "abs_queue empty_db = Map.empty" by (simp add: abs_queue_def empty_db_def fun_eq_iff)
  then show "spec_run (queue_step default_policy)
     [Op_enqueue 3 [''a.net'', ''b.net''] Miss, Op_claim 5 ''w'' 1 {}] Map.empty
     (abs_queue (fold (act_queue default_policy)
       [Op_enqueue 3 [''a.net'', ''b.net''] Miss, Op_claim 5 ''w'' 1 {}] empty_db))"
    using queue_refines_its_specification [OF empty_queue_inv] by metis
qed code_simp

end
