(* ===== verification/Spec2Isabelle.thy ===== *)
theory Spec2Isabelle
  imports Journey Worker_Loop Queue_Refinement
begin

text \<open>
  CA-DNS is a DNS resolver that answers with the address whose server runs on the greenest
  electricity. BIND answers a query from a database if it holds fresh data for the name and
  recurses otherwise. Python services (\<open>src/services/src/cadns\<close>) keep the database filled: the
  collector turns BIND's dnstap stream into hit counts and into jobs on a queue, workers take
  jobs and measure names, and a monitor has expiring names measured again, fetches carbon
  signals and deletes what nobody asks for. All of them meet in the PostgreSQL database, whose
  SQL functions decide the answers. This development models the services and those functions.

  \<^bold>\<open>Theories.\<close> \<open>Prelude\<close>, \<open>Tables\<close>, \<open>Codec\<close> and \<open>Json\<close> hold what the components share: text and
  rounding as Python and PostgreSQL have them, tables as lists with unique keys (\<open>upsert\<close>,
  \<open>update_where\<close>, \<open>delete_where\<close> and their look-up laws, the locale \<open>keyed_rows\<close>), decoders of
  byte strings, JSON values and HTTP responses. \<open>Database\<close> is the schema
  (\<open>db/migrations/0001\<close>, \<open>0003\<close>, \<open>0004\<close>): the row types, the state \<open>db\<close> and its constraints \<open>db_ok\<close>.
  Then one theory per file of the services:

    \<^item> \<open>Framestreams\<close> (\<open>collector/framestreams.py\<close>), \<open>Dnstap\<close> (\<open>collector/dnstap.py\<close>) and
      \<open>Collector\<close> (\<open>collector/service.py\<close>): from the bytes of the socket to batches in the database.
    \<^item> \<open>Queue_Pg\<close> (\<open>queue/pg.py\<close>): the five operations of the measurement queue; the locale
      \<open>leased_queue\<close> is what clients rely on. \<open>Queue_Refinement\<close>: an abstract queue, and that the
      operations refine it (the locale \<open>simulation\<close>).
    \<^item> \<open>Resolver_Pool\<close> (\<open>resolvers/pool.py\<close>), \<open>Geo_Ipinfo\<close> (\<open>geo/ipinfo.py\<close>) and \<open>Carbon_Watttime\<close>
      (\<open>carbon/watttime.py\<close>): the three sources of a measurement, with the locales \<open>geo_sources\<close>
      and \<open>moer_source\<close>.
    \<^item> \<open>Store\<close> (\<open>worker/store.py\<close>), \<open>Config\<close> (\<open>config.py\<close>), \<open>Pipeline\<close> (\<open>worker/pipeline.py\<close>) and
      \<open>Worker_Service\<close> (\<open>worker/service.py\<close>): a measurement from the name to the stored records, and
      the service that runs measurements as a step relation. \<open>Worker_Loop\<close>: its loop with the wake-up
      event, the listener and the stop signal.
    \<^item> \<open>Answer_Policy\<close> (\<open>db/migrations/0002_dlz_functions.sql\<close> and the report queries of
      \<open>worker/store.py\<close>): whether a name is served and what is answered.
    \<^item> \<open>Monitor_Tasks\<close> (\<open>monitor/tasks.py\<close>), with the locale \<open>batch_delete\<close>, \<open>Monitor_Service\<close>
      (\<open>monitor/service.py\<close>) and \<open>Metrics\<close> (the gauges of \<open>metrics.py\<close>).
    \<^item> \<open>Cli\<close> (\<open>cli.py\<close>, \<open>health.py\<close>): how the services are put together, the report, the health check.
    \<^item> \<open>System\<close> puts them around one database, as a step relation for everything the services do, and
      \<open>Journey\<close> follows one name through them.

  This theory imports them all and relates one measurement to the answers.

  \<^bold>\<open>Conventions.\<close> Every operation on the database is a function from \<open>db\<close> to \<open>db\<close>, or to an error or a
  \<open>db\<close> where a constraint can be violated; it takes the time of its transaction. Connections
  are in autocommit mode, so a sequence of statements is a sequence of such functions and a
  transaction is one function. Times are integers, in microseconds since the epoch; Python's
  floats are exact rationals; dicts are association lists; text is ASCII. Exceptions are values of
  a sum type. Steps of different clients interleave as lists of operations
  (\<open>act_queue\<close>, \<open>collector_run\<close>) or as step relations (\<open>worker_step\<close>, \<open>sys_step\<close>). Rows that other transactions
  hold under \<open>SKIP LOCKED\<close> are an argument of the claim. Third-party code is a parameter: the
  transports of HTTP and DNS, dnspython's parser and names, \<open>ipaddress\<close>, the MMDB reader,
  \<open>datetime.fromisoformat\<close>, random numbers, clocks and the lateness of sleeps. What is assumed of
  them stands as a hypothesis in the theorem that needs it.

  \<^bold>\<open>What the theorems show.\<close>

    \<^item> The wire formats are read back as they were written, decoding is bounded, the session of
      the Frame Streams protocol delivers every frame after its handshake and nothing before it.
    \<^item> A batch of the collector is written completely or loses its misses as a whole; counts are
      conserved; ignored names never get in.
    \<^item> The queue keeps its invariant under any interleaving, hands a job to one worker at a time,
      oldest first, gives it back after a crash, retries with backoff up to the dead letter, and
      refines the abstract queue.
    \<^item> A measurement is all or nothing, classifies cautiously, and hands the store what the schema
      accepts; stored records replace those of their domain only; what was measured is what is
      served, for exactly as long as its TTLs say.
    \<^item> Answers are the greenest fresh addresses and never outlive their data; garbage collection
      changes no answer that somebody asks for; the expiry scan queues exactly what is about to
      stop being served; the gauges agree with the answers.
    \<^item> All services together keep the constraints and their locks in every state they can reach; every
      answer comes from the last measurement of the name, so from an upstream resolver; a missed
      name is queued, claimed, measured and served.
    \<^item> Requests to WattTime are spaced, retries bounded, denied regions rest. The monitor keeps the
      rate of its jobs and stops; the worker respects its concurrency, sleeps over no announced
      job, and leaves no lock behind at a shutdown.

  \<^bold>\<open>Bounds and fuel.\<close> Index loops of the decoders end because the position grows, those over the
  reader because the rest shrinks. \<open>delete_in_batches\<close> may run for ever (it does for a limit of
  zero) and is a \<open>partial_function (option)\<close>, with a theorem that it returns for every positive
  limit. \<open>monitor_run\<close> takes a number of passes; \<open>monitor_stops\<close> shows that some number is enough
  whenever the stop event is set. \<open>MAX_CNAME_HOPS\<close> and \<open>MAX_RETRIES\<close> are the code's.

  \<^bold>\<open>Not modelled.\<close> Log records (\<open>log.py\<close>), counters and the metrics endpoint, sockets and file permissions, connection pools, argument parsing and the
  environment variables are input and output of libraries. The C module of BIND only calls the
  SQL functions. Concurrency inside one measurement (\<open>asyncio.gather\<close>, the semaphore) is run in
  the order of the arguments; a measurement together with the update of its job, and a refresh of the
  carbon signals, is one step, between whose statements no other client acts; the locks of the rate
  limiter and the log-in make the client's calls sequential. Errors of the database other than violated constraints occur where a theorem
  speaks of them: at the statements of a flush and at the ends of a worker's task.
\<close>

section \<open>From a measurement to the answer\<close>

text \<open>
  C5: What is measured is what is served. After a measurement that found addresses the name is
  served exactly as long as every type it has addresses of still has one that has not
  expired, where a record lives for its TTL or the configured minimum; after one that found
  none it is not served at all; after one that failed it is served as long as it was going to be
  before. And every address that is ever answered from a successful measurement was in an
  answer of a resolver for that type, and has not expired.
\<close>

theorem measured_is_served:
  assumes "db_ok (ps_db st)" and "measure_domain p now domain st = (Inr m, st')"
  shows "let records = outcome_records (m_outcome m);
      expires = (\<lambda>r. now + secs (max (rc_ttl r) (min_record_ttl (settings (ps_db st)))))
    in if oc_status (m_outcome m) = Failed
       then \<forall>t. dlz_findzone t (ps_db st') (m_domain m) \<longleftrightarrow> dlz_findzone t (ps_db st) (m_domain m)
       else (\<forall>t. dlz_findzone t (ps_db st') (m_domain m) \<longleftrightarrow> oc_status (m_outcome m) = Resolved \<and>
           (\<forall>r \<in> set records. \<exists>r' \<in> set records. rc_rtype r' = rc_rtype r \<and> t < expires r')) \<and>
         (\<forall>t rnd ttl ty a. (ttl, D_Address ty a) \<in> set (dlz_lookup t rnd (ps_db st') (m_domain m) ''@'') \<longrightarrow>
           (\<exists>r \<in> set records. rc_rtype r = ty \<and> rc_address r = a \<and> t < expires r))"
proof (cases "oc_status (m_outcome m) = Failed")
  case True
  then show ?thesis
    using measured_records [OF assms] by (simp add: findzone_records Let_def)
next
  case False
  let ?row = "record_row now 0 (min_record_ttl (settings (ps_db st)))"
  let ?records = "outcome_records (m_outcome m)"
  note rec = measured_records [OF assms]
  have fields: "r_rtype (?row r) = rc_rtype r" "r_address (?row r) = rc_address r"
      "r_expires_at (?row r) = now + secs (max (rc_ttl r) (min_record_ttl (settings (ps_db st))))" for r
    by (simp_all add: record_row_def)
  have rows: "records_of (ps_db st') (normalize_name (m_domain m)) = map ?row ?records" using rec False by simp
  have served: "dlz_findzone t (ps_db st') (m_domain m) \<longleftrightarrow> oc_status (m_outcome m) = Resolved \<and>
      (\<forall>r \<in> set ?records. \<exists>r' \<in> set ?records. rc_rtype r' = rc_rtype r \<and>
        t < now + secs (max (rc_ttl r') (min_record_ttl (settings (ps_db st)))))" for t
    using rec(2) [OF False] unfolding findzone_records rows by (simp add: Let_def fields)
  have "\<exists>r \<in> set ?records. rc_rtype r = ty \<and> rc_address r = a \<and>
      t < now + secs (max (rc_ttl r) (min_record_ttl (settings (ps_db st))))"
    if "(ttl, D_Address ty a) \<in> set (dlz_lookup t rnd (ps_db st') (m_domain m) ''@'')" for t rnd ttl ty a
    using answered_record [OF that] unfolding rows by (auto simp: fields)
  then show ?thesis using served False by (simp add: Let_def)
qed

theorem measured_is_served_witness:
  "\<exists>m st'. measure_domain sample_pipeline 7 '' A.Net'' sample_pstate = (Inr m, st') \<and>
     dlz_findzone (6 + secs 60) (ps_db st') ''a.net'' \<and> \<not> dlz_findzone (7 + secs 60) (ps_db st') ''a.net''"
proof -
  obtain r st' where r: "measure_domain sample_pipeline 7 '' A.Net'' sample_pstate = (r, st')"
    by (cases "measure_domain sample_pipeline 7 '' A.Net'' sample_pstate")
  then obtain m where m: "r = Inr m" "m_domain m = ''a.net''" "oc_status (m_outcome m) = Resolved"
      "outcome_records (m_outcome m) = [\<lparr>rc_rtype = RT_A, rc_address = ''192.0.2.1'', rc_resolver = ''9.9.9.9'', rc_ttl = 60\<rparr>]"
    using sample_records by (cases r) auto
  have "db_ok (ps_db sample_pstate)" using empty_db_ok by (simp add: sample_pstate_def)
  from measured_is_served [OF this r [unfolded m(1)]]
  have "dlz_findzone t (ps_db st') ''a.net'' \<longleftrightarrow> t < 7 + secs 60" for t
    by (simp add: m Let_def sample_pstate_def empty_db_def default_settings_def)
  then show ?thesis using r m(1) by auto
qed

end
